(* ===== verification/Ofi_Prelude.thy ===== *)
theory Ofi_Prelude
  imports Main "HOL-Library.Word"
begin

unbundle bit_operations_syntax

section \<open>Prelude: shared types, error codes and lemma collections\<close>

text \<open>
  What every component of the development shares: the names of the machine integer types, the
  error codes of \<^verbatim>\<open>include/rdma/fi_errno.h\<close> as a datatype, the result type of the fallible
  functions, a model of \<open>memcpy\<close> on byte lists, the lemma collections and the generic
  lemmas on lists and words that the component proofs use.

  A C function that returns \<open>0\<close> or \<open>-FI_X\<close> returns \<open>Inr\<close> or \<open>Inl FI_X\<close> here.  A C function
  that dereferences a pointer that may be \<open>NULL\<close>, or reads outside an array, returns an
  \<open>option\<close>, and \<open>None\<close> is the undefined behaviour.
\<close>

type_synonym u8 = "8 word"
type_synonym u32 = "32 word"
type_synonym u64 = "64 word"
type_synonym size_t = "64 word"
type_synonym c_int = "32 word"

text \<open>\<open>i++\<close> on an \<open>int\<close>: the overflow is undefined.\<close>

definition INT_MAX :: c_int where "INT_MAX = 0x7FFFFFFF"

definition int_incr :: "c_int \<Rightarrow> c_int option" where
  "int_incr i = (if i = INT_MAX then None else Some (i + 1))"

text \<open>The error codes, with the constructors of the header (the commented-out ones left out).\<close>

datatype (plugins only: code size) fi_errno =
    FI_EPERM | FI_ENOENT | FI_EINTR | FI_EIO | FI_E2BIG | FI_EBADF | FI_EAGAIN | FI_ENOMEM
  | FI_EACCES | FI_EFAULT | FI_EBUSY | FI_ENODEV | FI_EINVAL | FI_EMFILE | FI_ENOSPC | FI_ENOSYS
  | FI_EWOULDBLOCK | FI_ENOMSG | FI_ENODATA | FI_EOVERFLOW | FI_EMSGSIZE | FI_ENOPROTOOPT
  | FI_EOPNOTSUPP | FI_EADDRINUSE | FI_EADDRNOTAVAIL | FI_ENETDOWN | FI_ENETUNREACH
  | FI_ECONNABORTED | FI_ECONNRESET | FI_ENOBUFS | FI_EISCONN | FI_ENOTCONN | FI_ESHUTDOWN
  | FI_ETIMEDOUT | FI_ECONNREFUSED | FI_EHOSTDOWN | FI_EHOSTUNREACH | FI_EALREADY
  | FI_EINPROGRESS | FI_EREMOTEIO | FI_ECANCELED | FI_EKEYREJECTED
  | FI_EOTHER | FI_ETOOSMALL | FI_EOPBADSTATE | FI_EAVAIL | FI_EBADFLAGS | FI_ENOEQ | FI_EDOMAIN
  | FI_ENOCQ | FI_ECRC | FI_ETRUNC | FI_ENOKEY | FI_ENOAV | FI_EOVERRUN

type_synonym 'a fi_result = "fi_errno + 'a"

text \<open>Sequencing of fallible steps: an error skips the rest, as an early return or \<open>goto\<close> does.\<close>

primrec and_then :: "'e + 'a \<Rightarrow> ('a \<Rightarrow> 'e + 'b) \<Rightarrow> 'e + 'b" where
  "and_then (Inl e) f = Inl e"
| "and_then (Inr x) f = f x"

lemma and_then_Inr_iff: "and_then r f = Inr y \<longleftrightarrow> (\<exists>x. r = Inr x \<and> f x = Inr y)"
  by (cases r) auto

text \<open>\<open>memcpy(dst + off, src, |src|)\<close> on byte lists.\<close>

definition memcpy :: "'a list \<Rightarrow> nat \<Rightarrow> 'a list \<Rightarrow> 'a list" where
  "memcpy dst off src = take off dst @ src @ drop (off + length src) dst"

named_theorems idx_simps "closed forms of index arithmetic"
named_theorems inv_intros "introduction rules of component invariants"

subsection \<open>Signed increments\<close>

lemma sint_INT_MAX: "sint INT_MAX = 2 ^ 31 - 1"
  by (simp add: INT_MAX_def)

lemma int_incr_sint:
  assumes "int_incr i = Some j"
  shows "sint j = sint i + 1"
proof -
  have "sint i \<noteq> sint INT_MAX" using assms by (auto simp: int_incr_def signed_word_eqI split: if_splits)
  moreover have "- (2 ^ 31) \<le> sint i" "sint i < 2 ^ 31" using sint_greater_eq [of i] sint_less [of i] by simp_all
  ultimately have "signed_take_bit 31 (sint i + 1) = sint i + 1"
    unfolding sint_INT_MAX by (intro signed_take_bit_int_eq_self) auto
  moreover have "sint (i + 1) = signed_take_bit 31 (sint i + 1)" by (simp add: sint_word_ariths(1))
  ultimately show ?thesis using assms by (auto simp: int_incr_def split: if_splits)
qed

subsection \<open>Blocks of bytes\<close>

lemma length_memcpy [simp]:
  "off + length src \<le> length dst \<Longrightarrow> length (memcpy dst off src) = length dst"
  by (simp add: memcpy_def)

lemma nth_memcpy:
  assumes "off + length src \<le> length dst" and "j < length dst"
  shows "memcpy dst off src ! j =
    (if off \<le> j \<and> j < off + length src then src ! (j - off) else dst ! j)"
  using assms by (auto simp: memcpy_def nth_append min_def)

lemma memcpy_Nil [simp]: "memcpy dst off [] = dst"
  by (simp add: memcpy_def)

subsection \<open>Masks and powers of two\<close>

lemma and_mask_mod [idx_simps]: "(w :: 'a::len word) AND (2 ^ k - 1) = w mod 2 ^ k"
  by (metis mask_eq_exp_minus_1 take_bit_eq_mask take_bit_eq_mod)

lemma unat_mod_pow2: "unat ((w :: 'a::len word) mod 2 ^ k) = unat w mod 2 ^ k"
  by (metis take_bit_eq_mod unsigned_take_bit_eq)

lemma unat_pow2: "k < LENGTH('a) \<Longrightarrow> unat (2 ^ k :: 'a::len word) = 2 ^ k"
  using unat_of_nat [of "2 ^ k", where ?'a = 'a] by (simp add: take_bit_eq_mod)

lemma unat_less_pow2: "unat (w :: 'a::len word) < 2 ^ LENGTH('a)"
  by simp

lemma bit_word_odd: "bit (w :: 'a::len word) j \<longleftrightarrow> odd (unat w div 2 ^ j)"
  by (simp flip: bit_iff_odd add: bit_unsigned_iff)

lemma mod_pow2_of_mod_length:
  assumes "k \<le> LENGTH('a::len)"
  shows "(n mod 2 ^ LENGTH('a)) mod 2 ^ k = n mod (2 :: nat) ^ k"
  using assms by (simp add: le_imp_power_dvd mod_mod_cancel)

end
