(* ===== verification/Ofi_Indexer.thy ===== *)
theory Ofi_Indexer
  imports Ofi_Prelude
begin

unbundle bit_operations_syntax

section \<open>The indexer and the index map\<close>

text \<open>
  \<^verbatim>\<open>include/ofi_indexer.h\<close> and \<^verbatim>\<open>src/indexer.c\<close>: two double-lookup tables from a C \<open>int\<close> to a
  pointer.  The indexer picks the index itself, from a free list threaded through the entries; the
  index map is given the index by its caller.  A pointer is an \<open>'p option\<close> (\<open>None\<close> is \<open>NULL\<close>), the
  table of chunks is a partial function from the upper bits of an index, and a chunk a total
  function from its lower bits.  Whether \<open>calloc\<close> succeeds is an argument of the operations that
  allocate.  An access through a chunk that is not allocated is \<open>None\<close>.
\<close>

definition OFI_IDX_INDEX_BITS :: nat where "OFI_IDX_INDEX_BITS = 20"
definition OFI_IDX_ENTRY_BITS :: nat where "OFI_IDX_ENTRY_BITS = 10"
definition OFI_IDX_ENTRY_SIZE :: int where
  "OFI_IDX_ENTRY_SIZE = push_bit OFI_IDX_ENTRY_BITS 1"
definition OFI_IDX_ARRAY_SIZE :: int where
  "OFI_IDX_ARRAY_SIZE = push_bit (OFI_IDX_INDEX_BITS - OFI_IDX_ENTRY_BITS) 1"
definition OFI_IDX_MAX_INDEX :: int where
  "OFI_IDX_MAX_INDEX = push_bit OFI_IDX_INDEX_BITS 1 - 1"

definition ofi_idx_array_index :: "int \<Rightarrow> int" where
  "ofi_idx_array_index index = drop_bit OFI_IDX_ENTRY_BITS index"

definition ofi_idx_entry_index :: "int \<Rightarrow> int" where
  "ofi_idx_entry_index index = index AND (OFI_IDX_ENTRY_SIZE - 1)"

text \<open>Reading \<open>idx->array[a]\<close>: the arrays have \<open>OFI_IDX_ARRAY_SIZE\<close> slots, and a slot that
  was never allocated holds \<open>NULL\<close>.  Outside the array, and through \<open>NULL\<close>, the access is undefined.\<close>

definition in_array :: "int \<Rightarrow> bool" where
  "in_array a \<longleftrightarrow> 0 \<le> a \<and> a < OFI_IDX_ARRAY_SIZE"

definition chunk :: "(int \<rightharpoonup> 'c) \<Rightarrow> int \<Rightarrow> 'c option" where
  "chunk arr a = (if in_array a then arr a else None)"

subsection \<open>The indexer\<close>

record 'p ofi_idx_entry =
  item :: "'p option"
  next_idx :: int

record 'p indexer =
  array :: "int \<rightharpoonup> (int \<Rightarrow> 'p ofi_idx_entry)"
  free_list :: int
  size_used :: int

definition idx_init :: "'p indexer" where
  "idx_init = \<lparr>array = Map.empty, free_list = 0, size_used = 0\<rparr>"

text \<open>The loop \<open>for (i = OFI_IDX_ENTRY_SIZE - 2; i >= 0; i--) entry[i].next = start_index + i + 1\<close>,
  run for the indices below \<open>n\<close>, the highest first.\<close>

primrec idx_thread :: "int \<Rightarrow> nat \<Rightarrow> (int \<Rightarrow> 'p ofi_idx_entry) \<Rightarrow> (int \<Rightarrow> 'p ofi_idx_entry)" where
  "idx_thread start 0 e = e"
| "idx_thread start (Suc i) e =
     idx_thread start i (e(int i := (e (int i))\<lparr>next_idx := start + int i + 1\<rparr>))"

definition ofi_idx_grow :: "bool \<Rightarrow> 'p indexer \<Rightarrow> ('p indexer \<times> int)" where
  "ofi_idx_grow calloc_ok idx =
    (if size_used idx \<ge> OFI_IDX_ARRAY_SIZE then (idx, -1)
     else if \<not> calloc_ok then (idx\<lparr>array := (array idx)(size_used idx := None)\<rparr>, -1)
     else
       let entry0 = (\<lambda>_. \<lparr>item = None, next_idx = 0\<rparr>);
           start_index = push_bit OFI_IDX_ENTRY_BITS (size_used idx);
           entry1 = entry0(OFI_IDX_ENTRY_SIZE - 1 :=
                       (entry0 (OFI_IDX_ENTRY_SIZE - 1))\<lparr>next_idx := free_list idx\<rparr>);
           entry2 = idx_thread start_index (nat (OFI_IDX_ENTRY_SIZE - 1)) entry1;
           first_index = (if start_index = 0 then start_index + 1 else start_index)
       in (\<lparr>array = (array idx)(size_used idx \<mapsto> entry2), free_list = first_index,
             size_used = size_used idx + 1\<rparr>, first_index))"

definition ofi_idx_insert :: "bool \<Rightarrow> 'p indexer \<Rightarrow> 'p option \<Rightarrow> ('p indexer \<times> int) option" where
  "ofi_idx_insert calloc_ok idx p =
    (let (idx1, index) = (if free_list idx = 0 then ofi_idx_grow calloc_ok idx
                          else (idx, free_list idx))
     in if free_list idx = 0 \<and> index \<le> 0 then Some (idx1, index)
        else case chunk (array idx1) (ofi_idx_array_index index) of
          None \<Rightarrow> None
        | Some entry \<Rightarrow>
            (let k = ofi_idx_entry_index index
             in Some (idx1\<lparr>free_list := next_idx (entry k),
                           array := (array idx1)(ofi_idx_array_index index \<mapsto>
                              entry(k := (entry k)\<lparr>item := p\<rparr>))\<rparr>, index)))"

definition ofi_idx_remove :: "'p indexer \<Rightarrow> int \<Rightarrow> ('p indexer \<times> 'p option) option" where
  "ofi_idx_remove idx index =
    (case chunk (array idx) (ofi_idx_array_index index) of
       None \<Rightarrow> None
     | Some entry \<Rightarrow>
         (let k = ofi_idx_entry_index index
          in Some (idx\<lparr>array := (array idx)(ofi_idx_array_index index \<mapsto>
                          entry(k := \<lparr>item = None, next_idx = free_list idx\<rparr>)),
                        free_list := index\<rparr>, item (entry k))))"

definition ofi_idx_replace :: "'p indexer \<Rightarrow> int \<Rightarrow> 'p option \<Rightarrow> 'p indexer option" where
  "ofi_idx_replace idx index p =
    (case chunk (array idx) (ofi_idx_array_index index) of
       None \<Rightarrow> None
     | Some entry \<Rightarrow>
         (let k = ofi_idx_entry_index index
          in Some (idx\<lparr>array := (array idx)(ofi_idx_array_index index \<mapsto>
                          entry(k := (entry k)\<lparr>item := p\<rparr>))\<rparr>)))"

text \<open>The loop \<open>while (idx->size)\<close> of \<open>ofi_idx_reset\<close>, with \<open>n\<close> the value of \<open>size\<close>.\<close>

primrec idx_reset_loop :: "nat \<Rightarrow> 'p indexer \<Rightarrow> 'p indexer" where
  "idx_reset_loop 0 idx = idx"
| "idx_reset_loop (Suc n) idx =
     idx_reset_loop n (idx\<lparr>array := (array idx)(int n := None), size_used := int n\<rparr>)"

definition ofi_idx_reset :: "'p indexer \<Rightarrow> 'p indexer" where
  "ofi_idx_reset idx = (idx_reset_loop (nat (size_used idx)) idx)\<lparr>free_list := 0\<rparr>"

definition ofi_idx_is_valid :: "'p indexer \<Rightarrow> int \<Rightarrow> bool" where
  "ofi_idx_is_valid idx index \<longleftrightarrow> index > 0 \<and> index < size_used idx * OFI_IDX_ENTRY_SIZE"

definition ofi_idx_at :: "'p indexer \<Rightarrow> int \<Rightarrow> 'p option option" where
  "ofi_idx_at idx index =
    map_option (\<lambda>entry. item (entry (ofi_idx_entry_index index)))
      (chunk (array idx) (ofi_idx_array_index index))"

definition ofi_idx_lookup :: "'p indexer \<Rightarrow> int \<Rightarrow> 'p option option" where
  "ofi_idx_lookup idx index =
    (if ofi_idx_is_valid idx index then ofi_idx_at idx index else Some None)"

subsection \<open>The index map\<close>

record 'p index_map =
  idm_array :: "int \<rightharpoonup> (int \<Rightarrow> 'p option)"
  idm_count :: "int \<Rightarrow> int"

definition idm_init :: "'p index_map" where
  "idm_init = \<lparr>idm_array = Map.empty, idm_count = (\<lambda>_. 0)\<rparr>"

definition ofi_idm_grow :: "bool \<Rightarrow> 'p index_map \<Rightarrow> int \<Rightarrow> ('p index_map \<times> int)" where
  "ofi_idm_grow calloc_ok idm index =
    (if calloc_ok
     then (idm\<lparr>idm_array := (idm_array idm)(ofi_idx_array_index index \<mapsto> (\<lambda>_. None))\<rparr>, index)
     else (idm\<lparr>idm_array := (idm_array idm)(ofi_idx_array_index index := None)\<rparr>, -1))"

definition ofi_idm_set :: "bool \<Rightarrow> 'p index_map \<Rightarrow> int \<Rightarrow> 'p option \<Rightarrow> ('p index_map \<times> int) option"
  where
  "ofi_idm_set calloc_ok idm index p =
    (if index > OFI_IDX_MAX_INDEX then Some (idm, -1)
     else if \<not> in_array (ofi_idx_array_index index) then None
     else
       let a = ofi_idx_array_index index;
           (idm1, r) = (if idm_array idm a = None then ofi_idm_grow calloc_ok idm index
                        else (idm, index))
       in if idm_array idm a = None \<and> r < 0 then Some (idm1, -1)
          else case idm_array idm1 a of
            None \<Rightarrow> None
          | Some entry \<Rightarrow>
              Some (idm1\<lparr>idm_array := (idm_array idm1)(a \<mapsto> entry(ofi_idx_entry_index index := p)),
                         idm_count := (idm_count idm1)(a := idm_count idm1 a + 1)\<rparr>, index))"

definition ofi_idm_clear :: "'p index_map \<Rightarrow> int \<Rightarrow> ('p index_map \<times> 'p option) option" where
  "ofi_idm_clear idm index =
    (let a = ofi_idx_array_index index; k = ofi_idx_entry_index index
     in case chunk (idm_array idm) a of
          None \<Rightarrow> None
        | Some entry \<Rightarrow>
            (let c = idm_count idm a - 1;
                 arr = (if c = 0 then (idm_array idm)(a := None)
                        else (idm_array idm)(a \<mapsto> entry(k := None)))
             in Some (idm\<lparr>idm_array := arr, idm_count := (idm_count idm)(a := c)\<rparr>, entry k)))"

text \<open>The loop over all chunks of \<open>ofi_idm_reset\<close>, below \<open>n\<close>.\<close>

primrec idm_reset_loop :: "nat \<Rightarrow> 'p index_map \<Rightarrow> 'p index_map" where
  "idm_reset_loop 0 idm = idm"
| "idm_reset_loop (Suc n) idm =
     (let idm' = idm_reset_loop n idm
      in if idm_array idm' (int n) = None then idm'
         else idm'\<lparr>idm_array := (idm_array idm')(int n := None),
                   idm_count := (idm_count idm')(int n := 0)\<rparr>)"

definition ofi_idm_reset :: "'p index_map \<Rightarrow> 'p index_map" where
  "ofi_idm_reset idm = idm_reset_loop (nat OFI_IDX_ARRAY_SIZE) idm"

definition ofi_idm_at :: "'p index_map \<Rightarrow> int \<Rightarrow> 'p option option" where
  "ofi_idm_at idm index =
    map_option (\<lambda>entry. entry (ofi_idx_entry_index index))
      (chunk (idm_array idm) (ofi_idx_array_index index))"

definition ofi_idm_lookup :: "'p index_map \<Rightarrow> int \<Rightarrow> 'p option option" where
  "ofi_idm_lookup idm index =
    (if index > OFI_IDX_MAX_INDEX then Some None
     else if \<not> in_array (ofi_idx_array_index index) then None
     else if idm_array idm (ofi_idx_array_index index) \<noteq> None then ofi_idm_at idm index
     else Some None)"

subsection \<open>Index arithmetic\<close>

lemmas idx_consts = OFI_IDX_INDEX_BITS_def OFI_IDX_ENTRY_BITS_def OFI_IDX_ENTRY_SIZE_def
  OFI_IDX_ARRAY_SIZE_def OFI_IDX_MAX_INDEX_def

lemma array_index_div [idx_simps]: "ofi_idx_array_index i = i div 1024"
  by (simp add: ofi_idx_array_index_def idx_consts drop_bit_eq_div)

lemma entry_index_mod [idx_simps]: "ofi_idx_entry_index i = i mod 1024"
proof -
  have "i AND 1023 = take_bit 10 i"
    by (simp add: take_bit_eq_mask mask_eq_exp_minus_1)
  then show ?thesis
    by (simp add: ofi_idx_entry_index_def idx_consts take_bit_eq_mod)
qed

lemma idx_split_eq: "i div 1024 = j div 1024 \<Longrightarrow> i mod 1024 = j mod 1024 \<Longrightarrow> i = (j :: int)"
  by (metis div_mult_mod_eq)

lemma idx_const_values [idx_simps]:
  "OFI_IDX_ENTRY_SIZE = 1024" "OFI_IDX_ARRAY_SIZE = 1024" "OFI_IDX_MAX_INDEX = 1048575"
  "OFI_IDX_ENTRY_BITS = 10"
  by (simp_all add: idx_consts)

subsection \<open>The indexer as a table of handles\<close>

text \<open>
  The interface of a table that hands out its own handles: \<open>rel s m\<close> says that the state \<open>s\<close>
  represents the finite map \<open>m\<close> from the handles in use to their items.  \<open>insert\<close> returns the new
  state and a handle, or \<open>None\<close> when the table cannot grow.
\<close>

locale handle_table =
  fixes rel :: "'s \<Rightarrow> ('h \<rightharpoonup> 'v) \<Rightarrow> bool"
    and insert :: "'s \<Rightarrow> 'v \<Rightarrow> ('s \<times> 'h) option"
    and remove :: "'s \<Rightarrow> 'h \<Rightarrow> ('s \<times> 'v) option"
    and lookup :: "'s \<Rightarrow> 'h \<Rightarrow> 'v option"
  assumes insert_fresh: "rel s m \<Longrightarrow> insert s v = Some (s', h) \<Longrightarrow> h \<notin> dom m"
    and insert_rel: "rel s m \<Longrightarrow> insert s v = Some (s', h) \<Longrightarrow> rel s' (m(h \<mapsto> v))"
    and remove_rel: "rel s m \<Longrightarrow> m h = Some v \<Longrightarrow> \<exists>s'. remove s h = Some (s', v) \<and> rel s' (m(h := None))"
    and lookup_rel: "rel s m \<Longrightarrow> m h = Some v \<Longrightarrow> lookup s h = Some v"
begin

primrec insert_all :: "'s \<Rightarrow> 'v list \<Rightarrow> ('s \<times> 'h list) option" where
  "insert_all s [] = Some (s, [])"
| "insert_all s (v # vs) =
    (case insert s v of None \<Rightarrow> None
     | Some (s', h) \<Rightarrow> map_option (\<lambda>(s'', hs). (s'', h # hs)) (insert_all s' vs))"

lemma insert_all_rel:
  "rel s m \<Longrightarrow> insert_all s vs = Some (s', hs) \<Longrightarrow>
    length hs = length vs \<and> distinct hs \<and> set hs \<inter> dom m = {} \<and> rel s' (m ++ map_of (zip hs vs))"
proof (induction vs arbitrary: s m hs)
  case Nil
  then show ?case by simp
next
  case (Cons v vs)
  then obtain s1 h hs' where ins: "insert s v = Some (s1, h)"
    and rest: "insert_all s1 vs = Some (s', hs')" and hs: "hs = h # hs'"
    by (auto split: option.splits prod.splits)
  have fresh: "h \<notin> dom m" and rel1: "rel s1 (m(h \<mapsto> v))"
    using Cons.prems(1) ins by (auto dest: insert_fresh insert_rel)
  from Cons.IH [OF rel1 rest] have IH: "length hs' = length vs" "distinct hs'"
    "set hs' \<inter> dom (m(h \<mapsto> v)) = {}" "rel s' (m(h \<mapsto> v) ++ map_of (zip hs' vs))" by blast+
  have "h \<notin> dom (map_of (zip hs' vs))" using IH(1,3) by (auto dest: set_zip_leftD map_of_SomeD)
  then have "m(h \<mapsto> v) ++ map_of (zip hs' vs) = m ++ map_of (zip hs (v # vs))"
    by (simp add: hs map_add_upd_left)
  with IH(4) have "rel s' (m ++ map_of (zip hs (v # vs)))" by simp
  moreover have "length hs = length (v # vs)" "distinct hs" "set hs \<inter> dom m = {}"
    using IH(1-3) fresh hs by auto
  ultimately show ?case by blast
qed

lemma insert_all_lookup:
  assumes "rel s m" and "insert_all s vs = Some (s', hs)" and "k < length vs"
  shows "lookup s' (hs ! k) = Some (vs ! k)"
proof -
  have h: "length hs = length vs" "distinct hs" "rel s' (m ++ map_of (zip hs vs))"
    using insert_all_rel [OF assms(1,2)] by auto
  then have "map_of (zip hs vs) (hs ! k) = Some (vs ! k)"
    using assms(3) by (simp add: map_of_zip_nth)
  then show ?thesis using h(3) lookup_rel by (simp add: map_add_def)
qed

lemma insert_remove:
  assumes "rel s m" and "insert s v = Some (s', h)"
  shows "\<exists>s''. remove s' h = Some (s'', v) \<and> rel s'' m"
proof -
  have "rel s' (m(h \<mapsto> v))" and "h \<notin> dom m" using assms insert_rel insert_fresh by auto
  then show ?thesis using remove_rel [of s' "m(h \<mapsto> v)" h v] by (auto simp: fun_upd_idem domIff)
qed

end

text \<open>
  The free list is a chain of \<open>next\<close> links that ends at index \<open>0\<close>.  \<open>idx_rel idx m\<close>: the chunks
  below \<open>size\<close> are allocated, the chain holds exactly the valid indices that \<open>m\<close> does not map, each
  once, and every index that \<open>m\<close> maps holds its item.
\<close>

definition idx_next :: "'p indexer \<Rightarrow> int \<Rightarrow> int" where
  "idx_next idx i = (case array idx (ofi_idx_array_index i) of
     None \<Rightarrow> 0 | Some e \<Rightarrow> next_idx (e (ofi_idx_entry_index i)))"

primrec free_chain :: "(int \<Rightarrow> int) \<Rightarrow> int \<Rightarrow> int list \<Rightarrow> bool" where
  "free_chain nxt i [] \<longleftrightarrow> i = 0"
| "free_chain nxt i (j # js) \<longleftrightarrow> i = j \<and> free_chain nxt (nxt j) js"

definition idx_wf :: "'p indexer \<Rightarrow> bool" where
  "idx_wf idx \<longleftrightarrow> 0 \<le> size_used idx \<and> size_used idx \<le> OFI_IDX_ARRAY_SIZE \<and>
     (\<forall>a. 0 \<le> a \<and> a < size_used idx \<longrightarrow> array idx a \<noteq> None)"

definition idx_rel :: "'p indexer \<Rightarrow> (int \<rightharpoonup> 'p option) \<Rightarrow> bool" where
  "idx_rel idx m \<longleftrightarrow> idx_wf idx \<and>
     (\<exists>fs. free_chain (idx_next idx) (free_list idx) fs \<and> distinct fs \<and>
           set fs = {i. ofi_idx_is_valid idx i} - dom m) \<and>
     dom m \<subseteq> {i. ofi_idx_is_valid idx i} \<and>
     (\<forall>i p. m i = Some p \<longrightarrow> ofi_idx_at idx i = Some p)"

lemma free_chain_cong:
  "(\<And>j. j \<in> set js \<Longrightarrow> f j = g j) \<Longrightarrow> free_chain f i js = free_chain g i js"
  by (induction js arbitrary: i) auto

lemma idx_thread_apply:
  "idx_thread start n e j =
    (if 0 \<le> j \<and> j < int n then (e j)\<lparr>next_idx := start + j + 1\<rparr> else e j)"
proof (induction n arbitrary: e)
  case 0
  then show ?case by simp
next
  case (Suc n)
  show ?case by (auto simp: Suc.IH)
qed

lemma free_chain_upto:
  assumes "\<And>j. a \<le> j \<Longrightarrow> j < b \<Longrightarrow> nxt j = j + 1" and "nxt b = 0" and "a \<le> b"
  shows "free_chain nxt a [a..b]"
  using assms
proof (induction "nat (b - a)" arbitrary: a)
  case 0
  then show ?case by (simp add: upto.simps)
next
  case (Suc n)
  then have "free_chain nxt (a + 1) [a + 1..b]" by (intro Suc.hyps(1)) auto
  moreover have "[a..b] = a # [a + 1..b]" using Suc.prems(3) by (simp add: upto.simps)
  ultimately show ?case using Suc by auto
qed

lemma valid_in_array:
  assumes "idx_wf idx" and "ofi_idx_is_valid idx i"
  obtains e where "array idx (i div 1024) = Some e" "in_array (i div 1024)"
proof -
  have "0 \<le> i div 1024" "i div 1024 < size_used idx"
    using assms by (auto simp: ofi_idx_is_valid_def idx_simps)
  then show thesis using assms(1) that by (force simp: idx_wf_def in_array_def idx_simps)
qed

lemma idx_rel_init: "idx_rel idx_init Map.empty"
  by (auto simp: idx_rel_def idx_wf_def idx_init_def ofi_idx_is_valid_def idx_simps
      intro!: exI [of _ "[]"])

lemma idx_relE:
  assumes "idx_rel idx m"
  obtains fs where "idx_wf idx" "free_chain (idx_next idx) (free_list idx) fs" "distinct fs"
    "set fs = {i. ofi_idx_is_valid idx i} - dom m" "dom m \<subseteq> {i. ofi_idx_is_valid idx i}"
    "\<And>i p. m i = Some p \<Longrightarrow> ofi_idx_at idx i = Some p"
  using assms by (auto simp: idx_rel_def)

lemma grow_rel:
  assumes rel: "idx_rel idx m" and "free_list idx = 0" and "ofi_idx_grow ok idx = (idx1, i)" and "i > 0"
  shows "idx_rel idx1 m \<and> free_list idx1 = i"
proof -
  from rel obtain fs where fs: "idx_wf idx" "free_chain (idx_next idx) (free_list idx) fs"
    "distinct fs" "set fs = {i. ofi_idx_is_valid idx i} - dom m"
    "dom m \<subseteq> {i. ofi_idx_is_valid idx i}"
    "\<And>i p. m i = Some p \<Longrightarrow> ofi_idx_at idx i = Some p" by (rule idx_relE) blast
  have "fs = []" using fs(2,4) assms(2) by (cases fs) (auto simp: ofi_idx_is_valid_def)
  then have dom: "dom m = {i. ofi_idx_is_valid idx i}" using fs by auto
  define n where "n = size_used idx"
  define e where "e = idx_thread (push_bit 10 n) 1023
      ((\<lambda>_. \<lparr>item = None :: 'a option, next_idx = 0\<rparr>)(1023 := \<lparr>item = None, next_idx = 0\<rparr>))"
  have n: "0 \<le> n" "n < 1024" and idx1: "idx1 = \<lparr>array = (array idx)(n \<mapsto> e),
      free_list = i, size_used = n + 1\<rparr>" and i: "i = (if n = 0 then 1 else n * 1024)"
    using assms(2-4) fs(1)
    by (auto simp: ofi_idx_grow_def idx_simps idx_wf_def n_def e_def Let_def push_bit_eq_mult
        split: if_splits)
  have nxt: "idx_next idx1 j = j + 1" if "i \<le> j" "j < n * 1024 + 1023" for j
  proof -
    have d: "j div 1024 = n" using that n i by (auto split: if_splits)
    moreover have "j mod 1024 = j - n * 1024" by (simp flip: d add: minus_div_mult_eq_mod)
    moreover have "n * 1024 \<le> j" using that(1) i by (simp split: if_splits)
    ultimately show ?thesis using that(2) i n
      by (simp add: idx_next_def idx1 e_def idx_simps idx_thread_apply push_bit_eq_mult)
  qed
  have last: "idx_next idx1 (n * 1024 + 1023) = 0"
    by (simp add: idx_next_def idx1 e_def idx_simps idx_thread_apply)
  have chain: "free_chain (idx_next idx1) i [i..n * 1024 + 1023]"
    using nxt last n i by (intro free_chain_upto) auto
  have new: "set [i..n * 1024 + 1023] = {i. ofi_idx_is_valid idx1 i} - dom m"
    using n i by (auto simp: dom ofi_idx_is_valid_def idx1 idx_simps n_def)
  have at: "ofi_idx_at idx1 j = Some p" if "m j = Some p" for j p
  proof -
    have "ofi_idx_is_valid idx j" using that dom by auto
    then have "j div 1024 < n" by (auto simp: ofi_idx_is_valid_def idx_simps n_def)
    then show ?thesis using fs(6) [OF that]
      by (simp add: ofi_idx_at_def chunk_def idx1 idx_simps split: if_splits)
  qed
  have "idx_wf idx1" using fs(1) n by (auto simp: idx_wf_def idx1 idx_simps n_def)
  moreover have "dom m \<subseteq> {i. ofi_idx_is_valid idx1 i}"
    by (auto simp: dom ofi_idx_is_valid_def idx1 idx_simps n_def)
  moreover have "free_chain (idx_next idx1) (free_list idx1) [i..n * 1024 + 1023] \<and>
      distinct [i..n * 1024 + 1023] \<and>
      set [i..n * 1024 + 1023] = {i. ofi_idx_is_valid idx1 i} - dom m"
    using chain new by (simp add: idx1)
  ultimately show ?thesis using at by (auto simp: idx_rel_def idx1 simp del: set_upto)
qed

lemma idx_at_upd:
  assumes "chunk (array idx) (i div 1024) = Some e"
  shows "ofi_idx_at (idx\<lparr>array := (array idx)(i div 1024 \<mapsto> e(i mod 1024 := x)), free_list := f\<rparr>) j =
    (if j = i then Some (item x) else ofi_idx_at idx j)"
  using assms idx_split_eq [of j i]
  by (auto simp: ofi_idx_at_def chunk_def idx_simps split: if_splits)

lemma idx_next_upd:
  assumes "array idx (i div 1024) = Some e"
  shows "idx_next (idx\<lparr>array := (array idx)(i div 1024 \<mapsto> e(i mod 1024 := x)), free_list := f\<rparr>) j =
    (if j = i then next_idx x else idx_next idx j)"
  using assms idx_split_eq [of j i] by (auto simp: idx_next_def idx_simps)

lemma idx_wf_upd:
  "idx_wf idx \<Longrightarrow> idx_wf (idx\<lparr>array := (array idx)(a \<mapsto> e), free_list := f\<rparr>)"
  by (auto simp: idx_wf_def)

lemma idx_valid_upd:
  "ofi_idx_is_valid (idx\<lparr>array := arr, free_list := f\<rparr>) i = ofi_idx_is_valid idx i"
  by (simp add: ofi_idx_is_valid_def)

lemma insert_pop_rel:
  assumes rel: "idx_rel idx m" and "free_list idx \<noteq> 0"
  obtains e where "chunk (array idx) (free_list idx div 1024) = Some e" "free_list idx \<notin> dom m"
    "idx_rel (idx\<lparr>array := (array idx)(free_list idx div 1024 \<mapsto>
        e(free_list idx mod 1024 := (e (free_list idx mod 1024))\<lparr>item := p\<rparr>)),
        free_list := next_idx (e (free_list idx mod 1024))\<rparr>) (m(free_list idx \<mapsto> p))"
proof -
  define i where "i = free_list idx"
  from rel obtain fs where fs: "idx_wf idx" "free_chain (idx_next idx) (free_list idx) fs"
    "distinct fs" "set fs = {i. ofi_idx_is_valid idx i} - dom m"
    "dom m \<subseteq> {i. ofi_idx_is_valid idx i}"
    "\<And>i p. m i = Some p \<Longrightarrow> ofi_idx_at idx i = Some p" by (rule idx_relE) blast
  obtain js where js: "fs = i # js" "free_chain (idx_next idx) (idx_next idx i) js"
    using fs(2) assms(2) by (cases fs) (auto simp: i_def)
  then have i: "ofi_idx_is_valid idx i" "i \<notin> dom m" using fs(4) by auto
  obtain e where e: "array idx (i div 1024) = Some e" "in_array (i div 1024)"
    using valid_in_array [OF fs(1) i(1)] .
  define x where "x = (e (i mod 1024))\<lparr>item := p\<rparr>"
  define idx' where "idx' = idx\<lparr>array := (array idx)(i div 1024 \<mapsto> e(i mod 1024 := x)),
      free_list := next_idx (e (i mod 1024))\<rparr>"
  have ch: "chunk (array idx) (i div 1024) = Some e" using e by (simp add: chunk_def)
  have nx: "idx_next idx' = idx_next idx"
    unfolding idx'_def using e(1) by (intro ext) (auto simp: idx_next_upd x_def idx_next_def idx_simps)
  have "free_chain (idx_next idx') (free_list idx') js"
    using js(2) e(1) by (simp add: nx) (simp add: idx'_def idx_next_def idx_simps)
  moreover have "set js = {k. ofi_idx_is_valid idx' k} - dom (m(i \<mapsto> p))"
    using fs(3,4) js(1) i by (auto simp: idx'_def idx_valid_upd)
  moreover have "distinct js" using fs(3) js(1) by simp
  moreover have "dom (m(i \<mapsto> p)) \<subseteq> {k. ofi_idx_is_valid idx' k}"
    using fs(5) i by (auto simp: idx'_def idx_valid_upd)
  moreover have "\<And>k q. (m(i \<mapsto> p)) k = Some q \<Longrightarrow> ofi_idx_at idx' k = Some q"
    using fs(6) by (auto simp: idx'_def idx_at_upd [OF ch] x_def split: if_splits)
  moreover have "idx_wf idx'" unfolding idx'_def using fs(1) by (rule idx_wf_upd)
  ultimately have "idx_rel idx' (m(i \<mapsto> p))" unfolding idx_rel_def by blast
  then show thesis using that ch i by (simp add: idx'_def x_def i_def)
qed

lemma grow_or_pop_rel:
  assumes "idx_rel idx m"
    and g: "(if free_list idx = 0 then ofi_idx_grow ok idx else (idx, free_list idx)) = (idx1, i)"
    and "free_list idx = 0 \<longrightarrow> i > 0"
  shows "idx_rel idx1 m \<and> free_list idx1 = i"
proof (cases "free_list idx = 0")
  case True
  then have "ofi_idx_grow ok idx = (idx1, i)" "i > 0" using g assms(3) by simp_all
  with assms(1) True show ?thesis by (intro grow_rel)
next
  case False
  then show ?thesis using g assms(1) by auto
qed

lemma insert_rel:
  assumes "idx_rel idx m" and "ofi_idx_insert ok idx p = Some (idx', i)" and "i > 0"
  shows "i \<notin> dom m \<and> idx_rel idx' (m(i \<mapsto> p))"
proof -
  define g where "g = (if free_list idx = 0 then ofi_idx_grow ok idx else (idx, free_list idx))"
  obtain idx1 j where g: "g = (idx1, j)" by (cases g)
  have ij: "j = i" using assms(2,3) g
    by (auto simp: ofi_idx_insert_def g_def Let_def split: if_splits option.splits)
  have "idx_rel idx1 m \<and> free_list idx1 = i"
    using assms(3) by (intro grow_or_pop_rel [OF assms(1) g [unfolded g_def ij]]) simp
  then have r1: "idx_rel idx1 m" "free_list idx1 = i" by simp_all
  then have "free_list idx1 \<noteq> 0" using assms(3) by simp
  with r1(1) obtain e where "chunk (array idx1) (free_list idx1 div 1024) = Some e"
    "free_list idx1 \<notin> dom m"
    "idx_rel (idx1\<lparr>array := (array idx1)(free_list idx1 div 1024 \<mapsto>
        e(free_list idx1 mod 1024 := (e (free_list idx1 mod 1024))\<lparr>item := p\<rparr>)),
        free_list := next_idx (e (free_list idx1 mod 1024))\<rparr>) (m(free_list idx1 \<mapsto> p))"
    by (rule insert_pop_rel)
  then have e: "chunk (array idx1) (i div 1024) = Some e" "i \<notin> dom m"
    "idx_rel (idx1\<lparr>array := (array idx1)(i div 1024 \<mapsto> e(i mod 1024 := (e (i mod 1024))\<lparr>item := p\<rparr>)),
        free_list := next_idx (e (i mod 1024))\<rparr>) (m(i \<mapsto> p))"
    by (simp_all add: r1(2))
  have "idx' = idx1\<lparr>array := (array idx1)(i div 1024 \<mapsto> e(i mod 1024 := (e (i mod 1024))\<lparr>item := p\<rparr>)),
        free_list := next_idx (e (i mod 1024))\<rparr>"
    using assms(2,3) g e(1) ij
    by (auto simp: ofi_idx_insert_def g_def Let_def idx_simps split: if_splits)
  then show ?thesis using e by simp
qed

lemma grow_fail_rel:
  assumes "idx_rel idx m" and "free_list idx = 0" and "ofi_idx_grow ok idx = (idx1, i)" and "\<not> i > 0"
  shows "i = -1 \<and> idx_rel idx1 m \<and> (size_used idx = OFI_IDX_ARRAY_SIZE \<or> \<not> ok)"
proof -
  have wf: "idx_wf idx" using assms(1) by (simp add: idx_rel_def)
  then have i: "i = -1" "size_used idx = OFI_IDX_ARRAY_SIZE \<or> \<not> ok" and idx1: "idx1 = idx \<or>
      idx1 = idx\<lparr>array := (array idx)(size_used idx := None)\<rparr> \<and> size_used idx < 1024"
    using assms(3,4) by (auto simp: ofi_idx_grow_def Let_def idx_wf_def idx_simps push_bit_eq_mult
        split: if_splits)
  from assms(1) obtain fs where fs: "idx_wf idx" "free_chain (idx_next idx) (free_list idx) fs"
    "distinct fs" "set fs = {i. ofi_idx_is_valid idx i} - dom m"
    "dom m \<subseteq> {i. ofi_idx_is_valid idx i}"
    "\<And>i p. m i = Some p \<Longrightarrow> ofi_idx_at idx i = Some p" by (rule idx_relE) blast
  have "fs = []" using fs(2,4) assms(2) by (cases fs) (auto simp: ofi_idx_is_valid_def)
  define idx2 where "idx2 = idx\<lparr>array := (array idx)(size_used idx := None)\<rparr>"
  have "idx_wf idx2" using wf by (auto simp: idx_wf_def idx2_def)
  moreover have "ofi_idx_is_valid idx2 = ofi_idx_is_valid idx"
    by (auto simp: ofi_idx_is_valid_def idx2_def)
  moreover have "ofi_idx_at idx2 j = Some p" if "m j = Some p" for j p
  proof -
    have "ofi_idx_is_valid idx j" using that fs(5) by auto
    then have "j div 1024 < size_used idx" by (auto simp: ofi_idx_is_valid_def idx_simps)
    then show ?thesis using fs(6) [OF that]
      by (simp add: ofi_idx_at_def chunk_def idx2_def idx_simps split: if_splits)
  qed
  moreover have "free_chain (idx_next idx2) (free_list idx2) fs"
    using \<open>fs = []\<close> assms(2) by (simp add: idx2_def)
  ultimately have "idx_rel idx2 m" using fs(3,4,5) unfolding idx_rel_def by auto
  then show ?thesis using i idx1 assms(1) by (auto simp: idx2_def)
qed

lemma insert_total:
  assumes "idx_rel idx m"
  obtains idx' i where "ofi_idx_insert ok idx p = Some (idx', i)"
    "i > 0 \<or> i = -1 \<and> idx_rel idx' m \<and> free_list idx = 0 \<and>
       (size_used idx = OFI_IDX_ARRAY_SIZE \<or> \<not> ok)"
proof (cases "free_list idx = 0 \<and> \<not> snd (ofi_idx_grow ok idx) > 0")
  case True
  then obtain idx1 i where g: "ofi_idx_grow ok idx = (idx1, i)" "\<not> i > 0" by (cases "ofi_idx_grow ok idx") auto
  with True grow_fail_rel [OF assms _ g] that show thesis
    by (auto simp: ofi_idx_insert_def)
next
  case False
  obtain idx1 i where g: "(if free_list idx = 0 then ofi_idx_grow ok idx else (idx, free_list idx)) = (idx1, i)"
    by (metis surj_pair)
  have "idx_rel idx1 m \<and> free_list idx1 = i"
    using False g by (intro grow_or_pop_rel [OF assms g]) auto
  moreover have "i \<noteq> 0" using False g by (auto split: if_splits)
  ultimately have r: "idx_rel idx1 m \<and> free_list idx1 = i \<and> i \<noteq> 0" by blast
  have pos: "i > 0"
  proof -
    from r obtain fs where "free_chain (idx_next idx1) i fs"
      "set fs = {i. ofi_idx_is_valid idx1 i} - dom m" by (auto elim: idx_relE)
    then show ?thesis using r by (cases fs) (auto simp: ofi_idx_is_valid_def)
  qed
  from r have "free_list idx1 \<noteq> 0" by simp
  with r obtain e where "chunk (array idx1) (free_list idx1 div 1024) = Some e"
    by (meson insert_pop_rel)
  then show thesis using that g r pos by (simp add: ofi_idx_insert_def idx_simps Let_def)
qed

lemma remove_rel:
  assumes rel: "idx_rel idx m" and mi: "m i = Some p"
  shows "\<exists>idx'. ofi_idx_remove idx i = Some (idx', p) \<and> idx_rel idx' (m(i := None))"
proof -
  from rel obtain fs where fs: "idx_wf idx" "free_chain (idx_next idx) (free_list idx) fs"
    "distinct fs" "set fs = {i. ofi_idx_is_valid idx i} - dom m"
    "dom m \<subseteq> {i. ofi_idx_is_valid idx i}"
    "\<And>i p. m i = Some p \<Longrightarrow> ofi_idx_at idx i = Some p" by (rule idx_relE) blast
  have i: "ofi_idx_is_valid idx i" "i \<notin> set fs" using mi fs(4,5) by auto
  obtain e where e: "array idx (i div 1024) = Some e" "in_array (i div 1024)"
    using valid_in_array [OF fs(1) i(1)] .
  then have ch: "chunk (array idx) (i div 1024) = Some e" by (simp add: chunk_def)
  have p: "item (e (i mod 1024)) = p" using fs(6) [OF mi] ch by (simp add: ofi_idx_at_def idx_simps)
  define x where "x = \<lparr>item = None :: 'a option, next_idx = free_list idx\<rparr>"
  define idx' where "idx' = idx\<lparr>array := (array idx)(i div 1024 \<mapsto> e(i mod 1024 := x)), free_list := i\<rparr>"
  have "free_chain (idx_next idx') (free_list idx) fs"
    using fs(2) i(2) unfolding idx'_def
    by (subst free_chain_cong [where g = "idx_next idx"]) (auto simp: idx_next_upd e)
  then have "free_chain (idx_next idx') (free_list idx') (i # fs)"
    by (simp add: idx'_def idx_next_upd e x_def)
  moreover have "distinct (i # fs)" using fs(3) i(2) by simp
  moreover have "set (i # fs) = {k. ofi_idx_is_valid idx' k} - dom (m(i := None))"
    using fs(4) i by (auto simp: idx'_def idx_valid_upd)
  moreover have "dom (m(i := None)) \<subseteq> {k. ofi_idx_is_valid idx' k}"
    using fs(5) by (auto simp: idx'_def idx_valid_upd)
  moreover have "\<And>k q. (m(i := None)) k = Some q \<Longrightarrow> ofi_idx_at idx' k = Some q"
    using fs(6) by (auto simp: idx'_def idx_at_upd [OF ch] split: if_splits)
  moreover have "idx_wf idx'" unfolding idx'_def using fs(1) by (rule idx_wf_upd)
  ultimately have "idx_rel idx' (m(i := None))" unfolding idx_rel_def by blast
  moreover have "ofi_idx_remove idx i = Some (idx', p)"
    by (simp add: ofi_idx_remove_def idx_simps ch Let_def idx'_def x_def p)
  ultimately show ?thesis by blast
qed

lemma lookup_rel: "idx_rel idx m \<Longrightarrow> m i = Some p \<Longrightarrow> ofi_idx_lookup idx i = Some p"
  by (auto simp: idx_rel_def ofi_idx_lookup_def)

lemma lookup_invalid: "\<not> ofi_idx_is_valid idx i \<Longrightarrow> ofi_idx_lookup idx i = Some None"
  by (simp add: ofi_idx_lookup_def)

text \<open>The insert of the interface: a non-positive index is the failure.\<close>

definition idx_insert_opt :: "bool \<Rightarrow> 'p indexer \<Rightarrow> 'p option \<Rightarrow> ('p indexer \<times> int) option" where
  "idx_insert_opt ok idx p = (case ofi_idx_insert ok idx p of
     None \<Rightarrow> None | Some (idx', i) \<Rightarrow> if i > 0 then Some (idx', i) else None)"

lemma idx_insert_optD:
  assumes "idx_insert_opt ok idx p = Some (idx', i)"
  shows "ofi_idx_insert ok idx p = Some (idx', i)" "i > 0"
  using assms by (auto simp: idx_insert_opt_def split: option.splits if_splits)

interpretation idx: handle_table idx_rel "idx_insert_opt ok" ofi_idx_remove ofi_idx_lookup
proof unfold_locales
  fix s m v s' h
  assume r: "idx_rel s m" and ins: "idx_insert_opt ok s v = Some (s', h)"
  show "h \<notin> dom m" and "idx_rel s' (m(h \<mapsto> v))"
    using insert_rel [OF r idx_insert_optD [OF ins]] by blast+
qed (rule remove_rel lookup_rel, assumption+)+

subsection \<open>Reset\<close>

lemma idx_reset_loop:
  "size_used (idx_reset_loop n idx) = (if n = 0 then size_used idx else 0)"
  "free_list (idx_reset_loop n idx) = free_list idx"
  by (induction n arbitrary: idx) auto

lemma reset_rel: "idx_wf idx \<Longrightarrow> idx_rel (ofi_idx_reset idx) Map.empty"
  by (auto simp: ofi_idx_reset_def idx_reset_loop idx_rel_def idx_wf_def ofi_idx_is_valid_def
      idx_simps intro!: exI [of _ "[]"])

subsection \<open>The index map as an array\<close>

text \<open>
  \<open>idm_abs idm\<close> is the array the index map stands for.  \<open>idm_inv\<close>: the count of a chunk is the
  number of its slots in use, and a chunk is allocated exactly while one is.
\<close>

definition idm_abs :: "'p index_map \<Rightarrow> int \<Rightarrow> 'p option" where
  "idm_abs idm i = (case idm_array idm (i div 1024) of None \<Rightarrow> None | Some e \<Rightarrow> e (i mod 1024))"

definition used_slots :: "(int \<Rightarrow> 'p option) \<Rightarrow> int set" where
  "used_slots e = {k. 0 \<le> k \<and> k < 1024 \<and> e k \<noteq> None}"

fun chunk_ok :: "(int \<Rightarrow> 'p option) option \<Rightarrow> int \<Rightarrow> bool" where
  "chunk_ok None n \<longleftrightarrow> n = 0"
| "chunk_ok (Some e) n \<longleftrightarrow> used_slots e \<noteq> {} \<and> n = int (card (used_slots e))"

definition idm_inv :: "'p index_map \<Rightarrow> bool" where
  "idm_inv idm \<longleftrightarrow> (\<forall>a. chunk_ok (idm_array idm a) (idm_count idm a))"

lemma finite_used_slots [simp]: "finite (used_slots e)"
  by (rule finite_subset [of _ "{0..<1024}"]) (auto simp: used_slots_def)

lemma used_slots_upd:
  assumes "0 \<le> k" and "k < 1024"
  shows "used_slots (e(k := v)) = (if v = None then used_slots e - {k} else insert k (used_slots e))"
  using assms by (auto simp: used_slots_def)

lemma used_slots_empty [simp]: "used_slots (\<lambda>_. None) = {}"
  by (simp add: used_slots_def)

lemma index_in_array: "0 \<le> i \<Longrightarrow> i \<le> OFI_IDX_MAX_INDEX \<Longrightarrow> in_array (i div 1024)"
  using zdiv_mono1 [of i 1048575 1024] by (simp add: in_array_def idx_simps)

lemma idm_inv_upd:
  "idm_inv idm \<Longrightarrow> chunk_ok c n \<Longrightarrow>
    idm_inv (idm\<lparr>idm_array := (idm_array idm)(a := c), idm_count := (idm_count idm)(a := n)\<rparr>)"
  by (auto simp: idm_inv_def)

lemma idm_invD: "idm_inv idm \<Longrightarrow> chunk_ok (idm_array idm a) (idm_count idm a)"
  by (simp add: idm_inv_def)

lemma idm_abs_upd:
  "idm_abs (idm\<lparr>idm_array := (idm_array idm)(i div 1024 \<mapsto> e(i mod 1024 := v)), idm_count := c\<rparr>) j =
    (if j = i then v else if j div 1024 = i div 1024 then e (j mod 1024) else idm_abs idm j)"
  using idx_split_eq [of j i] by (auto simp: idm_abs_def)

lemma idm_set_spec:
  assumes inv: "idm_inv idm" and i: "0 \<le> i" "i \<le> OFI_IDX_MAX_INDEX"
    and free: "idm_abs idm i = None" and ok: "ok \<or> idm_array idm (i div 1024) \<noteq> None"
  shows "\<exists>idm'. ofi_idm_set ok idm i (Some p) = Some (idm', i) \<and> idm_inv idm' \<and>
    idm_abs idm' = (idm_abs idm)(i \<mapsto> p)"
proof -
  define e where "e = (case idm_array idm (i div 1024) of None \<Rightarrow> \<lambda>_. None | Some e \<Rightarrow> e)"
  have k: "0 \<le> i mod 1024" "i mod 1024 < 1024" by simp_all
  have new: "i mod 1024 \<notin> used_slots e"
    using free by (auto simp: e_def idm_abs_def used_slots_def split: option.splits)
  have c: "idm_count idm (i div 1024) = int (card (used_slots e))"
    using idm_invD [OF inv, of "i div 1024"] by (auto simp: e_def split: option.splits)
  define idm' where "idm' = idm\<lparr>idm_array := (idm_array idm)(i div 1024 \<mapsto> e(i mod 1024 \<mapsto> p)),
      idm_count := (idm_count idm)(i div 1024 := idm_count idm (i div 1024) + 1)\<rparr>"
  have "ofi_idm_set ok idm i (Some p) = Some (idm', i)"
    using i ok by (cases "idm_array idm (i div 1024)")
      (auto simp: ofi_idm_set_def ofi_idm_grow_def idm'_def e_def Let_def index_in_array idx_simps)
  moreover have "idm_inv idm'"
    unfolding idm'_def by (rule idm_inv_upd [OF inv]) (simp add: used_slots_upd k c new)
  moreover have "idm_abs idm' = (idm_abs idm)(i \<mapsto> p)"
    unfolding idm'_def
    by (rule ext, subst idm_abs_upd) (auto simp: idm_abs_def e_def split: option.splits)
  ultimately show ?thesis by blast
qed

lemma idm_clear_spec:
  assumes inv: "idm_inv idm" and i: "0 \<le> i" "i \<le> OFI_IDX_MAX_INDEX" and used: "idm_abs idm i = Some p"
  shows "\<exists>idm'. ofi_idm_clear idm i = Some (idm', Some p) \<and> idm_inv idm' \<and>
    idm_abs idm' = (idm_abs idm)(i := None)"
proof -
  obtain e where e: "idm_array idm (i div 1024) = Some e" "e (i mod 1024) = Some p"
    using used by (auto simp: idm_abs_def split: option.splits)
  have k: "0 \<le> i mod 1024" "i mod 1024 < 1024" by simp_all
  then have mem: "i mod 1024 \<in> used_slots e" using e by (simp add: used_slots_def)
  have c: "idm_count idm (i div 1024) = int (card (used_slots e))"
    using idm_invD [OF inv, of "i div 1024"] e by simp
  define n where "n = int (card (used_slots e - {i mod 1024}))"
  have n: "idm_count idm (i div 1024) - 1 = n"
    using card_Suc_Diff1 [OF finite_used_slots mem] by (simp add: c n_def)
  have n0: "n = 0 \<longleftrightarrow> used_slots (e(i mod 1024 := None)) = {}"
    by (simp add: n_def used_slots_upd k)
  define c' where "c' = (if n = 0 then None else Some (e(i mod 1024 := None)))"
  define idm' where "idm' = idm\<lparr>idm_array := (idm_array idm)(i div 1024 := c'),
      idm_count := (idm_count idm)(i div 1024 := n)\<rparr>"
  have "ofi_idm_clear idm i = Some (idm', Some p)"
    using e i by (simp add: ofi_idm_clear_def idx_simps chunk_def index_in_array Let_def n idm'_def c'_def)
  moreover have "idm_inv idm'"
    unfolding idm'_def using n0 by (intro idm_inv_upd [OF inv]) (auto simp: c'_def n_def used_slots_upd k)
  moreover have "idm_abs idm' j = ((idm_abs idm)(i := None)) j" for j
  proof (cases "j div 1024 = i div 1024")
    case False
    then show ?thesis by (auto simp: idm_abs_def idm'_def)
  next
    case True
    have "e (j mod 1024) = None" if "n = 0" "j \<noteq> i"
    proof -
      have "j mod 1024 \<noteq> i mod 1024" using that(2) True idx_split_eq by blast
      moreover have "j mod 1024 \<notin> used_slots (e(i mod 1024 := None))" using n0 that(1) by simp
      ultimately show ?thesis by (simp add: used_slots_def)
    qed
    then show ?thesis using True e idx_split_eq [OF True] by (auto simp: idm_abs_def idm'_def c'_def)
  qed
  ultimately show ?thesis by blast
qed

lemma idm_lookup_abs:
  "0 \<le> i \<Longrightarrow> i \<le> OFI_IDX_MAX_INDEX \<Longrightarrow> ofi_idm_lookup idm i = Some (idm_abs idm i)"
  by (auto simp: ofi_idm_lookup_def ofi_idm_at_def idm_abs_def index_in_array chunk_def array_index_div
      entry_index_mod split: option.splits)

subsection \<open>Properties\<close>

text \<open>C6. The indexer refines a finite map from handles to items: on every indexer that represents
  \<open>m\<close>, \<open>ofi_idx_insert\<close> is defined (no access through an unallocated chunk); either it returns a
  positive index that \<open>m\<close> does not use, the new indexer represents \<open>m(i \<mapsto> p)\<close> and the lookup of
  \<open>i\<close> gives the item back, or it returns \<open>-1\<close>, the represented map is unchanged, and the free list
  was empty with all chunks in use or \<open>calloc\<close> failing.\<close>

theorem idx_insert_refines:
  assumes "idx_rel idx m"
  shows "\<exists>idx' i. ofi_idx_insert ok idx p = Some (idx', i) \<and>
    (i > 0 \<and> i \<notin> dom m \<and> idx_rel idx' (m(i \<mapsto> p)) \<and> ofi_idx_lookup idx' i = Some p
     \<or> i = -1 \<and> idx_rel idx' m \<and> free_list idx = 0 \<and> (size_used idx = OFI_IDX_ARRAY_SIZE \<or> \<not> ok))"
proof -
  obtain idx' i where ins: "ofi_idx_insert ok idx p = Some (idx', i)"
    and i: "i > 0 \<or> i = -1 \<and> idx_rel idx' m \<and> free_list idx = 0 \<and>
       (size_used idx = OFI_IDX_ARRAY_SIZE \<or> \<not> ok)"
    using insert_total [OF assms] .
  show ?thesis
  proof (cases "i > 0")
    case True
    from insert_rel [OF assms ins True] have "i \<notin> dom m" "idx_rel idx' (m(i \<mapsto> p))" by auto
    moreover from this(2) have "ofi_idx_lookup idx' i = Some p" by (rule lookup_rel) simp
    ultimately show ?thesis using ins True by blast
  next
    case False
    then show ?thesis using ins i by blast
  qed
qed

theorem idx_insert_refines_witness:
  "\<exists>idx' i. ofi_idx_insert True (idx_init :: nat indexer) (Some 7) = Some (idx', i) \<and>
    i > 0 \<and> idx_rel idx' [i \<mapsto> Some 7]"
  using idx_insert_refines [OF idx_rel_init, of True "Some (7 :: nat)"]
  by (auto simp: idx_init_def idx_simps)

text \<open>Handles are unique and stay valid: after any sequence of successful inserts from any
  represented state the returned indices are pairwise distinct, none was in use before, and each
  one looks up the item it was returned for.\<close>

theorem idx_handles_distinct:
  assumes "idx_rel idx m" and "idx.insert_all ok idx vs = Some (idx', hs)"
  shows "length hs = length vs \<and> distinct hs \<and> set hs \<inter> dom m = {} \<and>
    (\<forall>k < length vs. ofi_idx_lookup idx' (hs ! k) = Some (vs ! k))"
  using idx.insert_all_rel [OF assms] idx.insert_all_lookup [OF assms] by blast

theorem idx_handles_distinct_witness:
  "\<exists>idx' hs. idx.insert_all True idx_init [Some (5 :: nat)] = Some (idx', hs) \<and> length hs = 1 \<and>
    ofi_idx_lookup idx' (hs ! 0) = Some (Some 5)"
proof -
  obtain idx' i where "ofi_idx_insert True (idx_init :: nat indexer) (Some 5) = Some (idx', i)" "i > 0"
    using insert_total [OF idx_rel_init, of True "Some (5 :: nat)"] by (auto simp: idx_init_def idx_simps)
  then have "idx.insert_all True idx_init [Some (5 :: nat)] = Some (idx', [i])"
    by (simp add: idx.insert_all.simps idx_insert_opt_def)
  then show ?thesis using idx_handles_distinct [OF idx_rel_init, of True "[Some (5 :: nat)]" idx' "[i]"]
    by simp
qed

text \<open>Round trip: removing the index that an insert returned gives the item back, and the
  indexer represents the map it represented before the insert.\<close>

theorem idx_insert_remove:
  assumes "idx_rel idx m" and "ofi_idx_insert ok idx p = Some (idx', i)" and "i > 0"
  shows "\<exists>idx''. ofi_idx_remove idx' i = Some (idx'', p) \<and> idx_rel idx'' m"
proof -
  have "idx_insert_opt ok idx p = Some (idx', i)" using assms(2,3) by (simp add: idx_insert_opt_def)
  with assms(1) show ?thesis by (rule idx.insert_remove)
qed

theorem idx_insert_remove_witness:
  "\<exists>idx' i idx''. ofi_idx_insert True (idx_init :: nat indexer) (Some 5) = Some (idx', i) \<and>
    ofi_idx_remove idx' i = Some (idx'', Some 5) \<and> idx_rel idx'' Map.empty"
proof -
  obtain idx' i where ins: "ofi_idx_insert True (idx_init :: nat indexer) (Some 5) = Some (idx', i)"
    and pos: "i > 0"
    using insert_total [OF idx_rel_init, of True "Some (5 :: nat)"] by (auto simp: idx_init_def idx_simps)
  show ?thesis using idx_insert_remove [OF idx_rel_init ins pos] ins by blast
qed

text \<open>C23. The index map behaves as an array on the slots its callers own: setting a free slot and
  clearing it again returns the stored pointer, leaves every other slot as it was, and keeps the
  invariant that the count of a chunk is the number of its used slots and that a chunk is allocated
  exactly while one of its slots is in use.\<close>

theorem idm_set_clear:
  assumes "idm_inv idm" and "0 \<le> i" and "i \<le> OFI_IDX_MAX_INDEX" and "idm_abs idm i = None"
  shows "\<exists>idm1 idm2. ofi_idm_set True idm i (Some p) = Some (idm1, i) \<and> idm_inv idm1 \<and>
    ofi_idm_lookup idm1 i = Some (Some p) \<and>
    (\<forall>j. 0 \<le> j \<and> j \<le> OFI_IDX_MAX_INDEX \<and> j \<noteq> i \<longrightarrow> ofi_idm_lookup idm1 j = ofi_idm_lookup idm j) \<and>
    ofi_idm_clear idm1 i = Some (idm2, Some p) \<and> idm_inv idm2 \<and> idm_abs idm2 = idm_abs idm"
proof -
  obtain idm1 where 1: "ofi_idm_set True idm i (Some p) = Some (idm1, i)" "idm_inv idm1"
    "idm_abs idm1 = (idm_abs idm)(i \<mapsto> p)" using idm_set_spec [OF assms] by auto
  moreover obtain idm2 where "ofi_idm_clear idm1 i = Some (idm2, Some p)" "idm_inv idm2"
    "idm_abs idm2 = (idm_abs idm1)(i := None)" using idm_clear_spec [OF 1(2) assms(2,3)] 1(3) by auto
  moreover have "(idm_abs idm1)(i := None) = idm_abs idm" using 1(3) assms(4) by auto
  ultimately show ?thesis using assms(2,3) by (auto simp: idm_lookup_abs)
qed

lemma idm_inv_init: "idm_inv idm_init"
  by (simp add: idm_inv_def idm_init_def)

theorem idm_set_clear_witness:
  "\<exists>idm1 idm2. ofi_idm_set True (idm_init :: nat index_map) 2047 (Some 9) = Some (idm1, 2047) \<and>
    ofi_idm_lookup idm1 2047 = Some (Some 9) \<and> ofi_idm_clear idm1 2047 = Some (idm2, Some 9)"
  using idm_set_clear [OF idm_inv_init, of 2047 "9 :: nat"]
  by (auto simp: idm_init_def idm_abs_def idx_simps)

text \<open>The index map is not an array for a caller that clears a slot twice: with two slots of a
  chunk set, clearing the first one twice takes the chunk's count to zero and frees it, and the
  second slot, which nobody cleared, reads \<open>NULL\<close>.\<close>

theorem idm_double_clear_loses_slot:
  "\<exists>idm2 idm3 idm4. ofi_idm_set True (idm_init :: nat index_map) 1 (Some 8) = Some (idm2, 1) \<and>
     ofi_idm_set True idm2 2 (Some 9) = Some (idm3, 2) \<and> ofi_idm_lookup idm3 2 = Some (Some 9) \<and>
     Option.bind (map_option fst (ofi_idm_clear idm3 1)) (\<lambda>s. map_option fst (ofi_idm_clear s 1)) = Some idm4 \<and>
     ofi_idm_lookup idm4 2 = Some None"
  by (simp add: ofi_idm_set_def ofi_idm_clear_def ofi_idm_grow_def ofi_idm_lookup_def ofi_idm_at_def
      idm_init_def idx_simps in_array_def chunk_def Let_def)

end
