(* ===== verification/Ofi_Util.thy ===== *)
theory Ofi_Util
  imports Ofi_Prelude
begin

unbundle bit_operations_syntax

section \<open>Integer utilities of \<^verbatim>\<open>include/ofi.h\<close> and \<^verbatim>\<open>src/common.c\<close>\<close>

text \<open>
  Power-of-two rounding, alignment, serial-number comparison of wrapping counters, the key index and
  the tag helpers, all on 64-bit words.  The lemmas relate the bit-twiddling code to arithmetic on
  the numbers the words stand for.
\<close>

subsection \<open>Definitions\<close>

definition ofi_val64_gt :: "u64 \<Rightarrow> u64 \<Rightarrow> bool" where
  "ofi_val64_gt x y \<longleftrightarrow> sint (x - y) > 0"

definition ofi_val64_ge :: "u64 \<Rightarrow> u64 \<Rightarrow> bool" where
  "ofi_val64_ge x y \<longleftrightarrow> sint (x - y) \<ge> 0"

definition ofi_val64_lt :: "u64 \<Rightarrow> u64 \<Rightarrow> bool" where
  "ofi_val64_lt x y \<longleftrightarrow> ofi_val64_gt y x"

definition ofi_val64_inrange :: "u64 \<Rightarrow> u64 \<Rightarrow> u64 \<Rightarrow> bool" where
  "ofi_val64_inrange start len val \<longleftrightarrow> ofi_val64_ge val start \<and> ofi_val64_lt val (start + len)"

definition ofi_val32_gt :: "u32 \<Rightarrow> u32 \<Rightarrow> bool" where
  "ofi_val32_gt x y \<longleftrightarrow> sint (x - y) > 0"

definition ofi_val32_ge :: "u32 \<Rightarrow> u32 \<Rightarrow> bool" where
  "ofi_val32_ge x y \<longleftrightarrow> sint (x - y) \<ge> 0"

definition ofi_val32_lt :: "u32 \<Rightarrow> u32 \<Rightarrow> bool" where
  "ofi_val32_lt x y \<longleftrightarrow> ofi_val32_gt y x"

definition ofi_val32_inrange :: "u32 \<Rightarrow> u32 \<Rightarrow> u32 \<Rightarrow> bool" where
  "ofi_val32_inrange start len val \<longleftrightarrow> ofi_val32_ge val start \<and> ofi_val32_lt val (start + len)"

definition roundup_power_of_two :: "u64 \<Rightarrow> u64" where
  "roundup_power_of_two n =
    (if n = 0 \<or> n AND (n - 1) = 0 then n
     else
       let n = n - 1;
           n = n OR drop_bit 1 n;
           n = n OR drop_bit 2 n;
           n = n OR drop_bit 4 n;
           n = n OR drop_bit 8 n;
           n = n OR drop_bit 16 n;
           n = n OR drop_bit 32 n
       in n + 1)"

definition rounddown_power_of_two :: "u64 \<Rightarrow> u64" where
  "rounddown_power_of_two n =
    (let pof2 = roundup_power_of_two n in if pof2 > n then drop_bit 1 pof2 else pof2)"

text \<open>Division by a zero alignment is undefined in C.\<close>

definition ofi_get_aligned_size :: "size_t \<Rightarrow> size_t \<Rightarrow> size_t option" where
  "ofi_get_aligned_size sz align =
    (if align = 0 then None
     else Some (if sz mod align = 0 then sz else (sz div align + 1) * align))"

definition ofi_get_page_start :: "u64 \<Rightarrow> size_t \<Rightarrow> u64" where
  "ofi_get_page_start addr page_size = addr AND NOT (page_size - 1)"

definition ofi_get_page_end :: "u64 \<Rightarrow> size_t \<Rightarrow> u64" where
  "ofi_get_page_end addr page_size = ofi_get_page_start (addr + page_size - 1) page_size"

definition ofi_get_page_bytes :: "u64 \<Rightarrow> size_t \<Rightarrow> size_t \<Rightarrow> size_t" where
  "ofi_get_page_bytes addr len page_size =
    ofi_get_page_end (addr + len) page_size - ofi_get_page_start addr page_size"

record ofi_key_idx =
  seq_no :: u64
  idx_bits :: nat

definition ofi_key_idx_init :: "nat \<Rightarrow> ofi_key_idx" where
  "ofi_key_idx_init bits = \<lparr>seq_no = 0, idx_bits = bits\<rparr>"

definition ofi_idx2key :: "ofi_key_idx \<Rightarrow> u64 \<Rightarrow> ofi_key_idx \<times> u64" where
  "ofi_idx2key ki idx =
    (let s = seq_no ki + 1
     in (ki\<lparr>seq_no := s\<rparr>, push_bit (idx_bits ki) s OR idx))"

definition ofi_key2idx :: "ofi_key_idx \<Rightarrow> u64 \<Rightarrow> u64" where
  "ofi_key2idx ki key = key AND (push_bit (idx_bits ki) 1 - 1)"

text \<open>The loop of \<open>ofi_msb\<close>: shift right until zero, counting.\<close>

function ofi_msb_loop :: "u64 \<Rightarrow> nat \<Rightarrow> nat" where
  "ofi_msb_loop num msb = (if num \<noteq> 0 then ofi_msb_loop (drop_bit 1 num) (msb + 1) else msb)"
  by pat_completeness auto
termination
proof (relation "measure (\<lambda>(num, msb). unat num)")
  fix num :: u64 and msb :: nat
  assume "num \<noteq> 0"
  then have "0 < unat num" by (simp add: unat_gt_0)
  then have "unat (drop_bit 1 num) < unat num" by (simp add: drop_bit_eq_div unat_div)
  then show "((drop_bit 1 num, msb + 1), num, msb) \<in> measure (\<lambda>(num, msb). unat num)" by simp
qed simp

definition ofi_msb :: "u64 \<Rightarrow> nat" where
  "ofi_msb num = ofi_msb_loop num 0"

definition ofi_lsb :: "u64 \<Rightarrow> nat" where
  "ofi_lsb num = ofi_msb (num AND NOT (num - 1))"

definition FI_TAG_GENERIC :: u64 where
  "FI_TAG_GENERIC = 0xAAAAAAAAAAAAAAAA"

definition ofi_max_tag :: "u64 \<Rightarrow> u64" where
  "ofi_max_tag mem_tag_format =
    (if mem_tag_format \<noteq> 0 then drop_bit (64 - ofi_msb mem_tag_format) (- 1) else 0)"

definition ofi_tag_format :: "u64 \<Rightarrow> u64" where
  "ofi_tag_format max_tag =
    (if max_tag \<noteq> 0 then drop_bit (64 - ofi_msb max_tag) FI_TAG_GENERIC else 0)"

subsection \<open>Powers of two\<close>

lemma word_ivl:
  assumes "(n :: u64) \<noteq> 0"
  obtains m where "2 ^ m \<le> unat n" "unat n < 2 ^ (m + 1)" "m < 64"
proof -
  have "unat n \<ge> 1" using assms by (simp add: Suc_le_eq unat_gt_0)
  then obtain m where m: "2 ^ m \<le> unat n" "unat n < 2 ^ (m + 1)"
    using ex_power_ivl1 [of 2 "unat n"] by auto
  have "(2 :: nat) ^ m < 2 ^ 64" using m(1) unat_less_pow2 [of n] by simp
  then have "m < 64" by (simp only: power_strict_increasing_iff one_less_numeral_iff semiring_norm)
  then show thesis using m that by blast
qed

lemma bit_ivl:
  assumes "2 ^ m \<le> unat n" and "unat n < 2 ^ (m + 1)"
  shows "bit (n :: u64) j \<Longrightarrow> j \<le> m" and "bit n m"
proof -
  note eq = bit_word_odd [of n]
  have "unat n div 2 ^ m = 1" using assms by (simp add: div_nat_eqI)
  then show "bit n m" by (simp add: eq)
  show "j \<le> m" if "bit n j"
  proof (rule ccontr)
    assume "\<not> j \<le> m"
    then have "(2 :: nat) ^ (m + 1) \<le> 2 ^ j" by (intro power_increasing) auto
    then have "unat n div 2 ^ j = 0" using assms(2) by simp
    then show False using that by (simp add: eq)
  qed
qed

lemma pow2_of_and_pred:
  assumes "n \<noteq> 0" and "(n :: u64) AND (n - 1) = 0"
  obtains m where "m < 64" "unat n = 2 ^ m"
proof -
  obtain m where m: "2 ^ m \<le> unat n" "unat n < 2 ^ (m + 1)" "m < 64" using word_ivl [OF assms(1)] .
  have "unat n = 2 ^ m"
  proof (rule ccontr)
    assume "unat n \<noteq> 2 ^ m"
    then have "2 ^ m \<le> unat n - 1" "unat n - 1 < 2 ^ (m + 1)" using m by auto
    then have "2 ^ m \<le> unat (n - 1)" "unat (n - 1) < 2 ^ (m + 1)"
      using assms(1) by (simp_all add: unat_minus_one)
    then have "bit (n AND (n - 1)) m" using bit_ivl(2) m by (simp add: bit_and_iff)
    then show False using assms(2) by simp
  qed
  then show thesis using m(3) that by blast
qed

text \<open>
  The smearing of \<open>roundup_power_of_two\<close>: \<open>smeared w x0 x\<close> says that bit \<open>i\<close> of \<open>x\<close> is set when one
  of the \<open>w\<close> bits of \<open>x0\<close> from \<open>i\<close> up is.  Each step doubles \<open>w\<close>.
\<close>

definition smeared :: "nat \<Rightarrow> u64 \<Rightarrow> u64 \<Rightarrow> bool" where
  "smeared w x0 x \<longleftrightarrow> (\<forall>i. bit x i \<longleftrightarrow> (\<exists>j. i \<le> j \<and> j < i + w \<and> bit x0 j))"

lemma smeared_1: "smeared 1 x x"
  by (auto simp: smeared_def less_Suc_eq_le dest: le_antisym)

lemma smeared_step: "smeared w x0 x \<Longrightarrow> smeared (2 * w) x0 (x OR drop_bit w x)"
  unfolding smeared_def
proof (intro allI)
  fix i
  assume h: "\<forall>i. bit x i \<longleftrightarrow> (\<exists>j. i \<le> j \<and> j < i + w \<and> bit x0 j)"
  have "bit (x OR drop_bit w x) i \<longleftrightarrow> bit x i \<or> bit x (w + i)"
    by (simp add: bit_or_iff bit_drop_bit_eq)
  also have "\<dots> \<longleftrightarrow> (\<exists>j. i \<le> j \<and> j < i + w \<and> bit x0 j) \<or> (\<exists>j. w + i \<le> j \<and> j < w + i + w \<and> bit x0 j)"
    using h by simp
  also have "\<dots> \<longleftrightarrow> (\<exists>j. i \<le> j \<and> j < i + 2 * w \<and> bit x0 j)"
  proof
    assume "\<exists>j. i \<le> j \<and> j < i + 2 * w \<and> bit x0 j"
    then obtain j where j: "i \<le> j" "j < i + 2 * w" "bit x0 j" by blast
    then show "(\<exists>j. i \<le> j \<and> j < i + w \<and> bit x0 j) \<or> (\<exists>j. w + i \<le> j \<and> j < w + i + w \<and> bit x0 j)"
      by (cases "j < i + w") (auto intro: exI [of _ j])
  next
    assume "(\<exists>j. i \<le> j \<and> j < i + w \<and> bit x0 j) \<or> (\<exists>j. w + i \<le> j \<and> j < w + i + w \<and> bit x0 j)"
    then obtain j where "i \<le> j \<and> j < i + w \<and> bit x0 j \<or> w + i \<le> j \<and> j < w + i + w \<and> bit x0 j"
      by blast
    then show "\<exists>j. i \<le> j \<and> j < i + 2 * w \<and> bit x0 j" by (intro exI [of _ j]) auto
  qed
  finally show "bit (x OR drop_bit w x) i \<longleftrightarrow> (\<exists>j. i \<le> j \<and> j < i + 2 * w \<and> bit x0 j)" .
qed

lemma smeared_64_mask:
  assumes "smeared 64 x0 x" and "2 ^ m \<le> unat x0" and "unat x0 < 2 ^ (m + 1)" and "m < 64"
  shows "x = mask (m + 1)"
proof (rule bit_word_eqI)
  fix i assume i: "i < LENGTH(64)"
  have "bit x i \<longleftrightarrow> (\<exists>j. i \<le> j \<and> j < i + 64 \<and> bit x0 j)" using assms(1) by (simp add: smeared_def)
  also have "\<dots> \<longleftrightarrow> i \<le> m"
    using bit_ivl [OF assms(2,3)] assms(4) i by (auto intro!: exI [of _ m] dest: order_trans)
  also have "\<dots> \<longleftrightarrow> bit (mask (m + 1) :: u64) i" using i by (auto simp: bit_mask_iff)
  finally show "bit x i \<longleftrightarrow> bit (mask (m + 1) :: u64) i" .
qed

lemma roundup_smear:
  assumes "n \<noteq> 0" and "n AND (n - 1) \<noteq> 0"
    and "2 ^ m \<le> unat (n - 1)" and "unat (n - 1) < 2 ^ (m + 1)" and "m < 64"
  shows "roundup_power_of_two n = 2 ^ (m + 1)"
proof -
  define x where "x = (\<lambda>w x :: u64. x OR drop_bit w x)"
  have "smeared 64 (n - 1) (x 32 (x 16 (x 8 (x 4 (x 2 (x 1 (n - 1)))))))"
    using smeared_step [OF smeared_step [OF smeared_step [OF smeared_step [OF smeared_step [OF
      smeared_step [OF smeared_1 [of "n - 1"]]]]]]] by (simp add: x_def)
  then have "x 32 (x 16 (x 8 (x 4 (x 2 (x 1 (n - 1)))))) = mask (m + 1)"
    using assms(3-5) by (rule smeared_64_mask)
  then show ?thesis
    using assms(1,2) by (simp add: roundup_power_of_two_def Let_def x_def mask_eq_exp_minus_1)
qed

lemma roundup_pow2_cases:
  assumes "n \<noteq> 0" and "unat n \<le> 2 ^ 63"
  obtains m where "m < 64" "unat (roundup_power_of_two n) = 2 ^ m" "unat n \<le> 2 ^ m" "2 ^ m < 2 * unat n"
proof (cases "n AND (n - 1) = 0")
  case True
  obtain m where "m < 64" "unat n = 2 ^ m" using pow2_of_and_pred [OF assms(1) True] .
  then show thesis using that [of m] True by (simp add: roundup_power_of_two_def)
next
  case False
  have "n - 1 \<noteq> 0" using False by auto
  then obtain m where m: "2 ^ m \<le> unat (n - 1)" "unat (n - 1) < 2 ^ (m + 1)" "m < 64"
    by (rule word_ivl)
  have n1: "unat (n - 1) = unat n - 1" using assms(1) by (rule unat_minus_one)
  have "(2 :: nat) ^ m < 2 ^ 63" using m(1) n1 assms unat_gt_0 [of n] by linarith
  then have m63: "m < 63" by (simp only: power_strict_increasing_iff one_less_numeral_iff semiring_norm)
  have "roundup_power_of_two n = 2 ^ (m + 1)"
    using assms(1) False m by (rule roundup_smear)
  then have "unat (roundup_power_of_two n) = 2 ^ (m + 1)"
    using m63 unat_pow2 [of "m + 1", where ?'a = 64] by simp
  then show thesis using that [of "m + 1"] m m63 n1 by auto
qed

lemma roundup_pow2_overflow:
  assumes "2 ^ 63 < unat n"
  shows "roundup_power_of_two n = 0"
proof -
  have n0: "n \<noteq> 0" using assms by auto
  then have n1: "unat (n - 1) = unat n - 1" by (rule unat_minus_one)
  have b: "2 ^ 63 \<le> unat (n - 1)" "unat (n - 1) < 2 ^ (63 + 1)"
    using assms n1 unat_less_pow2 [of "n - 1"] by simp_all
  have "bit (n AND (n - 1)) 63"
    using bit_ivl(2) [OF b] bit_ivl(2) [of 63 n] assms unat_less_pow2 [of n] by (simp add: bit_and_iff)
  then have "n AND (n - 1) \<noteq> 0" by auto
  with n0 have "roundup_power_of_two n = 2 ^ (63 + 1)" using b by (intro roundup_smear) auto
  then show ?thesis by simp
qed

subsection \<open>Bit length\<close>

declare ofi_msb_loop.simps [simp del]

lemma ofi_msb_loop_ivl:
  "2 ^ m \<le> unat num \<Longrightarrow> unat num < 2 ^ (m + 1) \<Longrightarrow> ofi_msb_loop num k = k + m + 1"
proof (induction m arbitrary: num k)
  case 0
  then have "unat num = 1" by simp
  then have "num = 1" by (simp add: word_unat_eq_iff)
  then show ?case by (simp add: ofi_msb_loop.simps [of 1] ofi_msb_loop.simps [of 0] drop_bit_eq_div)
next
  case (Suc m)
  have u: "unat (drop_bit 1 num) = unat num div 2" by (simp add: drop_bit_eq_div unat_div)
  have "2 ^ m \<le> unat (drop_bit 1 num)" "unat (drop_bit 1 num) < 2 ^ (m + 1)"
    using Suc.prems unfolding u by auto
  then have "ofi_msb_loop (drop_bit 1 num) (k + 1) = k + 1 + m + 1" by (rule Suc.IH)
  moreover have "num \<noteq> 0" using Suc.prems(1) by auto
  ultimately show ?case by (simp add: ofi_msb_loop.simps [of num])
qed

lemma ofi_msb_ivl: "2 ^ m \<le> unat num \<Longrightarrow> unat num < 2 ^ (m + 1) \<Longrightarrow> ofi_msb num = m + 1"
  by (simp add: ofi_msb_def ofi_msb_loop_ivl)

lemma ofi_max_tag_ivl:
  assumes "2 ^ m \<le> unat t" and "unat t < 2 ^ (m + 1)" and "m < 64"
  shows "unat (ofi_max_tag t) = 2 ^ (m + 1) - 1"
proof -
  have "t \<noteq> 0" using assms(1) by auto
  moreover have "drop_bit (64 - (m + 1)) (- 1 :: u64) = mask (m + 1)"
    using assms(3) by (intro bit_word_eqI) (auto simp: bit_drop_bit_eq bit_mask_iff)
  ultimately have "ofi_max_tag t = mask (m + 1)"
    using assms by (simp add: ofi_max_tag_def ofi_msb_ivl)
  then have "unat (ofi_max_tag t) = unat (take_bit (m + 1) (- 1 :: u64))"
    by (simp add: take_bit_minus_one_eq_mask)
  also have "\<dots> = mask (min (m + 1) 64)"
    by (simp only: unsigned_take_bit_eq unsigned_minus_1_eq_mask take_bit_of_mask) simp
  finally show ?thesis using assms(3) by (simp add: mask_eq_exp_minus_1 min_def)
qed

lemma tag_format_ivl:
  assumes "2 ^ m \<le> unat t" and "unat t < 2 ^ (m + 1)" and "m < 64"
  shows "2 ^ m \<le> unat (ofi_tag_format t) \<and> unat (ofi_tag_format t) < 2 ^ (m + 1)"
proof -
  define g where "g = unat FI_TAG_GENERIC"
  have g: "2 ^ 63 \<le> g" "g < 2 ^ 64" by (simp_all add: g_def FI_TAG_GENERIC_def)
  have "t \<noteq> 0" using assms(1) by auto
  then have "ofi_tag_format t = drop_bit (63 - m) FI_TAG_GENERIC"
    using assms by (simp add: ofi_tag_format_def ofi_msb_ivl)
  then have eq: "unat (ofi_tag_format t) = g div 2 ^ (63 - m)"
    by (simp add: g_def drop_bit_eq_div unat_div unat_pow2)
  have p: "(2 :: nat) ^ 63 = 2 ^ m * 2 ^ (63 - m)" "(2 :: nat) ^ 64 = 2 ^ (m + 1) * 2 ^ (63 - m)"
    using assms(3) by (simp_all flip: power_add)
  have "2 ^ m \<le> g div 2 ^ (63 - m)" using g(1) p(1) by (simp add: less_eq_div_iff_mult_less_eq)
  moreover have "g div 2 ^ (63 - m) < 2 ^ (m + 1)" using g(2) p(2) by (simp add: less_mult_imp_div_less)
  ultimately show ?thesis by (simp add: eq)
qed

subsection \<open>Serial numbers\<close>

lemma sint_nonneg_iff: "sint (w :: u64) \<ge> 0 \<longleftrightarrow> unat w < 2 ^ 63"
proof -
  have "unat w div 2 ^ 63 < 2" using unat_less_pow2 [of w] by simp
  then have d: "unat w div 2 ^ 63 = 0 \<or> unat w div 2 ^ 63 = 1" by linarith
  have "bit w 63 \<longleftrightarrow> odd (unat w div 2 ^ 63)" by (rule bit_word_odd)
  also have "\<dots> \<longleftrightarrow> 2 ^ 63 \<le> unat w" using d by auto
  finally have "bit w 63 \<longleftrightarrow> 2 ^ 63 \<le> unat w" .
  then show ?thesis using bit_last_iff [of w] by auto
qed

lemma sint_pos_iff: "sint (w :: u64) > 0 \<longleftrightarrow> 0 < unat w \<and> unat w < 2 ^ 63"
proof -
  have "sint w > 0 \<longleftrightarrow> sint w \<ge> 0 \<and> w \<noteq> 0" by (auto simp: less_le signed_eq_0_iff)
  then show ?thesis by (simp add: sint_nonneg_iff unat_gt_0 conj_commute)
qed

lemma inrange_window:
  assumes "unat len < 2 ^ 63"
  shows "ofi_val64_inrange start len v \<longleftrightarrow> unat (v - start) < unat len"
proof -
  define d where "d = v - start"
  have e: "start + len - v = len - d" by (simp add: d_def)
  have lt: "unat d < 2 ^ 64" using unat_less_pow2 [of d] by simp
  have sub: "unat (len - d) = (if d \<le> len then unat len - unat d else unat len + 2 ^ 64 - unat d)"
    by (simp add: unat_sub_if' word_le_nat_alt)
  show ?thesis
    unfolding ofi_val64_inrange_def ofi_val64_ge_def ofi_val64_lt_def ofi_val64_gt_def e
      d_def [symmetric] sint_nonneg_iff sint_pos_iff sub
    using assms lt by (auto simp: word_le_nat_alt)
qed

subsection \<open>Keys and alignment\<close>

lemma and_push_bit_mask: "(push_bit b s OR idx) AND mask b = (idx :: u64) AND mask b"
  by (intro bit_word_eqI) (auto simp: bit_and_iff bit_or_iff bit_push_bit_iff bit_mask_iff)

lemma key2idx_mask: "ofi_key2idx ki key = key AND mask (idx_bits ki)"
  by (simp add: ofi_key2idx_def push_bit_eq_mult mask_eq_exp_minus_1)

lemma and_mask_small: "unat idx < 2 ^ b \<Longrightarrow> (idx :: u64) AND mask b = idx"
  by (simp flip: take_bit_eq_mask add: take_bit_eq_mod word_unat_eq_iff unat_mod_pow2)

lemma aligned_size_nat:
  assumes "al \<noteq> 0" and "unat sz + unat al \<le> 2 ^ 64"
  obtains r where "ofi_get_aligned_size sz al = Some r" "unat r mod unat al = 0" "unat sz \<le> unat r"
    "unat r < unat sz + unat al"
proof (cases "unat sz mod unat al = 0")
  case True
  then have "sz mod al = 0" by (simp add: word_unat_eq_iff unat_mod)
  moreover have "0 < unat al" using assms(1) by (simp add: unat_gt_0)
  ultimately show thesis using True assms(1) that [of sz] by (simp add: ofi_get_aligned_size_def)
next
  case False
  define s a where "s = unat sz" and "a = unat al"
  have a0: "0 < a" using assms(1) by (simp add: a_def unat_gt_0)
  have n: "(s div a + 1) * a = s + a - s mod a"
    using mod_less_eq_dividend [of s a] by (simp flip: minus_mod_eq_div_mult)
  have "s mod a < a" "0 < s mod a" using a0 False by (auto simp: s_def a_def)
  then have lt: "(s div a + 1) * a < 2 ^ 64" "s \<le> (s div a + 1) * a" "(s div a + 1) * a < s + a"
    using n assms(2) by (auto simp: s_def a_def)
  have "(sz div al + 1) * al = of_nat ((s div a + 1) * a)"
    by (simp add: s_def a_def algebra_simps flip: unat_div)
  then have "unat ((sz div al + 1) * al) = (s div a + 1) * a"
    using lt(1) by (simp add: unat_of_nat del: of_nat_mult of_nat_add mult_Suc)
  moreover have "sz mod al \<noteq> 0" using False by (simp add: word_unat_eq_iff unat_mod)
  ultimately show thesis using that [of "(sz div al + 1) * al"] lt assms(1)
    by (simp add: ofi_get_aligned_size_def s_def a_def)
qed

subsection \<open>Properties\<close>

text \<open>C24. \<open>roundup_power_of_two\<close> returns the least power of two that is not below its argument, for
  every argument from \<open>1\<close> to \<open>2 ^ 63\<close>.  It returns \<open>0\<close>, which is no power of two, for the argument \<open>0\<close> and,
  because the sum wraps around, for every argument above \<open>2 ^ 63\<close>.\<close>

theorem roundup_least_power:
  "if n \<noteq> 0 \<and> unat n \<le> 2 ^ 63
    then \<exists>m. unat (roundup_power_of_two n) = 2 ^ m \<and> unat n \<le> 2 ^ m \<and> (\<forall>k. unat n \<le> 2 ^ k \<longrightarrow> m \<le> k)
    else roundup_power_of_two n = 0"
proof (cases "n \<noteq> 0 \<and> unat n \<le> 2 ^ 63")
  case True
  then have "n \<noteq> 0" "unat n \<le> 2 ^ 63" by simp_all
  then obtain m where m: "m < 64" "unat (roundup_power_of_two n) = 2 ^ m" "unat n \<le> 2 ^ m" "2 ^ m < 2 * unat n"
    using roundup_pow2_cases by metis
  have "m \<le> k" if "unat n \<le> 2 ^ k" for k
  proof (rule ccontr)
    assume "\<not> m \<le> k"
    then have "(2 :: nat) ^ (k + 1) \<le> 2 ^ m" by (intro power_increasing) auto
    then show False using m(4) that by simp
  qed
  then show ?thesis using True m by auto
next
  case False
  then show ?thesis using roundup_pow2_overflow [of n] by (cases "n = 0") (simp_all add: roundup_power_of_two_def)
qed

theorem roundup_least_power_witness:
  "\<exists>m. unat (roundup_power_of_two 5) = 2 ^ m \<and> 5 \<le> (2 :: nat) ^ m \<and> (\<forall>k. 5 \<le> (2 :: nat) ^ k \<longrightarrow> m \<le> k)"
  using roundup_least_power [of 5] by simp

text \<open>The serial-number window test of the receive window is exact across the wrap-around of the
  counter: an identifier passes \<open>ofi_val64_inrange\<close> exactly when its distance from the start of the
  window, modulo \<open>2 ^ 64\<close>, is below the window's length.\<close>

theorem val64_window_exact:
  assumes "unat len < 2 ^ 63"
  shows "ofi_val64_inrange start len v \<longleftrightarrow> unat (v - start) < unat len"
  by (rule inrange_window [OF assms])

theorem val64_window_exact_witness:
  "ofi_val64_inrange (- 2) 4 1 \<and> \<not> ofi_val64_inrange (- 2) 4 2"
  using val64_window_exact [of 4 "- 2" 1] val64_window_exact [of 4 "- 2" 2] by simp

text \<open>Tag formats round trip: the format computed for a maximum tag has the same bit length, so
  the maximum tag recovered from it is the largest tag of that length and not below the one given.\<close>

theorem tag_format_max_tag:
  assumes "t \<noteq> 0"
  shows "ofi_msb (ofi_tag_format t) = ofi_msb t \<and> t \<le> ofi_max_tag (ofi_tag_format t) \<and>
    unat (ofi_max_tag (ofi_tag_format t)) = 2 ^ ofi_msb t - 1"
proof -
  obtain m where m: "2 ^ m \<le> unat t" "unat t < 2 ^ (m + 1)" "m < 64" using word_ivl [OF assms] .
  note f = tag_format_ivl [OF m]
  have "unat (ofi_max_tag (ofi_tag_format t)) = 2 ^ (m + 1) - 1"
    using f m(3) by (intro ofi_max_tag_ivl) auto
  then show ?thesis using f m by (auto simp: ofi_msb_ivl word_le_nat_alt)
qed

theorem tag_format_max_tag_witness: "5 \<le> ofi_max_tag (ofi_tag_format 5)"
  using tag_format_max_tag [of 5] by simp

text \<open>Key indices round trip: the index is recovered from the key made of it, the sequence number
  advances by one, and the upper bits of the key are the sequence number modulo \<open>2 ^ (64 - bits)\<close>, so
  that keys of one index made at different sequence numbers of that range differ.\<close>

theorem key_idx_roundtrip:
  assumes "unat idx < 2 ^ idx_bits ki" and "idx_bits ki < 64"
    and "ofi_idx2key ki idx = (ki', key)"
  shows "ofi_key2idx ki' key = idx \<and> seq_no ki' = seq_no ki + 1 \<and>
    drop_bit (idx_bits ki) key = take_bit (64 - idx_bits ki) (seq_no ki')"
proof -
  have ki': "ki' = ki\<lparr>seq_no := seq_no ki + 1\<rparr>" and key: "key = push_bit (idx_bits ki) (seq_no ki + 1) OR idx"
    using assms(3) by (simp_all add: ofi_idx2key_def Let_def)
  have hi: "drop_bit (idx_bits ki) idx = 0"
    using assms(1,2) by (simp add: drop_bit_eq_div word_unat_eq_iff unat_div unat_pow2)
  have "drop_bit (idx_bits ki) (push_bit (idx_bits ki) s) = take_bit (64 - idx_bits ki) s" for s :: u64
    using assms(2) by (intro bit_word_eqI) (auto simp: bit_drop_bit_eq bit_push_bit_iff bit_take_bit_iff)
  then show ?thesis using assms(1) hi
    by (simp add: ki' key key2idx_mask and_push_bit_mask and_mask_small drop_bit_or)
qed

theorem key_idx_roundtrip_witness:
  "ofi_key2idx (ofi_key_idx_init 8) (snd (ofi_idx2key (ofi_key_idx_init 8) 200)) = 200"
  using key_idx_roundtrip [of 200 "ofi_key_idx_init 8"]
  by (simp add: ofi_key_idx_init_def ofi_idx2key_def ofi_key2idx_def Let_def)

end
