(* ===== verification/Ofi_Rbuf.thy ===== *)
theory Ofi_Rbuf
  imports Ofi_Util
begin

unbundle bit_operations_syntax

section \<open>Circular queues, ring buffers and the receive window\<close>

text \<open>
  \<^verbatim>\<open>include/ofi_rbuf.h\<close> and \<^verbatim>\<open>include/ofi_recvwin.h\<close>.  The read and write counters are 64-bit words
  that run freely and wrap around; a slot is the counter masked with \<open>size - 1\<close>, \<open>size\<close> a power of
  two.  The lemmas show that the wrap-around is harmless: the queue between the counters is a plain
  list.  The entries of a queue made by \<open>calloc\<close> hold the value \<open>z\<close> given to the create function.
  Whether an allocation, a socket call or a write on the signalling socket succeeds is an argument.
\<close>

subsection \<open>Circular queue\<close>

record 'a cirque =
  cq_size :: size_t
  cq_size_mask :: size_t
  cq_rcnt :: size_t
  cq_wcnt :: size_t
  cq_buf :: "'a list"

definition cirque_init :: "'a list \<Rightarrow> size_t \<Rightarrow> 'a cirque" where
  "cirque_init b sz = \<lparr>cq_size = sz, cq_size_mask = sz - 1, cq_rcnt = 0, cq_wcnt = 0, cq_buf = b\<rparr>"

definition cirque_create :: "bool \<Rightarrow> 'a \<Rightarrow> size_t \<Rightarrow> 'a cirque option" where
  "cirque_create calloc_ok z sz =
    (let n = roundup_power_of_two sz
     in if calloc_ok then Some (cirque_init (replicate (unat n) z) n) else None)"

definition ofi_cirque_isempty :: "'a cirque \<Rightarrow> bool" where
  "ofi_cirque_isempty cq \<longleftrightarrow> cq_wcnt cq = cq_rcnt cq"

definition ofi_cirque_usedcnt :: "'a cirque \<Rightarrow> size_t" where
  "ofi_cirque_usedcnt cq = cq_wcnt cq - cq_rcnt cq"

definition ofi_cirque_freecnt :: "'a cirque \<Rightarrow> size_t" where
  "ofi_cirque_freecnt cq = cq_size cq - ofi_cirque_usedcnt cq"

definition ofi_cirque_isfull :: "'a cirque \<Rightarrow> bool" where
  "ofi_cirque_isfull cq \<longleftrightarrow> ofi_cirque_freecnt cq \<le> 0"

definition ofi_cirque_rindex :: "'a cirque \<Rightarrow> size_t" where
  "ofi_cirque_rindex cq = cq_rcnt cq AND cq_size_mask cq"

definition ofi_cirque_windex :: "'a cirque \<Rightarrow> size_t" where
  "ofi_cirque_windex cq = cq_wcnt cq AND cq_size_mask cq"

definition ofi_cirque_head :: "'a cirque \<Rightarrow> 'a" where
  "ofi_cirque_head cq = cq_buf cq ! unat (ofi_cirque_rindex cq)"

definition ofi_cirque_tail :: "'a cirque \<Rightarrow> 'a" where
  "ofi_cirque_tail cq = cq_buf cq ! unat (ofi_cirque_windex cq)"

definition ofi_cirque_commit :: "'a cirque \<Rightarrow> 'a cirque" where
  "ofi_cirque_commit cq = cq\<lparr>cq_wcnt := cq_wcnt cq + 1\<rparr>"

definition ofi_cirque_discard :: "'a cirque \<Rightarrow> 'a cirque" where
  "ofi_cirque_discard cq = cq\<lparr>cq_rcnt := cq_rcnt cq + 1\<rparr>"

definition ofi_cirque_insert :: "'a cirque \<Rightarrow> 'a \<Rightarrow> 'a cirque" where
  "ofi_cirque_insert cq x =
    cq\<lparr>cq_buf := (cq_buf cq)[unat (cq_wcnt cq AND cq_size_mask cq) := x], cq_wcnt := cq_wcnt cq + 1\<rparr>"

definition ofi_cirque_remove :: "'a cirque \<Rightarrow> 'a cirque \<times> 'a" where
  "ofi_cirque_remove cq =
    (cq\<lparr>cq_rcnt := cq_rcnt cq + 1\<rparr>, cq_buf cq ! unat (cq_rcnt cq AND cq_size_mask cq))"

subsection \<open>Ring buffer of bytes\<close>

record ofi_ringbuf =
  rb_size :: size_t
  rb_size_mask :: size_t
  rb_rcnt :: size_t
  rb_wcnt :: size_t
  rb_wpos :: size_t
  rb_buf :: "u8 list"

definition ofi_rbinit :: "bool \<Rightarrow> size_t \<Rightarrow> ofi_ringbuf fi_result" where
  "ofi_rbinit calloc_ok sz =
    (let n = roundup_power_of_two sz
     in if \<not> calloc_ok then Inl FI_ENOMEM
        else Inr \<lparr>rb_size = n, rb_size_mask = n - 1, rb_rcnt = 0, rb_wcnt = 0, rb_wpos = 0,
                  rb_buf = replicate (unat n) 0\<rparr>)"

definition ofi_rbreset :: "ofi_ringbuf \<Rightarrow> ofi_ringbuf" where
  "ofi_rbreset rb = rb\<lparr>rb_rcnt := 0, rb_wcnt := 0, rb_wpos := 0\<rparr>"

definition ofi_rbfull :: "ofi_ringbuf \<Rightarrow> bool" where
  "ofi_rbfull rb \<longleftrightarrow> rb_wcnt rb - rb_rcnt rb \<ge> rb_size rb"

definition ofi_rbempty :: "ofi_ringbuf \<Rightarrow> bool" where
  "ofi_rbempty rb \<longleftrightarrow> rb_wcnt rb = rb_rcnt rb"

definition ofi_rbused :: "ofi_ringbuf \<Rightarrow> size_t" where
  "ofi_rbused rb = rb_wcnt rb - rb_rcnt rb"

definition ofi_rbavail :: "ofi_ringbuf \<Rightarrow> size_t" where
  "ofi_rbavail rb = rb_size rb - ofi_rbused rb"

definition ofi_rbwrite :: "ofi_ringbuf \<Rightarrow> u8 list \<Rightarrow> ofi_ringbuf" where
  "ofi_rbwrite rb data =
    (let len = length data;
         off = unat (rb_wpos rb AND rb_size_mask rb);
         endlen = unat (rb_size rb - (rb_wpos rb AND rb_size_mask rb));
         b = (if len \<le> endlen then memcpy (rb_buf rb) off data
              else memcpy (memcpy (rb_buf rb) off (take endlen data)) 0 (drop endlen data))
     in rb\<lparr>rb_buf := b, rb_wpos := rb_wpos rb + of_nat len\<rparr>)"

definition ofi_rbcommit :: "ofi_ringbuf \<Rightarrow> ofi_ringbuf" where
  "ofi_rbcommit rb = rb\<lparr>rb_wcnt := rb_wpos rb\<rparr>"

definition ofi_rbabort :: "ofi_ringbuf \<Rightarrow> ofi_ringbuf" where
  "ofi_rbabort rb = rb\<lparr>rb_wpos := rb_wcnt rb\<rparr>"

definition ofi_rbpeek :: "ofi_ringbuf \<Rightarrow> nat \<Rightarrow> u8 list" where
  "ofi_rbpeek rb len =
    (let off = unat (rb_rcnt rb AND rb_size_mask rb);
         endlen = unat (rb_size rb - (rb_rcnt rb AND rb_size_mask rb))
     in if len \<le> endlen then take len (drop off (rb_buf rb))
        else take endlen (drop off (rb_buf rb)) @ take (len - endlen) (rb_buf rb))"

definition ofi_rbread :: "ofi_ringbuf \<Rightarrow> nat \<Rightarrow> ofi_ringbuf \<times> u8 list" where
  "ofi_rbread rb len = (rb\<lparr>rb_rcnt := rb_rcnt rb + of_nat len\<rparr>, ofi_rbpeek rb len)"

definition ofi_rbdiscard :: "ofi_ringbuf \<Rightarrow> nat \<Rightarrow> ofi_ringbuf \<times> nat" where
  "ofi_rbdiscard rb len =
    (let used_len = min (unat (ofi_rbused rb)) len
     in (rb\<lparr>rb_rcnt := rb_rcnt rb + of_nat used_len\<rparr>, used_len))"

subsection \<open>Ring buffer with a signalling socket\<close>

record ofi_ringbuffd =
  rbfd_rb :: ofi_ringbuf
  fdrcnt :: c_int
  fdwcnt :: c_int

text \<open>The socket pair and the non-blocking mode are set up by the system: their results are given.\<close>

definition ofi_rbfdinit ::
    "bool \<Rightarrow> unit fi_result \<Rightarrow> unit fi_result \<Rightarrow> size_t \<Rightarrow> ofi_ringbuffd fi_result" where
  "ofi_rbfdinit calloc_ok socketpair_ret nonblock_ret sz =
    (case ofi_rbinit calloc_ok sz of
       Inl e \<Rightarrow> Inl e
     | Inr rb \<Rightarrow> (case socketpair_ret of
         Inl e \<Rightarrow> Inl e
       | Inr _ \<Rightarrow> (case nonblock_ret of
           Inl e \<Rightarrow> Inl e
         | Inr _ \<Rightarrow> Inr \<lparr>rbfd_rb = rb, fdrcnt = 0, fdwcnt = 0\<rparr>)))"

definition ofi_rbfdfull :: "ofi_ringbuffd \<Rightarrow> bool" where
  "ofi_rbfdfull rbfd = ofi_rbfull (rbfd_rb rbfd)"

definition ofi_rbfdempty :: "ofi_ringbuffd \<Rightarrow> bool" where
  "ofi_rbfdempty rbfd = ofi_rbempty (rbfd_rb rbfd)"

definition ofi_rbfdused :: "ofi_ringbuffd \<Rightarrow> size_t" where
  "ofi_rbfdused rbfd = ofi_rbused (rbfd_rb rbfd)"

definition ofi_rbfdavail :: "ofi_ringbuffd \<Rightarrow> size_t" where
  "ofi_rbfdavail rbfd = ofi_rbavail (rbfd_rb rbfd)"

text \<open>\<open>write_ok\<close> and \<open>read_ok\<close> tell whether the call on the socket moves its one byte; the code ignores a
  failure.  The counters are of type \<open>int\<close>, so that counting beyond \<open>INT_MAX\<close> is undefined.\<close>

definition ofi_rbfdsignal :: "bool \<Rightarrow> ofi_ringbuffd \<Rightarrow> ofi_ringbuffd option" where
  "ofi_rbfdsignal write_ok rbfd =
    (if fdwcnt rbfd = fdrcnt rbfd \<and> write_ok
     then map_option (\<lambda>n. rbfd\<lparr>fdwcnt := n\<rparr>) (int_incr (fdwcnt rbfd)) else Some rbfd)"

definition ofi_rbfdreset :: "bool \<Rightarrow> ofi_ringbuffd \<Rightarrow> ofi_ringbuffd option" where
  "ofi_rbfdreset read_ok rbfd =
    (if ofi_rbfdempty rbfd \<and> fdrcnt rbfd \<noteq> fdwcnt rbfd \<and> read_ok
     then map_option (\<lambda>n. rbfd\<lparr>fdrcnt := n\<rparr>) (int_incr (fdrcnt rbfd)) else Some rbfd)"

definition ofi_rbfdwrite :: "ofi_ringbuffd \<Rightarrow> u8 list \<Rightarrow> ofi_ringbuffd" where
  "ofi_rbfdwrite rbfd data = rbfd\<lparr>rbfd_rb := ofi_rbwrite (rbfd_rb rbfd) data\<rparr>"

definition ofi_rbfdcommit :: "bool \<Rightarrow> ofi_ringbuffd \<Rightarrow> ofi_ringbuffd option" where
  "ofi_rbfdcommit write_ok rbfd =
    ofi_rbfdsignal write_ok (rbfd\<lparr>rbfd_rb := ofi_rbcommit (rbfd_rb rbfd)\<rparr>)"

definition ofi_rbfdabort :: "ofi_ringbuffd \<Rightarrow> ofi_ringbuffd" where
  "ofi_rbfdabort rbfd = rbfd\<lparr>rbfd_rb := ofi_rbabort (rbfd_rb rbfd)\<rparr>"

definition ofi_rbfdpeek :: "ofi_ringbuffd \<Rightarrow> nat \<Rightarrow> u8 list" where
  "ofi_rbfdpeek rbfd len = ofi_rbpeek (rbfd_rb rbfd) len"

definition ofi_rbfdread :: "bool \<Rightarrow> ofi_ringbuffd \<Rightarrow> nat \<Rightarrow> (ofi_ringbuffd \<times> u8 list) option" where
  "ofi_rbfdread read_ok rbfd len =
    (let (rb', d) = ofi_rbread (rbfd_rb rbfd) len
     in map_option (\<lambda>rbfd'. (rbfd', d)) (ofi_rbfdreset read_ok (rbfd\<lparr>rbfd_rb := rb'\<rparr>)))"

text \<open>\<open>ofi_rbfdsread\<close> polls the socket when the buffer is empty; what other threads do while it waits,
  and the result of the poll, are the argument \<open>poll\<close>.  The result is a \<open>size_t\<close>.\<close>

definition ofi_rbfdsread ::
    "bool \<Rightarrow> (ofi_ringbuffd \<Rightarrow> ofi_ringbuffd \<times> c_int) \<Rightarrow> ofi_ringbuffd \<Rightarrow> nat \<Rightarrow>
      (ofi_ringbuffd \<times> size_t \<times> u8 list) option"
  where
  "ofi_rbfdsread read_ok poll rbfd len =
    (let avail = unat (ofi_rbfdused rbfd);
         read_n = (\<lambda>r n. map_option (\<lambda>(r', d). (r', of_nat n, d)) (ofi_rbfdread read_ok r n))
     in if avail \<noteq> 0 then read_n rbfd (min len avail)
        else let (rbfd1, ret) = poll rbfd
             in if ret = 1 then read_n rbfd1 (min len (unat (ofi_rbfdused rbfd1)))
                else Some (rbfd1, scast ret, []))"

subsection \<open>Receive window\<close>

record 'a recvwin =
  exp_msg_id :: u64
  win_size :: u64
  pending :: "'a cirque"

definition ofi_recvwin_buf_alloc :: "bool \<Rightarrow> 'a \<Rightarrow> u64 \<Rightarrow> 'a recvwin option" where
  "ofi_recvwin_buf_alloc calloc_ok z sz =
    map_option (\<lambda>q. \<lparr>exp_msg_id = 0, win_size = sz, pending = q\<rparr>) (cirque_create calloc_ok z sz)"

definition ofi_recvwin_id_valid :: "'a recvwin \<Rightarrow> u64 \<Rightarrow> bool" where
  "ofi_recvwin_id_valid rq mid = ofi_val64_inrange (exp_msg_id rq) (win_size rq) mid"

text \<open>The slot of a message identifier, the expression shared by \<open>queue_msg\<close> and \<open>get_msg\<close>.\<close>

definition recvwin_idx :: "'a recvwin \<Rightarrow> u64 \<Rightarrow> size_t" where
  "recvwin_idx rq mid =
    (ofi_cirque_rindex (pending rq) + (mid - exp_msg_id rq)) AND cq_size_mask (pending rq)"

text \<open>A failing \<open>assert(ofi_recvwin_id_valid(recvq, id))\<close> is \<open>None\<close>.\<close>

definition ofi_recvwin_queue_msg :: "'a recvwin \<Rightarrow> 'a \<Rightarrow> u64 \<Rightarrow> 'a recvwin option" where
  "ofi_recvwin_queue_msg rq msg mid =
    (if \<not> ofi_recvwin_id_valid rq mid then None
     else let q = pending rq
          in Some (rq\<lparr>pending := ofi_cirque_commit
                (q\<lparr>cq_buf := (cq_buf q)[unat (recvwin_idx rq mid) := msg]\<rparr>)\<rparr>))"

definition ofi_recvwin_get_msg :: "'a recvwin \<Rightarrow> u64 \<Rightarrow> 'a option" where
  "ofi_recvwin_get_msg rq mid =
    (if \<not> ofi_recvwin_id_valid rq mid then None
     else Some (cq_buf (pending rq) ! unat (recvwin_idx rq mid)))"

definition ofi_recvwin_exp_inc :: "'a recvwin \<Rightarrow> 'a recvwin" where
  "ofi_recvwin_exp_inc rq = rq\<lparr>exp_msg_id := exp_msg_id rq + 1\<rparr>"

text \<open>The condition of \<open>ofi_recvwin_get_next_msg\<close> is the address of a slot, which is never \<open>NULL\<close>.\<close>

definition ofi_recvwin_get_next_msg :: "'a recvwin \<Rightarrow> 'a recvwin \<times> 'a" where
  "ofi_recvwin_get_next_msg rq =
    (let rq1 = ofi_recvwin_exp_inc rq; (q, msg) = ofi_cirque_remove (pending rq1)
     in (rq1\<lparr>pending := q\<rparr>, msg))"

definition ofi_recvwin_slide :: "'a recvwin \<Rightarrow> 'a recvwin" where
  "ofi_recvwin_slide rq =
    (let rq1 = ofi_recvwin_exp_inc rq
     in rq1\<lparr>pending := ofi_cirque_commit (ofi_cirque_discard (pending rq1))\<rparr>)"

definition ofi_recvwin_peek :: "'a recvwin \<Rightarrow> 'a" where
  "ofi_recvwin_peek rq = ofi_cirque_head (pending rq)"

definition ofi_recvwin_is_empty :: "'a recvwin \<Rightarrow> bool" where
  "ofi_recvwin_is_empty rq = ofi_cirque_isempty (pending rq)"

definition ofi_recvwin_is_exp :: "'a recvwin \<Rightarrow> u64 \<Rightarrow> bool" where
  "ofi_recvwin_is_exp rq mid \<longleftrightarrow> exp_msg_id rq = mid"

definition ofi_recvwin_next_exp_id :: "'a recvwin \<Rightarrow> u64" where
  "ofi_recvwin_next_exp_id rq = exp_msg_id rq"

subsection \<open>Blocks in a circular buffer\<close>

text \<open>\<open>circ_get b p n\<close> reads \<open>n\<close> entries of the buffer \<open>b\<close> from position \<open>p\<close> on, around the end.\<close>

definition circ_get :: "'a list \<Rightarrow> nat \<Rightarrow> nat \<Rightarrow> 'a list" where
  "circ_get b p n = map (\<lambda>i. b ! ((p + i) mod length b)) [0..<n]"

definition circ_put :: "'a list \<Rightarrow> nat \<Rightarrow> 'a list \<Rightarrow> 'a list" where
  "circ_put b p d = (let off = p mod length b; e = length b - off
     in if length d \<le> e then memcpy b off d else memcpy (memcpy b off (take e d)) 0 (drop e d))"

lemma length_circ_get [simp]: "length (circ_get b p n) = n"
  by (simp add: circ_get_def)

lemma nth_circ_get [simp]: "i < n \<Longrightarrow> circ_get b p n ! i = b ! ((p + i) mod length b)"
  by (simp add: circ_get_def)

lemma circ_get_append: "circ_get b p (m + n) = circ_get b p m @ circ_get b (p + m) n"
  by (rule nth_equalityI) (auto simp: nth_append ac_simps)

lemma circ_get_mod: "circ_get b p n = circ_get b (p mod length b) n"
  by (simp add: circ_get_def mod_add_left_eq)

lemma take_circ_get: "m \<le> n \<Longrightarrow> take m (circ_get b p n) = circ_get b p m"
  by (rule nth_equalityI) auto

lemma drop_circ_get: "m \<le> n \<Longrightarrow> drop m (circ_get b p n) = circ_get b (p + m) (n - m)"
  by (rule nth_equalityI) (auto simp: ac_simps)

lemma length_circ_put [simp]:
  assumes "b \<noteq> []" and "length d \<le> length b"
  shows "length (circ_put b p d) = length b"
proof -
  have "p mod length b < length b" using assms(1) by simp
  then show ?thesis using assms(2) by (auto simp: circ_put_def Let_def min_def)
qed

lemma nth_circ_put:
  assumes "j < length b" and "length d \<le> length b"
  shows "circ_put b p d ! j =
    (let k = (if p mod length b \<le> j then j - p mod length b else j + length b - p mod length b)
     in if k < length d then d ! k else b ! j)"
proof -
  have "p mod length b < length b" using assms(1) by (intro mod_less_divisor) auto
  then show ?thesis using assms
    by (auto simp: circ_put_def Let_def nth_memcpy min_def add.commute)
qed

lemma mod_add_cases:
  assumes "i < (S :: nat)"
  shows "(p + i) mod S = (if p mod S + i < S then p mod S + i else p mod S + i - S)"
proof -
  define m where "m = p mod S"
  have "m < S" using assms by (auto simp: m_def)
  then have "(m + i) mod S = (if m + i < S then m + i else m + i - S)"
    using assms by (simp add: le_mod_geq)
  moreover have "(p + i) mod S = (m + i) mod S" by (simp add: m_def mod_add_left_eq)
  ultimately show ?thesis by (simp add: m_def)
qed

lemma circ_get_put_same:
  assumes "b \<noteq> []" and "length d \<le> length b"
  shows "circ_get (circ_put b p d) p (length d) = d"
proof (rule nth_equalityI)
  fix i assume "i < length (circ_get (circ_put b p d) p (length d))"
  then have i: "i < length d" "i < length b" using assms by auto
  define S m where "S = length b" and "m = p mod S"
  have m: "m < S" "i < S" "length d \<le> S" using assms i by (auto simp: S_def m_def)
  define j where "j = (p + i) mod S"
  have j: "j = (if m + i < S then m + i else m + i - S)"
    using mod_add_cases [OF m(2), of p] by (simp only: j_def m_def)
  have "j < S" using m j by auto
  then have "circ_put b p d ! j = (let k = (if m \<le> j then j - m else j + S - m)
      in if k < length d then d ! k else b ! j)"
    using m(3) by (simp only: S_def m_def nth_circ_put)
  also have "(if m \<le> j then j - m else j + S - m) = i" using j m by (cases "m + i < S") auto
  finally have "circ_put b p d ! ((p + i) mod length b) = d ! i" using i by (simp add: j_def S_def)
  then show "circ_get (circ_put b p d) p (length d) ! i = d ! i" using i assms by simp
qed simp

lemma circ_get_put_other:
  assumes "b \<noteq> []" and "q + n \<le> p" and "p + length d \<le> q + length b"
  shows "circ_get (circ_put b p d) q n = circ_get b q n"
proof (rule nth_equalityI)
  fix i assume "i < length (circ_get (circ_put b p d) q n)"
  then have i: "i < n" by simp
  define S j u where "S = length b" and "j = (q + i) mod S" and "u = p - (q + i)"
  have S: "0 < S" "j < S" using assms(1) by (auto simp: S_def j_def)
  have u: "0 < u" "u + i + length d \<le> S" and p: "p = q + i + u"
    using assms(2,3) i by (auto simp: u_def S_def)
  define m where "m = p mod S"
  have m: "m = (if j + u < S then j + u else j + u - S)"
  proof (cases "u < S")
    case True
    then show ?thesis unfolding m_def p j_def by (rule mod_add_cases)
  next
    case False
    then have "u = S" using u by simp
    then show ?thesis by (simp add: m_def p j_def)
  qed
  have "length d \<le> S" using u by simp
  with S(2) have "circ_put b p d ! j = (let k = (if m \<le> j then j - m else j + S - m)
      in if k < length d then d ! k else b ! j)"
    by (simp only: S_def m_def nth_circ_put)
  also have "(if m \<le> j then j - m else j + S - m) = S - u" using m u S by (cases "j + u < S") auto
  finally have "circ_put b p d ! j = (let k = S - u in if k < length d then d ! k else b ! j)" .
  moreover have "\<not> S - u < length d" using u by linarith
  ultimately have "circ_put b p d ! j = b ! j" by (simp add: Let_def)
  then show "circ_get (circ_put b p d) q n ! i = circ_get b q n ! i"
    using i assms by (simp add: j_def S_def)
qed simp

subsection \<open>Counters and slots\<close>

lemma unat_slot: "unat (w AND (2 ^ k - 1) :: u64) = unat w mod 2 ^ k"
  by (simp add: and_mask_mod unat_mod_pow2)

lemma slot_shift:
  assumes "k < 64"
  shows "unat (w :: u64) mod 2 ^ k = (unat r + unat (w - r)) mod 2 ^ k"
proof -
  have "unat (r + (w - r)) = (unat r + unat (w - r)) mod 2 ^ LENGTH(64)"
    by (simp only: unat_word_ariths)
  then have "unat w = (unat r + unat (w - r)) mod 2 ^ LENGTH(64)" by simp
  moreover have "k \<le> LENGTH(64)" using assms by simp
  ultimately show ?thesis by (simp only: mod_pow2_of_mod_length)
qed

lemma unat_end:
  assumes "k < 64"
  shows "unat (2 ^ k - (w AND (2 ^ k - 1)) :: u64) = 2 ^ k - unat w mod 2 ^ k"
proof -
  have "unat (w AND (2 ^ k - 1)) \<le> unat (2 ^ k :: u64)"
    using assms by (simp add: unat_slot unat_pow2 less_imp_le)
  then show ?thesis using assms by (simp add: unat_sub word_le_nat_alt unat_slot unat_pow2)
qed

lemma unat_sub_add:
  assumes "unat (w - r) + n < 2 ^ 64"
  shows "unat ((w + of_nat n) - r :: u64) = unat (w - r) + n"
proof -
  have "w + of_nat n - r = (w - r) + of_nat n" by simp
  then have "unat (w + of_nat n - r) = (unat (w - r) + unat (of_nat n :: u64)) mod 2 ^ LENGTH(64)"
    by (simp only: unat_word_ariths)
  moreover have "unat (of_nat n :: u64) = n" using assms by (simp add: unat_of_nat)
  ultimately show ?thesis using assms by simp
qed

lemma unat_sub_advance:
  assumes "n \<le> unat (w - r :: u64)"
  shows "unat (w - (r + of_nat n)) = unat (w - r) - n"
proof -
  have n: "n < 2 ^ 64" using assms unat_less_pow2 [of "w - r"] by simp
  then have un: "unat (of_nat n :: u64) = n" by (simp add: unat_of_nat)
  have "unat ((w - r) - of_nat n) = unat (w - r) - unat (of_nat n :: u64)"
    using assms un by (intro unat_sub) (simp add: word_le_nat_alt)
  then show ?thesis using un by (simp add: diff_diff_eq)
qed

subsection \<open>The ring buffer as two lists\<close>

text \<open>
  \<open>rb_content\<close> are the committed bytes, \<open>rb_staged\<close> the bytes written since the last commit or abort.
  The invariant: the size is a power of two, and the staged position is at most a buffer ahead of the
  read counter, with the committed position in between.
\<close>

definition rb_used :: "ofi_ringbuf \<Rightarrow> nat" where
  "rb_used rb = unat (rb_wcnt rb - rb_rcnt rb)"

definition rb_ahead :: "ofi_ringbuf \<Rightarrow> nat" where
  "rb_ahead rb = unat (rb_wpos rb - rb_rcnt rb)"

definition rb_content :: "ofi_ringbuf \<Rightarrow> u8 list" where
  "rb_content rb = circ_get (rb_buf rb) (unat (rb_rcnt rb)) (rb_used rb)"

definition rb_staged :: "ofi_ringbuf \<Rightarrow> u8 list" where
  "rb_staged rb = circ_get (rb_buf rb) (unat (rb_rcnt rb) + rb_used rb) (rb_ahead rb - rb_used rb)"

definition rb_inv :: "ofi_ringbuf \<Rightarrow> bool" where
  "rb_inv rb \<longleftrightarrow> (\<exists>k<64. rb_size rb = 2 ^ k \<and> rb_size_mask rb = 2 ^ k - 1 \<and> length (rb_buf rb) = 2 ^ k) \<and>
     rb_used rb \<le> rb_ahead rb \<and> rb_ahead rb \<le> length (rb_buf rb)"

lemma rb_invE:
  assumes "rb_inv rb"
  obtains k where "k < 64" "rb_size rb = 2 ^ k" "rb_size_mask rb = 2 ^ k - 1"
    "length (rb_buf rb) = 2 ^ k" "rb_used rb \<le> rb_ahead rb" "rb_ahead rb \<le> 2 ^ k"
    "(2 :: nat) ^ k < 2 ^ 64"
  using assms power_strict_increasing [of _ 64 "2 :: nat"] by (auto simp: rb_inv_def)

lemma rb_write_buf:
  assumes "rb_inv rb"
  shows "rb_buf (ofi_rbwrite rb d) = circ_put (rb_buf rb) (unat (rb_rcnt rb) + rb_ahead rb) d"
proof -
  obtain k where k: "k < 64" "rb_size rb = 2 ^ k" "rb_size_mask rb = 2 ^ k - 1"
    "length (rb_buf rb) = 2 ^ k" using rb_invE [OF assms] by metis
  have off: "unat (rb_wpos rb AND rb_size_mask rb) = (unat (rb_rcnt rb) + rb_ahead rb) mod 2 ^ k"
    unfolding k(3) unat_slot rb_ahead_def by (rule slot_shift [OF k(1)])
  have "unat (rb_size rb - (rb_wpos rb AND rb_size_mask rb)) =
      2 ^ k - (unat (rb_rcnt rb) + rb_ahead rb) mod 2 ^ k"
    unfolding k(2,3) unat_end [OF k(1)] using off by (simp only: k(3) unat_slot)
  then show ?thesis by (simp add: ofi_rbwrite_def circ_put_def Let_def off k(4))
qed

lemma rb_write_refines:
  assumes inv: "rb_inv rb" and room: "rb_ahead rb + length d \<le> length (rb_buf rb)"
  shows "rb_inv (ofi_rbwrite rb d) \<and> rb_content (ofi_rbwrite rb d) = rb_content rb \<and>
    rb_staged (ofi_rbwrite rb d) = rb_staged rb @ d"
proof -
  obtain k where k: "k < 64" "rb_size rb = 2 ^ k" "rb_size_mask rb = 2 ^ k - 1"
    "length (rb_buf rb) = 2 ^ k" "rb_used rb \<le> rb_ahead rb" "rb_ahead rb \<le> 2 ^ k"
    "(2 :: nat) ^ k < 2 ^ 64" using rb_invE [OF inv] .
  define r u a where "r = unat (rb_rcnt rb)" and "u = rb_used rb" and "a = rb_ahead rb"
  define rb' where "rb' = ofi_rbwrite rb d"
  have ne: "rb_buf rb \<noteq> []" using k(4) by (metis length_0_conv power_not_zero zero_neq_numeral)
  have ahead: "rb_ahead rb' = a + length d"
    using room k(4,7) unfolding rb_ahead_def a_def
    by (simp add: rb'_def ofi_rbwrite_def Let_def unat_sub_add)
  have same: "rb_used rb' = u" "rb_rcnt rb' = rb_rcnt rb"
    by (simp_all add: rb'_def u_def rb_used_def ofi_rbwrite_def Let_def)
  have buf: "rb_buf rb' = circ_put (rb_buf rb) (r + a) d"
    using rb_write_buf [OF inv] by (simp add: rb'_def r_def a_def)
  have le: "u \<le> a" "a + length d \<le> length (rb_buf rb)" using k room by (simp_all add: u_def a_def)
  have old: "circ_get (rb_buf rb') (r + t) n = circ_get (rb_buf rb) (r + t) n" if "t + n \<le> a" for t n
    unfolding buf using ne that le by (intro circ_get_put_other) auto
  have "rb_content rb' = rb_content rb"
    using old [of 0 u] le by (simp add: rb_content_def same r_def u_def)
  moreover have "rb_staged rb' = rb_staged rb @ d"
  proof -
    have "rb_staged rb' = circ_get (rb_buf rb') (r + u) ((a - u) + length d)"
      using le by (simp add: rb_staged_def same ahead r_def)
    also have "\<dots> = circ_get (rb_buf rb') (r + u) (a - u) @ circ_get (rb_buf rb') (r + u + (a - u)) (length d)"
      by (rule circ_get_append)
    also have "circ_get (rb_buf rb') (r + u) (a - u) = rb_staged rb"
      using old [of u "a - u"] le by (simp add: rb_staged_def r_def u_def a_def)
    also have "circ_get (rb_buf rb') (r + u + (a - u)) (length d) = d"
      using le ne by (simp add: buf circ_get_put_same)
    finally show ?thesis .
  qed
  moreover have "rb_inv rb'"
    using k le ne ahead same by (auto simp: rb_inv_def buf) (auto simp: rb'_def ofi_rbwrite_def Let_def)
  ultimately show ?thesis by (simp add: rb'_def)
qed

lemma rb_commit_refines:
  assumes "rb_inv rb"
  shows "rb_inv (ofi_rbcommit rb) \<and> rb_content (ofi_rbcommit rb) = rb_content rb @ rb_staged rb \<and>
    rb_staged (ofi_rbcommit rb) = []"
proof -
  have le: "rb_used rb \<le> rb_ahead rb" using assms by (simp add: rb_inv_def)
  have "rb_used (ofi_rbcommit rb) = rb_ahead rb" "rb_ahead (ofi_rbcommit rb) = rb_ahead rb"
    by (simp_all add: ofi_rbcommit_def rb_used_def rb_ahead_def)
  then show ?thesis using assms le circ_get_append [of "rb_buf rb" _ "rb_used rb" "rb_ahead rb - rb_used rb"]
    by (simp add: rb_inv_def rb_content_def rb_staged_def ofi_rbcommit_def circ_get_def)
qed

lemma rb_abort_refines:
  assumes "rb_inv rb"
  shows "rb_inv (ofi_rbabort rb) \<and> rb_content (ofi_rbabort rb) = rb_content rb \<and>
    rb_staged (ofi_rbabort rb) = []"
proof -
  have "rb_used (ofi_rbabort rb) = rb_used rb" "rb_ahead (ofi_rbabort rb) = rb_used rb"
    by (simp_all add: ofi_rbabort_def rb_used_def rb_ahead_def)
  then show ?thesis using assms
    by (auto simp: rb_inv_def rb_content_def rb_staged_def ofi_rbabort_def circ_get_def)
qed

lemma circ_get_slices:
  assumes "b \<noteq> []" and "n \<le> length b"
  shows "circ_get b p n = (let off = p mod length b; e = length b - off
    in if n \<le> e then take n (drop off b) else take e (drop off b) @ take (n - e) b)"
proof (rule nth_equalityI)
  define S m where "S = length b" and "m = p mod S"
  have m: "m < S" using assms(1) by (simp add: S_def m_def)
  show "length (circ_get b p n) = length (let off = p mod length b; e = length b - off
    in if n \<le> e then take n (drop off b) else take e (drop off b) @ take (n - e) b)"
    using assms(2) m unfolding S_def [symmetric] m_def [symmetric]
    by (auto simp: Let_def min_def S_def [symmetric])
  fix i assume "i < length (circ_get b p n)"
  then have i: "i < n" "i < S" using assms by (auto simp: S_def)
  have j: "(p + i) mod S = (if m + i < S then m + i else m + i - S)"
    using mod_add_cases [OF i(2), of p] by (simp only: m_def)
  have "(let off = m; e = S - off
    in if n \<le> e then take n (drop off b) else take e (drop off b) @ take (n - e) b) ! i = b ! ((p + i) mod S)"
    using i m assms(2) unfolding j S_def [symmetric] by (auto simp: Let_def nth_append add.commute S_def [symmetric])
  then show "circ_get b p n ! i = (let off = p mod length b; e = length b - off
    in if n \<le> e then take n (drop off b) else take e (drop off b) @ take (n - e) b) ! i"
    using i by (simp add: S_def m_def)
qed

lemma rb_peek_circ:
  assumes "rb_inv rb" and "n \<le> length (rb_buf rb)"
  shows "ofi_rbpeek rb n = circ_get (rb_buf rb) (unat (rb_rcnt rb)) n"
proof -
  obtain k where k: "k < 64" "rb_size rb = 2 ^ k" "rb_size_mask rb = 2 ^ k - 1"
    "length (rb_buf rb) = 2 ^ k" using rb_invE [OF assms(1)] by metis
  have "rb_buf rb \<noteq> []" using k(4) by (metis length_0_conv power_not_zero zero_neq_numeral)
  then show ?thesis using assms(2) k(1)
    by (simp add: circ_get_slices ofi_rbpeek_def Let_def k unat_slot unat_end)
qed

lemma rb_advance_refines:
  assumes inv: "rb_inv rb" and n: "n \<le> rb_used rb"
  shows "rb_inv (rb\<lparr>rb_rcnt := rb_rcnt rb + of_nat n\<rparr>) \<and>
    rb_content (rb\<lparr>rb_rcnt := rb_rcnt rb + of_nat n\<rparr>) = drop n (rb_content rb) \<and>
    rb_staged (rb\<lparr>rb_rcnt := rb_rcnt rb + of_nat n\<rparr>) = rb_staged rb"
proof -
  define rb' where "rb' = rb\<lparr>rb_rcnt := rb_rcnt rb + of_nat n\<rparr>"
  obtain k where k: "k < 64" "length (rb_buf rb) = 2 ^ k" "rb_used rb \<le> rb_ahead rb"
    "rb_ahead rb \<le> 2 ^ k" using rb_invE [OF inv] by metis
  have used: "rb_used rb' = rb_used rb - n" and ahead: "rb_ahead rb' = rb_ahead rb - n"
    using n k(3) by (simp_all add: rb'_def rb_used_def rb_ahead_def unat_sub_advance)
  have n64: "n < 2 ^ 64" using n unat_less_pow2 [of "rb_wcnt rb - rb_rcnt rb"] by (simp add: rb_used_def)
  have "unat (rb_rcnt rb') = (unat (rb_rcnt rb) + n) mod 2 ^ LENGTH(64)"
    using n64 by (simp add: rb'_def unat_word_ariths unat_of_nat mod_add_right_eq)
  moreover have "k \<le> LENGTH(64)" using k(1) by simp
  ultimately have pos: "unat (rb_rcnt rb') mod 2 ^ k = (unat (rb_rcnt rb) + n) mod 2 ^ k"
    by (simp only: mod_pow2_of_mod_length)
  have shift: "circ_get (rb_buf rb) (unat (rb_rcnt rb') + t) l = circ_get (rb_buf rb) (unat (rb_rcnt rb) + n + t) l"
    for t l by (subst circ_get_mod, subst (2) circ_get_mod)
      (simp add: k(2) mod_add_left_eq [of "unat (rb_rcnt rb')", symmetric] pos mod_add_left_eq)
  have buf: "rb_buf rb' = rb_buf rb" by (simp add: rb'_def)
  have "rb_content rb' = drop n (rb_content rb)"
    using shift [of 0] n by (simp add: rb_content_def buf used drop_circ_get)
  moreover have "rb_staged rb' = rb_staged rb"
    using shift [of "rb_used rb - n"] n k(3) by (simp add: rb_staged_def buf used ahead)
  moreover have "rb_inv rb'" using inv k(3) used ahead by (auto simp: rb_inv_def rb'_def)
  ultimately show ?thesis by (simp add: rb'_def)
qed

lemma rb_read_refines:
  assumes inv: "rb_inv rb" and n: "n \<le> rb_used rb" and rd: "ofi_rbread rb n = (rb', d)"
  shows "rb_inv rb' \<and> d = take n (rb_content rb) \<and> rb_content rb' = drop n (rb_content rb) \<and>
    rb_staged rb' = rb_staged rb"
proof -
  have "n \<le> length (rb_buf rb)" using inv n by (simp add: rb_inv_def)
  then have "d = take n (rb_content rb)"
    using rd n rb_peek_circ [OF inv] by (simp add: ofi_rbread_def rb_content_def take_circ_get)
  then show ?thesis using rd rb_advance_refines [OF inv n] by (auto simp: ofi_rbread_def)
qed

lemma length_rb_content: "length (rb_content rb) = rb_used rb"
  by (simp add: rb_content_def)

lemma rb_init_inv:
  assumes "sz \<noteq> 0" and "unat sz \<le> 2 ^ 63" and "ofi_rbinit True sz = Inr rb"
  shows "rb_inv rb \<and> rb_content rb = [] \<and> rb_staged rb = [] \<and> unat sz \<le> length (rb_buf rb)"
proof -
  obtain m where m: "m < 64" "unat (roundup_power_of_two sz) = 2 ^ m" "unat sz \<le> 2 ^ m"
    using roundup_pow2_cases [OF assms(1,2)] by metis
  then have "roundup_power_of_two sz = 2 ^ m" by (simp add: word_unat_eq_iff unat_pow2)
  then show ?thesis using assms(3) m
    by (auto simp: ofi_rbinit_def Let_def rb_inv_def rb_used_def rb_ahead_def rb_content_def
        rb_staged_def circ_get_def unat_pow2)
qed

subsection \<open>Bounded queues\<close>

text \<open>
  The interface of a bounded queue, and what a client gets from it: any run of guarded puts and gets
  on the implementation returns what the same run returns on a list of bounded length.
\<close>

datatype 'a queue_op = Put 'a | Get

fun queue_spec :: "nat \<Rightarrow> 'a list \<Rightarrow> 'a queue_op list \<Rightarrow> 'a option list \<times> 'a list" where
  "queue_spec cap xs [] = ([], xs)"
| "queue_spec cap xs (Put x # ops) =
     (if length xs < cap then queue_spec cap (xs @ [x]) ops else queue_spec cap xs ops)"
| "queue_spec cap [] (Get # ops) = (let (r, ys) = queue_spec cap [] ops in (None # r, ys))"
| "queue_spec cap (x # xs) (Get # ops) = (let (r, ys) = queue_spec cap xs ops in (Some x # r, ys))"

locale bounded_queue =
  fixes inv :: "'s \<Rightarrow> bool" and content :: "'s \<Rightarrow> 'a list" and cap :: "'s \<Rightarrow> nat"
    and full :: "'s \<Rightarrow> bool" and empty :: "'s \<Rightarrow> bool" and put :: "'s \<Rightarrow> 'a \<Rightarrow> 's" and get :: "'s \<Rightarrow> 's \<times> 'a"
  assumes full_iff: "inv s \<Longrightarrow> full s \<longleftrightarrow> length (content s) = cap s"
    and empty_iff: "inv s \<Longrightarrow> empty s \<longleftrightarrow> content s = []"
    and content_le: "inv s \<Longrightarrow> length (content s) \<le> cap s"
    and put_law: "inv s \<Longrightarrow> \<not> full s \<Longrightarrow> inv (put s x) \<and> content (put s x) = content s @ [x] \<and> cap (put s x) = cap s"
    and get_law: "inv s \<Longrightarrow> content s = y # ys \<Longrightarrow> \<exists>s'. get s = (s', y) \<and> inv s' \<and> content s' = ys \<and> cap s' = cap s"
begin

fun run :: "'s \<Rightarrow> 'a queue_op list \<Rightarrow> 'a option list \<times> 's" where
  "run s [] = ([], s)"
| "run s (Put x # ops) = (if full s then run s ops else run (put s x) ops)"
| "run s (Get # ops) =
    (if empty s then (let (r, s') = run s ops in (None # r, s'))
     else let (s', y) = get s; (r, s'') = run s' ops in (Some y # r, s''))"

lemma run_refines:
  assumes "inv s"
  shows "inv (snd (run s ops)) \<and> cap (snd (run s ops)) = cap s \<and>
    queue_spec (cap s) (content s) ops = (fst (run s ops), content (snd (run s ops)))"
  using assms
proof (induction s ops rule: run.induct)
  case (1 s)
  then show ?case by simp
next
  case (2 s x ops)
  show ?case
  proof (cases "full s")
    case True
    then show ?thesis using 2 full_iff [OF 2(3)] by simp
  next
    case False
    then have "length (content s) < cap s" using full_iff [OF 2(3)] content_le [OF 2(3)] by simp
    then show ?thesis using 2(2) [OF False] put_law [OF 2(3) False, of x] False by simp
  qed
next
  case (3 s ops)
  show ?case
  proof (cases "content s")
    case Nil
    then have "empty s" using 3(3) by (simp add: empty_iff)
    then show ?thesis using 3(1) 3(3) Nil by (simp add: split_beta Let_def)
  next
    case (Cons y ys)
    then obtain s' where s': "get s = (s', y)" "inv s'" "content s' = ys" "cap s' = cap s"
      using get_law [OF 3(3)] by blast
    moreover have ne: "\<not> empty s" using 3(3) Cons by (simp add: empty_iff)
    ultimately show ?thesis using 3(2) [OF ne s'(1) [symmetric] refl] Cons
      by (simp add: split_beta Let_def)
  qed
qed

end

definition cq_inv :: "'a cirque \<Rightarrow> bool" where
  "cq_inv cq \<longleftrightarrow> (\<exists>k<64. cq_size cq = 2 ^ k \<and> cq_size_mask cq = 2 ^ k - 1 \<and> length (cq_buf cq) = 2 ^ k) \<and>
     unat (ofi_cirque_usedcnt cq) \<le> length (cq_buf cq)"

definition cq_list :: "'a cirque \<Rightarrow> 'a list" where
  "cq_list cq = circ_get (cq_buf cq) (unat (cq_rcnt cq)) (unat (ofi_cirque_usedcnt cq))"

lemma cq_invE:
  assumes "cq_inv cq"
  obtains k where "k < 64" "cq_size cq = 2 ^ k" "cq_size_mask cq = 2 ^ k - 1"
    "length (cq_buf cq) = 2 ^ k" "unat (ofi_cirque_usedcnt cq) \<le> 2 ^ k" "(2 :: nat) ^ k < 2 ^ 64"
  using assms power_strict_increasing [of _ 64 "2 :: nat"] by (auto simp: cq_inv_def)

lemma list_update_circ_put: "b \<noteq> [] \<Longrightarrow> b[p mod length b := x] = circ_put b p [x]"
  by (simp add: circ_put_def Let_def memcpy_def upd_conv_take_nth_drop Suc_le_eq)

lemma cq_insert_refines:
  assumes inv: "cq_inv cq" and nf: "\<not> ofi_cirque_isfull cq"
  shows "cq_inv (ofi_cirque_insert cq x) \<and> cq_list (ofi_cirque_insert cq x) = cq_list cq @ [x]"
proof -
  obtain k where k: "k < 64" "cq_size cq = 2 ^ k" "cq_size_mask cq = 2 ^ k - 1"
    "length (cq_buf cq) = 2 ^ k" "unat (ofi_cirque_usedcnt cq) \<le> 2 ^ k" "(2 :: nat) ^ k < 2 ^ 64"
    using cq_invE [OF inv] .
  define r u where "r = unat (cq_rcnt cq)" and "u = unat (ofi_cirque_usedcnt cq)"
  have "ofi_cirque_freecnt cq \<noteq> 0" using nf by (simp add: ofi_cirque_isfull_def)
  then have "cq_size cq \<noteq> ofi_cirque_usedcnt cq" by (simp add: ofi_cirque_freecnt_def)
  then have lt: "u < 2 ^ k" using k(1,2,5) by (simp add: u_def word_unat_eq_iff unat_pow2)
  define cq' where "cq' = ofi_cirque_insert cq x"
  have ne: "cq_buf cq \<noteq> []" using k(4) by (metis length_0_conv power_not_zero zero_neq_numeral)
  have "unat (cq_wcnt cq AND cq_size_mask cq) = (r + u) mod length (cq_buf cq)"
    unfolding k(3,4) unat_slot r_def u_def ofi_cirque_usedcnt_def by (rule slot_shift [OF k(1)])
  then have buf: "cq_buf cq' = circ_put (cq_buf cq) (r + u) [x]"
    using ne by (simp add: cq'_def ofi_cirque_insert_def list_update_circ_put)
  have used: "unat (ofi_cirque_usedcnt cq') = u + 1"
    using unat_sub_add [of "cq_wcnt cq" "cq_rcnt cq" 1] lt k(6)
    by (simp add: cq'_def u_def ofi_cirque_usedcnt_def ofi_cirque_insert_def)
  have r: "cq_rcnt cq' = cq_rcnt cq" by (simp add: cq'_def ofi_cirque_insert_def)
  have "cq_list cq' = circ_get (cq_buf cq') r u @ circ_get (cq_buf cq') (r + u) 1"
    by (simp only: cq_list_def used r r_def [symmetric] circ_get_append)
  moreover have "circ_get (cq_buf cq') r u = cq_list cq"
    unfolding buf using ne lt k(4) by (subst circ_get_put_other) (auto simp: cq_list_def r_def u_def)
  moreover have "circ_get (cq_buf cq') (r + u) 1 = [x]"
    unfolding buf using ne lt k(4) circ_get_put_same [of "cq_buf cq" "[x]" "r + u"] by simp
  moreover have "cq_inv cq'"
    using k(1-4) used lt ne by (auto simp: cq_inv_def cq'_def ofi_cirque_insert_def)
  ultimately show ?thesis by (simp add: cq'_def)
qed

lemma cq_advance:
  assumes inv: "cq_inv cq" and "cq_list cq = y # ys"
  shows "cq_inv (ofi_cirque_discard cq) \<and> cq_list (ofi_cirque_discard cq) = ys \<and>
    cq_buf cq ! unat (cq_rcnt cq AND cq_size_mask cq) = y"
proof -
  obtain k where k: "k < 64" "cq_size cq = 2 ^ k" "cq_size_mask cq = 2 ^ k - 1"
    "length (cq_buf cq) = 2 ^ k" "unat (ofi_cirque_usedcnt cq) \<le> 2 ^ k" "(2 :: nat) ^ k < 2 ^ 64"
    using cq_invE [OF inv] .
  define u where "u = unat (ofi_cirque_usedcnt cq)"
  have "length (cq_list cq) = Suc (length ys)" using assms(2) by simp
  then have u: "0 < u" by (simp add: cq_list_def u_def)
  define cq' where "cq' = ofi_cirque_discard cq"
  have used: "unat (ofi_cirque_usedcnt cq') = u - 1"
    using unat_sub_advance [of 1 "cq_wcnt cq" "cq_rcnt cq"] u
    by (simp add: cq'_def u_def ofi_cirque_usedcnt_def ofi_cirque_discard_def)
  have "unat (cq_rcnt cq') = (unat (cq_rcnt cq) + 1) mod 2 ^ LENGTH(64)"
    by (simp add: cq'_def ofi_cirque_discard_def unat_word_ariths)
  moreover have "k \<le> LENGTH(64)" using k(1) by simp
  ultimately have pos: "unat (cq_rcnt cq') mod 2 ^ k = (unat (cq_rcnt cq) + 1) mod 2 ^ k"
    by (simp only: mod_pow2_of_mod_length)
  have buf: "cq_buf cq' = cq_buf cq" by (simp add: cq'_def ofi_cirque_discard_def)
  have "cq_list cq' = circ_get (cq_buf cq) ((unat (cq_rcnt cq) + 1) mod 2 ^ k) (u - 1)"
    unfolding cq_list_def buf used by (subst circ_get_mod) (simp add: k(4) pos)
  also have "\<dots> = drop 1 (cq_list cq)"
    using u by (subst k(4) [symmetric], subst circ_get_mod [symmetric])
      (simp add: cq_list_def drop_circ_get u_def)
  finally have "cq_list cq' = ys" using assms(2) by simp
  moreover have "cq_list cq ! 0 = cq_buf cq ! (unat (cq_rcnt cq) mod 2 ^ k)"
    using u by (simp add: cq_list_def u_def k(4))
  moreover have "cq_inv cq'" using inv used u by (auto simp: cq_inv_def cq'_def ofi_cirque_discard_def u_def)
  ultimately show ?thesis using assms(2) by (simp add: cq'_def k(3) unat_slot)
qed

lemma cq_full_iff: "cq_inv cq \<Longrightarrow> ofi_cirque_isfull cq \<longleftrightarrow> length (cq_list cq) = unat (cq_size cq)"
  by (auto simp: ofi_cirque_isfull_def ofi_cirque_freecnt_def cq_list_def simp flip: word_unat_eq_iff)

lemma cq_empty_iff: "ofi_cirque_isempty cq \<longleftrightarrow> cq_list cq = []"
  by (auto simp: ofi_cirque_isempty_def cq_list_def circ_get_def ofi_cirque_usedcnt_def unat_eq_0)

lemma cq_length_le: "cq_inv cq \<Longrightarrow> length (cq_list cq) \<le> unat (cq_size cq)"
  by (elim cq_invE) (simp add: cq_list_def unat_pow2)

lemma cirque_remove_discard:
  "ofi_cirque_remove cq = (ofi_cirque_discard cq, cq_buf cq ! unat (cq_rcnt cq AND cq_size_mask cq))"
  by (simp add: ofi_cirque_remove_def ofi_cirque_discard_def)

interpretation cq: bounded_queue cq_inv cq_list "\<lambda>cq. unat (cq_size cq)" ofi_cirque_isfull
  ofi_cirque_isempty ofi_cirque_insert ofi_cirque_remove
proof unfold_locales
  fix s :: "'a cirque" and x
  assume "cq_inv s" "\<not> ofi_cirque_isfull s"
  then show "cq_inv (ofi_cirque_insert s x) \<and> cq_list (ofi_cirque_insert s x) = cq_list s @ [x] \<and>
    unat (cq_size (ofi_cirque_insert s x)) = unat (cq_size s)"
    using cq_insert_refines [of s x] by (simp add: ofi_cirque_insert_def)
next
  fix s :: "'a cirque" and y ys
  assume "cq_inv s" "cq_list s = y # ys"
  then show "\<exists>s'. ofi_cirque_remove s = (s', y) \<and> cq_inv s' \<and> cq_list s' = ys \<and>
      unat (cq_size s') = unat (cq_size s)"
    using cq_advance [of s y ys] by (simp add: cirque_remove_discard) (simp add: ofi_cirque_discard_def)
qed (simp_all add: cq_full_iff cq_empty_iff cq_length_le)

lemma cq_create_inv:
  assumes "sz \<noteq> 0" and "unat sz \<le> 2 ^ 63" and "cirque_create True z sz = Some cq"
  shows "cq_inv cq \<and> cq_list cq = [] \<and> sz \<le> cq_size cq"
proof -
  obtain m where m: "m < 64" "unat (roundup_power_of_two sz) = 2 ^ m" "unat sz \<le> 2 ^ m"
    using roundup_pow2_cases [OF assms(1,2)] by metis
  then have "roundup_power_of_two sz = 2 ^ m" by (simp add: word_unat_eq_iff unat_pow2)
  then show ?thesis using assms(3) m
    by (auto simp: cirque_create_def cirque_init_def Let_def cq_inv_def cq_list_def circ_get_def
        ofi_cirque_usedcnt_def unat_pow2 word_le_nat_alt)
qed

text \<open>The byte ring used one byte at a time, each byte committed at once, is a bounded queue too.\<close>

definition rb_put1 :: "ofi_ringbuf \<Rightarrow> u8 \<Rightarrow> ofi_ringbuf" where
  "rb_put1 rb x = ofi_rbcommit (ofi_rbwrite rb [x])"

definition rb_get1 :: "ofi_ringbuf \<Rightarrow> ofi_ringbuf \<times> u8" where
  "rb_get1 rb = (let (rb', d) = ofi_rbread rb 1 in (rb', hd d))"

definition rb_settled :: "ofi_ringbuf \<Rightarrow> bool" where
  "rb_settled rb \<longleftrightarrow> rb_inv rb \<and> rb_staged rb = []"

lemma rb_settled_ahead: "rb_settled rb \<Longrightarrow> rb_ahead rb = rb_used rb"
  by (auto simp: rb_settled_def rb_staged_def rb_inv_def circ_get_def)

lemma rb_full_iff:
  assumes "rb_inv rb"
  shows "ofi_rbfull rb \<longleftrightarrow> rb_used rb = length (rb_buf rb)"
proof -
  obtain k where "k < 64" "rb_size rb = 2 ^ k" "length (rb_buf rb) = 2 ^ k" "rb_used rb \<le> rb_ahead rb"
    "rb_ahead rb \<le> 2 ^ k" using rb_invE [OF assms] by metis
  then show ?thesis by (auto simp: ofi_rbfull_def word_le_nat_alt unat_pow2 rb_used_def [symmetric])
qed

lemma rb_empty_iff: "ofi_rbempty rb \<longleftrightarrow> rb_content rb = []"
  by (auto simp: ofi_rbempty_def rb_content_def rb_used_def circ_get_def unat_eq_0)

interpretation rb: bounded_queue rb_settled rb_content "\<lambda>rb. length (rb_buf rb)" ofi_rbfull
  ofi_rbempty rb_put1 rb_get1
proof unfold_locales
  fix s and x :: u8
  assume s: "rb_settled s" and nf: "\<not> ofi_rbfull s"
  then have inv: "rb_inv s" and st: "rb_staged s = []" by (simp_all add: rb_settled_def)
  have "rb_used s \<le> length (rb_buf s)" using inv by (auto simp: rb_inv_def)
  then have room: "rb_ahead s + length [x] \<le> length (rb_buf s)"
    using nf rb_full_iff [OF inv] rb_settled_ahead [OF s] by simp
  have "length (rb_buf (ofi_rbwrite s [x])) = length (rb_buf s)"
    using room unfolding rb_write_buf [OF inv] by (intro length_circ_put) auto
  then show "rb_settled (rb_put1 s x) \<and> rb_content (rb_put1 s x) = rb_content s @ [x] \<and>
      length (rb_buf (rb_put1 s x)) = length (rb_buf s)"
    using rb_write_refines [OF inv room] rb_commit_refines [of "ofi_rbwrite s [x]"] st
    by (simp add: rb_put1_def rb_settled_def) (simp add: ofi_rbcommit_def)
next
  fix s y ys
  assume s: "rb_settled s" and c: "rb_content s = y # ys"
  have "1 \<le> rb_used s" using c length_rb_content [of s] by simp
  moreover obtain s' d where rd: "ofi_rbread s 1 = (s', d)" by (cases "ofi_rbread s 1")
  ultimately show "\<exists>s'. rb_get1 s = (s', y) \<and> rb_settled s' \<and> rb_content s' = ys \<and>
      length (rb_buf s') = length (rb_buf s)"
    using rb_read_refines [of s 1 s' d] s c
    by (auto simp: rb_get1_def rb_settled_def) (auto simp: ofi_rbread_def)
next
  fix s assume s: "rb_settled s"
  then have inv: "rb_inv s" by (simp add: rb_settled_def)
  show "ofi_rbfull s = (length (rb_content s) = length (rb_buf s))"
    using rb_full_iff [OF inv] by (simp add: length_rb_content)
  show "length (rb_content s) \<le> length (rb_buf s)" using inv by (auto simp: length_rb_content rb_inv_def)
qed (simp add: rb_empty_iff)

subsection \<open>Signalling\<close>

text \<open>
  The steps of a ring buffer with a signalling socket: writes that fit, commits, aborts and reads of
  committed bytes.  Beside the buffer, a state has the number of bytes in the socket and whether the
  last write to the socket failed.  A commit finds the counters equal and writes to the socket, with
  success or not; a read that empties the buffer reads a byte from the socket, or fails to, and cannot
  read one that is not there.
\<close>

type_synonym rbfd_state = "ofi_ringbuffd \<times> nat \<times> bool"

inductive rbfd_step :: "rbfd_state \<Rightarrow> rbfd_state \<Rightarrow> bool" where
  fd_write: "rb_ahead (rbfd_rb s) + length d \<le> length (rb_buf (rbfd_rb s)) \<Longrightarrow>
    rbfd_step (s, bytes, failed) (ofi_rbfdwrite s d, bytes, failed)"
| fd_commit: "ofi_rbfdcommit write_ok s = Some t \<Longrightarrow>
    rbfd_step (s, bytes, failed)
      (t, if fdwcnt s = fdrcnt s \<and> write_ok then Suc bytes else bytes,
       if fdwcnt s = fdrcnt s then \<not> write_ok else failed)"
| fd_abort: "rbfd_step (s, bytes, failed) (ofi_rbfdabort s, bytes, failed)"
| fd_read: "n \<le> unat (ofi_rbfdused s) \<Longrightarrow> (read_ok \<Longrightarrow> bytes \<noteq> 0) \<Longrightarrow> ofi_rbfdread read_ok s n = Some (t, d) \<Longrightarrow>
    rbfd_step (s, bytes, failed)
      (t, if ofi_rbfdempty t \<and> fdrcnt s \<noteq> fdwcnt s \<and> read_ok then bytes - 1 else bytes, failed)"

inductive rbfd_reachable :: "rbfd_state \<Rightarrow> bool" where
  fd_init: "sz \<noteq> 0 \<Longrightarrow> unat sz \<le> 2 ^ 63 \<Longrightarrow> ofi_rbfdinit True (Inr ()) (Inr ()) sz = Inr s \<Longrightarrow>
    rbfd_reachable (s, 0, False)"
| fd_step: "rbfd_reachable s \<Longrightarrow> rbfd_step s t \<Longrightarrow> rbfd_reachable t"

text \<open>The bytes in the socket are what the counters say; at most one; and one if there is something to
  read, unless the last write to the socket failed.\<close>

definition rbfd_inv :: "rbfd_state \<Rightarrow> bool" where
  "rbfd_inv = (\<lambda>(s, bytes, failed). rb_inv (rbfd_rb s) \<and> sint (fdwcnt s) = sint (fdrcnt s) + int bytes \<and> bytes \<le> 1 \<and>
     (\<not> ofi_rbfdempty s \<and> \<not> failed \<longrightarrow> bytes = 1))"

lemmas rbfd_defs = ofi_rbfdwrite_def ofi_rbfdcommit_def ofi_rbfdabort_def ofi_rbfdread_def
  ofi_rbfdsignal_def ofi_rbfdreset_def ofi_rbfdempty_def

lemma rbfd_counters: "rbfd_inv (s, bytes, failed) \<Longrightarrow> fdwcnt s = fdrcnt s \<longleftrightarrow> bytes = 0"
  by (auto simp: rbfd_inv_def intro: signed_word_eqI)

lemma rbfd_signal_effect:
  "ofi_rbfdsignal write_ok s = Some t \<Longrightarrow> rbfd_rb t = rbfd_rb s \<and> fdrcnt t = fdrcnt s \<and>
    sint (fdwcnt t) = sint (fdwcnt s) + (if fdwcnt s = fdrcnt s \<and> write_ok then 1 else 0)"
  by (auto simp: ofi_rbfdsignal_def dest: int_incr_sint split: if_splits)

lemma rbfd_reset_effect:
  "ofi_rbfdreset read_ok s = Some t \<Longrightarrow> rbfd_rb t = rbfd_rb s \<and> fdwcnt t = fdwcnt s \<and>
    sint (fdrcnt t) = sint (fdrcnt s) + (if ofi_rbfdempty s \<and> fdrcnt s \<noteq> fdwcnt s \<and> read_ok then 1 else 0)"
  by (auto simp: ofi_rbfdreset_def dest: int_incr_sint split: if_splits)

lemma rbfd_inv_write:
  "rbfd_inv (s, bytes, failed) \<Longrightarrow> rb_ahead (rbfd_rb s) + length d \<le> length (rb_buf (rbfd_rb s)) \<Longrightarrow>
    rbfd_inv (ofi_rbfdwrite s d, bytes, failed)"
  using rb_write_refines [of "rbfd_rb s" d] by (auto simp: rbfd_inv_def rbfd_defs rb_empty_iff)

lemma rbfd_inv_commit:
  assumes "rbfd_inv (s, bytes, failed)" and "ofi_rbfdcommit write_ok s = Some t"
  shows "rbfd_inv (t, if fdwcnt s = fdrcnt s \<and> write_ok then Suc bytes else bytes,
    if fdwcnt s = fdrcnt s then \<not> write_ok else failed)"
  using assms rb_commit_refines [of "rbfd_rb s"] rbfd_counters [OF assms(1)]
    rbfd_signal_effect [OF assms(2) [unfolded ofi_rbfdcommit_def]]
  by (auto simp: rbfd_inv_def ofi_rbfdempty_def rb_empty_iff)

lemma rbfd_inv_abort: "rbfd_inv (s, bytes, failed) \<Longrightarrow> rbfd_inv (ofi_rbfdabort s, bytes, failed)"
  using rb_abort_refines [of "rbfd_rb s"] by (auto simp: rbfd_inv_def rbfd_defs rb_empty_iff)

lemma rbfd_inv_read:
  assumes inv: "rbfd_inv (s, bytes, failed)" and n: "n \<le> unat (ofi_rbfdused s)"
    and t: "ofi_rbfdread read_ok s n = Some (t, d)"
  shows "rbfd_inv (t, if ofi_rbfdempty t \<and> fdrcnt s \<noteq> fdwcnt s \<and> read_ok then bytes - 1 else bytes, failed)"
proof -
  obtain rb' d' where rd: "ofi_rbread (rbfd_rb s) n = (rb', d')" by (cases "ofi_rbread (rbfd_rb s) n")
  have "rb_inv rb'" "rb_content rb' = drop n (rb_content (rbfd_rb s))"
    using rb_read_refines [OF _ _ rd] inv n
    by (auto simp: rbfd_inv_def ofi_rbfdused_def ofi_rbused_def rb_used_def)
  moreover have "ofi_rbfdreset read_ok (s\<lparr>rbfd_rb := rb'\<rparr>) = Some t" using t by (auto simp: ofi_rbfdread_def rd)
  note rbfd_reset_effect [OF this]
  ultimately show ?thesis using inv rbfd_counters [OF inv]
    by (cases "rb_content rb' = []"; cases bytes) (auto simp: rbfd_inv_def ofi_rbfdempty_def rb_empty_iff)
qed

lemma rbfd_reachable_inv: "rbfd_reachable s \<Longrightarrow> rbfd_inv s"
proof (induction rule: rbfd_reachable.induct)
  case (fd_init sz s)
  then show ?case using rb_init_inv [of sz "rbfd_rb s"]
    by (auto simp: ofi_rbfdinit_def rbfd_inv_def ofi_rbfdempty_def rb_empty_iff split: sum.splits)
next
  case (fd_step s t)
  from fd_step.hyps(2) fd_step.IH show ?case
    by cases (metis rbfd_inv_write, metis rbfd_inv_commit, metis rbfd_inv_abort, metis rbfd_inv_read)
qed

text \<open>A read does not overflow its counter, which stays below the other one.\<close>

lemma rbfd_read_defined:
  assumes "rbfd_inv (s, bytes, failed)"
  shows "ofi_rbfdread read_ok s n \<noteq> None"
proof -
  have "fdrcnt s \<noteq> INT_MAX" if "fdrcnt s \<noteq> fdwcnt s"
    using assms that rbfd_counters [OF assms] sint_less [of "fdwcnt s"]
    by (auto simp: rbfd_inv_def sint_INT_MAX)
  then show ?thesis by (auto simp: rbfd_defs int_incr_def split: prod.split)
qed

lemma rbfd_commit_undefined:
  "ofi_rbfdcommit write_ok s = None \<longleftrightarrow> write_ok \<and> fdwcnt s = fdrcnt s \<and> fdwcnt s = INT_MAX"
  by (auto simp: rbfd_defs int_incr_def)

subsection \<open>The receive window delivers in order\<close>

definition rw_inv :: "'a recvwin \<Rightarrow> bool" where
  "rw_inv rq \<longleftrightarrow> (\<exists>k<63. win_size rq = 2 ^ k \<and> cq_size_mask (pending rq) = 2 ^ k - 1 \<and>
     length (cq_buf (pending rq)) = 2 ^ k)"

definition rw_dist :: "'a recvwin \<Rightarrow> u64 \<Rightarrow> nat" where
  "rw_dist rq mid = unat (mid - exp_msg_id rq)"

text \<open>The message in the slot \<open>d\<close> places after the expected one.\<close>

definition rw_at :: "'a recvwin \<Rightarrow> nat \<Rightarrow> 'a" where
  "rw_at rq d = cq_buf (pending rq) ! ((unat (cq_rcnt (pending rq)) + d) mod length (cq_buf (pending rq)))"

primrec queue_all :: "'a recvwin \<Rightarrow> (u64 \<times> 'a) list \<Rightarrow> 'a recvwin option" where
  "queue_all rq [] = Some rq"
| "queue_all rq (x # xs) = Option.bind (ofi_recvwin_queue_msg rq (snd x) (fst x)) (\<lambda>rq'. queue_all rq' xs)"

primrec next_n :: "'a recvwin \<Rightarrow> nat \<Rightarrow> 'a list" where
  "next_n rq 0 = []"
| "next_n rq (Suc n) = (let (rq', msg) = ofi_recvwin_get_next_msg rq in msg # next_n rq' n)"

lemma rw_valid_iff: "rw_inv rq \<Longrightarrow> ofi_recvwin_id_valid rq mid \<longleftrightarrow> rw_dist rq mid < length (cq_buf (pending rq))"
proof -
  assume "rw_inv rq"
  then obtain k where k: "k < 63" "win_size rq = 2 ^ k" "length (cq_buf (pending rq)) = 2 ^ k"
    by (auto simp: rw_inv_def)
  then have u: "unat (win_size rq) = 2 ^ k" by (simp add: unat_pow2)
  have "(2 :: nat) ^ k < 2 ^ 63" using k(1) by (intro power_strict_increasing) auto
  then show ?thesis using u k(3) by (simp add: ofi_recvwin_id_valid_def inrange_window rw_dist_def)
qed

lemma rw_idx:
  assumes "rw_inv rq"
  shows "unat (recvwin_idx rq mid) =
    (unat (cq_rcnt (pending rq)) + rw_dist rq mid) mod length (cq_buf (pending rq))"
proof -
  obtain k where k: "k < 63" "cq_size_mask (pending rq) = 2 ^ k - 1" "length (cq_buf (pending rq)) = 2 ^ k"
    using assms by (auto simp: rw_inv_def)
  have le: "k \<le> LENGTH(64)" using k(1) by simp
  show ?thesis
    by (simp only: recvwin_idx_def ofi_cirque_rindex_def k(2,3) unat_slot unat_word_ariths(1)
        mod_pow2_of_mod_length [OF le] rw_dist_def mod_add_left_eq)
qed

lemma rw_get_at:
  "rw_inv rq \<Longrightarrow> ofi_recvwin_id_valid rq mid \<Longrightarrow> ofi_recvwin_get_msg rq mid = Some (rw_at rq (rw_dist rq mid))"
  by (simp add: ofi_recvwin_get_msg_def rw_at_def rw_idx)

lemma rw_queue_at:
  assumes inv: "rw_inv rq" and q: "ofi_recvwin_queue_msg rq msg mid = Some rq'"
  shows "rw_inv rq' \<and> exp_msg_id rq' = exp_msg_id rq \<and>
    length (cq_buf (pending rq')) = length (cq_buf (pending rq)) \<and>
    (\<forall>d < length (cq_buf (pending rq)). rw_at rq' d = (if d = rw_dist rq mid then msg else rw_at rq d))"
proof -
  define S r e where "S = length (cq_buf (pending rq))" and "r = unat (cq_rcnt (pending rq))"
    and "e = rw_dist rq mid"
  have S: "0 < S" using inv by (auto simp: rw_inv_def S_def)
  have e: "e < S" using q rw_valid_iff [OF inv, of mid]
    by (auto simp: ofi_recvwin_queue_msg_def e_def S_def split: if_splits)
  have buf: "cq_buf (pending rq') = (cq_buf (pending rq))[(r + e) mod S := msg]"
    and rest: "cq_rcnt (pending rq') = cq_rcnt (pending rq)" "exp_msg_id rq' = exp_msg_id rq"
      "win_size rq' = win_size rq" "cq_size_mask (pending rq') = cq_size_mask (pending rq)"
    using q rw_idx [OF inv, of mid] by (auto simp: ofi_recvwin_queue_msg_def ofi_cirque_commit_def Let_def
        S_def r_def e_def split: if_splits)
  have inj: "(r + d) mod S = (r + e) mod S \<longleftrightarrow> d = e" if "d < S" for d
  proof -
    have "r mod S < S" using S by simp
    then show ?thesis using mod_add_cases [OF that, of r] mod_add_cases [OF e, of r] that e
      by (auto split: if_splits)
  qed
  have "rw_at rq' d = (if d = e then msg else rw_at rq d)" if "d < S" for d
    using inj [OF that] S
    by (auto simp: rw_at_def buf rest(1) nth_list_update r_def [symmetric] S_def [symmetric])
  then show ?thesis using inv rest by (auto simp: rw_inv_def buf S_def e_def)
qed

lemma rw_queue_all_at:
  assumes "rw_inv rq" and "queue_all rq xs = Some rq'" and "distinct (map fst xs)"
  shows "rw_inv rq' \<and> exp_msg_id rq' = exp_msg_id rq \<and>
    (\<forall>x \<in> set xs. rw_dist rq (fst x) < length (cq_buf (pending rq)) \<and> rw_at rq' (rw_dist rq (fst x)) = snd x) \<and>
    length (cq_buf (pending rq')) = length (cq_buf (pending rq)) \<and>
    (\<forall>d < length (cq_buf (pending rq)). d \<notin> rw_dist rq ` fst ` set xs \<longrightarrow> rw_at rq' d = rw_at rq d)"
  using assms
proof (induction xs arbitrary: rq)
  case Nil
  then show ?case by simp
next
  case (Cons x xs)
  obtain rq1 where rq1: "ofi_recvwin_queue_msg rq (snd x) (fst x) = Some rq1" "queue_all rq1 xs = Some rq'"
    using Cons.prems(2) by (auto simp: bind_eq_Some_conv)
  note q = rw_queue_at [OF Cons.prems(1) rq1(1)]
  have IH: "rw_inv rq' \<and> exp_msg_id rq' = exp_msg_id rq1 \<and>
    (\<forall>x \<in> set xs. rw_dist rq1 (fst x) < length (cq_buf (pending rq1)) \<and> rw_at rq' (rw_dist rq1 (fst x)) = snd x) \<and>
    length (cq_buf (pending rq')) = length (cq_buf (pending rq1)) \<and>
    (\<forall>d < length (cq_buf (pending rq1)). d \<notin> rw_dist rq1 ` fst ` set xs \<longrightarrow> rw_at rq' d = rw_at rq1 d)"
    using Cons.prems(3) q rq1(2) by (intro Cons.IH) auto
  have dist: "rw_dist rq1 = rw_dist rq" using q by (auto simp: rw_dist_def)
  have valid: "rw_dist rq (fst x) < length (cq_buf (pending rq))"
    using rq1(1) rw_valid_iff [OF Cons.prems(1), of "fst x"] by (auto simp: ofi_recvwin_queue_msg_def split: if_splits)
  have "rw_dist rq (fst x) \<notin> rw_dist rq ` fst ` set xs"
    using Cons.prems(3) by (auto simp: rw_dist_def image_iff simp flip: word_unat_eq_iff)
  then show ?case using IH q valid by (auto simp: dist)
qed

lemma rw_next_at:
  assumes inv: "rw_inv rq" and nx: "ofi_recvwin_get_next_msg rq = (rq', msg)"
  shows "msg = rw_at rq 0 \<and> rw_inv rq' \<and> exp_msg_id rq' = exp_msg_id rq + 1 \<and> rw_at rq' d = rw_at rq (d + 1)"
proof -
  obtain k where k: "k < 63" "win_size rq = 2 ^ k" "cq_size_mask (pending rq) = 2 ^ k - 1"
    "length (cq_buf (pending rq)) = 2 ^ k" using inv by (auto simp: rw_inv_def)
  have rq': "rq' = rq\<lparr>exp_msg_id := exp_msg_id rq + 1, pending := (pending rq)\<lparr>cq_rcnt := cq_rcnt (pending rq) + 1\<rparr>\<rparr>"
    and msg: "msg = cq_buf (pending rq) ! unat (cq_rcnt (pending rq) AND cq_size_mask (pending rq))"
    using nx by (auto simp: ofi_recvwin_get_next_msg_def ofi_recvwin_exp_inc_def ofi_cirque_remove_def Let_def)
  have le: "k \<le> LENGTH(64)" using k(1) by simp
  have "(unat (cq_rcnt (pending rq) + 1) + d) mod 2 ^ k = (unat (cq_rcnt (pending rq)) + (d + 1)) mod 2 ^ k"
  proof -
    have "unat (cq_rcnt (pending rq) + 1) mod 2 ^ k = (unat (cq_rcnt (pending rq)) + 1) mod 2 ^ k"
      by (simp only: unat_word_ariths(1) mod_pow2_of_mod_length [OF le] unat_1)
    then show ?thesis
      by (metis (no_types, lifting) add.assoc add.commute mod_add_left_eq)
  qed
  then show ?thesis using k by (auto simp: rq' msg rw_at_def rw_inv_def unat_slot)
qed

lemma rw_next_n:
  "rw_inv rq \<Longrightarrow> j < n \<Longrightarrow> next_n rq n ! j = rw_at rq j"
proof (induction n arbitrary: rq j)
  case 0
  then show ?case by simp
next
  case (Suc n)
  obtain rq' msg where nx: "ofi_recvwin_get_next_msg rq = (rq', msg)" by (cases "ofi_recvwin_get_next_msg rq")
  note at = rw_next_at [OF Suc.prems(1) nx]
  show ?case
  proof (cases j)
    case 0
    then show ?thesis using at nx by simp
  next
    case (Suc i)
    then have "next_n rq' n ! i = rw_at rq' i" using Suc.prems(2) at [of 0] by (intro Suc.IH) auto
    then show ?thesis using at [of i] nx Suc by simp
  qed
qed

subsection \<open>Properties\<close>

lemma cq_inv_example: "cq_inv (cirque_init [0, 0 :: nat] 2)"
  by (auto simp: cq_inv_def cirque_init_def ofi_cirque_usedcnt_def intro!: exI [of _ 1])

text \<open>C7. The circular queue is a bounded FIFO queue whatever its counters have wrapped to: any run of
  inserts (skipped when \<open>ofi_cirque_isfull\<close>) and removes (skipped when \<open>ofi_cirque_isempty\<close>) returns
  the results, and ends with the content, of the same run on a list bounded by the queue's size.\<close>

theorem cirque_refines_queue:
  assumes "cq_inv q"
  shows "queue_spec (unat (cq_size q)) (cq_list q) ops = (fst (cq.run q ops), cq_list (snd (cq.run q ops))) \<and>
    cq_inv (snd (cq.run q ops))"
  using cq.run_refines [OF assms, of ops] by simp

theorem cirque_refines_queue_witness:
  "fst (cq.run (cirque_init [0, 0 :: nat] 2) [Put 1, Put 2, Put 3, Get, Put 4, Get, Get, Get]) =
    [Some 1, Some 2, Some 4, None]"
  using cirque_refines_queue [OF cq_inv_example, of "[Put 1, Put 2, Put 3, Get, Put 4, Get, Get, Get]"]
  by (simp add: cirque_init_def cq_list_def circ_get_def ofi_cirque_usedcnt_def)

text \<open>C13. Bytes written to the ring buffer come back in order, across the end of the buffer and the
  wrap-around of the counters: after a write that fits and a commit, a read of everything that is in
  use returns the old content followed by the written bytes, and leaves the buffer empty.  Without
  the commit the written bytes are not in the content, and an abort drops them.\<close>

theorem ringbuf_write_commit_read:
  assumes "rb_inv rb" and "rb_staged rb = []" and "rb_used rb + length d \<le> length (rb_buf rb)"
  shows "\<exists>rb'. ofi_rbread (ofi_rbcommit (ofi_rbwrite rb d)) (rb_used rb + length d) = (rb', rb_content rb @ d) \<and>
      rb_inv rb' \<and> ofi_rbempty rb' \<and>
    rb_content (ofi_rbwrite rb d) = rb_content rb \<and>
    rb_content (ofi_rbabort (ofi_rbwrite rb d)) = rb_content rb \<and> rb_staged (ofi_rbabort (ofi_rbwrite rb d)) = []"
proof -
  have ah: "rb_ahead rb = rb_used rb" using assms(1,2) by (intro rb_settled_ahead) (simp add: rb_settled_def)
  then have w: "rb_inv (ofi_rbwrite rb d)" "rb_content (ofi_rbwrite rb d) = rb_content rb"
    "rb_staged (ofi_rbwrite rb d) = d"
    using rb_write_refines [OF assms(1), of d] assms(2,3) by auto
  note c = rb_commit_refines [OF w(1)]
  define rc where "rc = ofi_rbcommit (ofi_rbwrite rb d)"
  have len: "rb_used rc = rb_used rb + length d"
    using c w(2,3) length_rb_content [of rc] length_rb_content [of rb] by (simp add: rc_def)
  obtain rb' out where rd: "ofi_rbread rc (rb_used rb + length d) = (rb', out)"
    by (cases "ofi_rbread rc (rb_used rb + length d)")
  have inv: "rb_inv rc" using c by (simp add: rc_def)
  from len have le: "rb_used rb + length d \<le> rb_used rc" by simp
  note r = rb_read_refines [OF inv le rd]
  have "length (rb_content rc) = rb_used rb + length d" by (simp add: length_rb_content len)
  then have "out = rb_content rb @ d" "rb_inv rb'" "rb_content rb' = []"
    using r c w(2,3) by (auto simp: rc_def)
  then show ?thesis using rd w(2) rb_abort_refines [OF w(1)] by (simp add: rc_def rb_empty_iff)
qed

lemma rb_inv_example:
  "rb_inv \<lparr>rb_size = 4, rb_size_mask = 3, rb_rcnt = 0xFFFFFFFFFFFFFFFF, rb_wcnt = 1, rb_wpos = 1, rb_buf = [7, 0, 0, 9]\<rparr>"
  by (auto simp: rb_inv_def rb_used_def rb_ahead_def intro!: exI [of _ 2])

theorem ringbuf_write_commit_read_witness:
  "\<exists>rb'. ofi_rbread (ofi_rbcommit (ofi_rbwrite
      \<lparr>rb_size = 4, rb_size_mask = 3, rb_rcnt = 0xFFFFFFFFFFFFFFFF, rb_wcnt = 1, rb_wpos = 1, rb_buf = [7, 0, 0, 9]\<rparr> [5, 6])) 4 =
    (rb', [9, 7, 5, 6])"
proof -
  define rb where "rb = \<lparr>rb_size = 4, rb_size_mask = 3, rb_rcnt = 0xFFFFFFFFFFFFFFFF, rb_wcnt = 1,
      rb_wpos = 1, rb_buf = [7, 0, 0, 9 :: u8]\<rparr>"
  have "rb_inv rb" "rb_used rb = 2" "rb_staged rb = []" "rb_content rb = [9, 7]" "length (rb_buf rb) = 4"
    using rb_inv_example by (simp_all add: rb_def rb_staged_def rb_content_def rb_used_def rb_ahead_def
        circ_get_def upt_rec)
  then show ?thesis using ringbuf_write_commit_read [of rb "[5, 6]"] by (auto simp: rb_def)
qed

text \<open>C21. A wake-up is lost only by a failed write to the socket.  In every state that a ring buffer
  with a signalling socket reaches by writes, commits, aborts and reads, whether the calls on the
  socket succeed or fail, the socket holds at most one byte, namely what the two counters say; a buffer
  with committed bytes has a byte in the socket unless the last write to the socket failed; and a
  commit whose write to the socket succeeds makes up for earlier failures.  Reads are defined; a commit
  is undefined exactly if it writes to the socket when \<open>fdwcnt\<close> is \<open>INT_MAX\<close>.\<close>

theorem ringbuffd_no_lost_wakeup:
  assumes "rbfd_reachable (s, bytes, failed)"
  shows "int bytes = sint (fdwcnt s) - sint (fdrcnt s) \<and> bytes \<le> 1 \<and>
    (\<not> ofi_rbfdempty s \<and> \<not> failed \<longrightarrow> bytes = 1) \<and>
    (\<forall>t. ofi_rbfdcommit True s = Some t \<longrightarrow> sint (fdwcnt t) - sint (fdrcnt t) = 1) \<and>
    ofi_rbfdread read_ok s n \<noteq> None \<and>
    (ofi_rbfdcommit write_ok s = None \<longleftrightarrow> write_ok \<and> bytes = 0 \<and> fdwcnt s = INT_MAX)"
proof -
  note inv = rbfd_reachable_inv [OF assms]
  have "sint (fdwcnt t) - sint (fdrcnt t) = 1" if "ofi_rbfdcommit True s = Some t" for t
    using rbfd_inv_commit [OF inv that] inv rbfd_counters [OF inv] by (auto simp: rbfd_inv_def split: if_splits)
  then show ?thesis
    using inv rbfd_read_defined [OF inv] rbfd_commit_undefined rbfd_counters [OF inv] by (auto simp: rbfd_inv_def)
qed

theorem ringbuffd_no_lost_wakeup_witness:
  "\<exists>s. rbfd_reachable (s, 1, False) \<and> \<not> ofi_rbfdempty s \<and> sint (fdwcnt s) - sint (fdrcnt s) = 1"
proof -
  define s0 where "s0 = \<lparr>rbfd_rb = \<lparr>rb_size = 4, rb_size_mask = 3, rb_rcnt = 0, rb_wcnt = 0, rb_wpos = 0,
      rb_buf = [0, 0, 0, 0]\<rparr>, fdrcnt = 0, fdwcnt = 0\<rparr>"
  define s2 where "s2 = (ofi_rbfdwrite s0 [1])\<lparr>rbfd_rb := ofi_rbcommit (rbfd_rb (ofi_rbfdwrite s0 [1])), fdwcnt := 1\<rparr>"
  have "rbfd_reachable (s0, 0, False)"
  proof (rule fd_init [of 4])
    have "replicate 4 (0 :: u8) = [0, 0, 0, 0]" by (simp add: eval_nat_numeral)
    then show "ofi_rbfdinit True (Inr ()) (Inr ()) 4 = Inr s0"
      by (simp add: s0_def ofi_rbfdinit_def ofi_rbinit_def roundup_power_of_two_def Let_def)
  qed simp_all
  then have r1: "rbfd_reachable (ofi_rbfdwrite s0 [1], 0, False)"
    by (rule rbfd_reachable.fd_step) (rule fd_write, simp add: s0_def rb_ahead_def)
  have "ofi_rbfdcommit True (ofi_rbfdwrite s0 [1]) = Some s2"
    by (simp add: s2_def s0_def rbfd_defs int_incr_def INT_MAX_def)
  from rbfd_reachable.fd_step [OF r1 fd_commit [OF this, of 0 False]]
  have r: "rbfd_reachable (s2, 1, False)" by (simp add: s0_def ofi_rbfdwrite_def)
  moreover have "\<not> ofi_rbfdempty s2"
    by (simp add: s2_def s0_def rbfd_defs ofi_rbempty_def ofi_rbcommit_def ofi_rbwrite_def Let_def)
  ultimately show ?thesis using ringbuffd_no_lost_wakeup [OF r] by auto
qed

text \<open>C12. The receive window reorders: messages queued under distinct identifiers of the window, in any
  order, are returned by successive \<open>ofi_recvwin_get_next_msg\<close> calls in the order of their
  identifiers, also when the identifiers wrap around.\<close>

theorem recvwin_delivers_in_order:
  assumes "rw_inv rq" and "queue_all rq xs = Some rq'" and "distinct (map fst xs)"
    and "(exp_msg_id rq + of_nat j, msg) \<in> set xs" and "j < n" and "n \<le> unat (win_size rq)"
  shows "next_n rq' n ! j = msg"
proof -
  obtain k where k: "k < 63" "win_size rq = 2 ^ k" using assms(1) by (auto simp: rw_inv_def)
  have "(2 :: nat) ^ k < 2 ^ 63" using k(1) by (intro power_strict_increasing) auto
  then have "j < 2 ^ 64" using assms(5,6) k by (simp add: unat_pow2)
  then have dist: "rw_dist rq (exp_msg_id rq + of_nat j) = j" by (simp add: rw_dist_def unat_of_nat)
  note q = rw_queue_all_at [OF assms(1-3)]
  then have "rw_at rq' j = msg" using assms(4) dist by force
  then show ?thesis using rw_next_n [of rq' j n] q assms(5) by simp
qed

theorem recvwin_delivers_in_order_witness:
  "\<exists>rq'. queue_all \<lparr>exp_msg_id = -1, win_size = 4, pending = \<lparr>cq_size = 4, cq_size_mask = 3, cq_rcnt = 2,
      cq_wcnt = 2, cq_buf = [0, 0, 0, 0 :: nat]\<rparr>\<rparr> [(1, 30), (-1, 10), (0, 20)] = Some rq' \<and>
    next_n rq' 3 ! 1 = 20"
proof -
  define rq where "rq = \<lparr>exp_msg_id = -1, win_size = 4, pending = \<lparr>cq_size = 4, cq_size_mask = 3, cq_rcnt = 2,
      cq_wcnt = 2, cq_buf = [0, 0, 0, 0 :: nat]\<rparr>\<rparr>"
  have inv: "rw_inv rq" by (auto simp: rw_inv_def rq_def intro!: exI [of _ 2])
  obtain rq' where "queue_all rq [(1, 30), (-1, 10), (0, 20)] = Some rq'"
    by (simp add: rq_def ofi_recvwin_queue_msg_def ofi_recvwin_id_valid_def inrange_window
        ofi_cirque_commit_def Let_def)
  then show ?thesis using recvwin_delivers_in_order [OF inv, of "[(1, 30), (-1, 10), (0, 20)]" rq' 1 20 3]
    by (auto simp: rq_def)
qed

text \<open>\<open>ofi_recvwin_get_next_msg\<close> does not detect an empty window: its test is the address of a slot,
  so on an empty window it advances the read counter past the write counter, and the queue then
  reports \<open>2 ^ 64 - 1\<close> used entries.\<close>

theorem recvwin_get_next_underflow:
  assumes "ofi_recvwin_is_empty rq"
  shows "unat (ofi_cirque_usedcnt (pending (fst (ofi_recvwin_get_next_msg rq)))) = 2 ^ 64 - 1"
  using assms by (simp add: ofi_recvwin_is_empty_def ofi_cirque_isempty_def ofi_recvwin_get_next_msg_def
      ofi_recvwin_exp_inc_def ofi_cirque_remove_def ofi_cirque_usedcnt_def Let_def diff_diff_eq [symmetric]
      unsigned_minus_1_eq_mask mask_eq_exp_minus_1)

theorem recvwin_get_next_underflow_witness:
  "unat (ofi_cirque_usedcnt (pending (fst (ofi_recvwin_get_next_msg \<lparr>exp_msg_id = 0, win_size = 1,
      pending = cirque_init [0 :: nat] 1\<rparr>)))) = 2 ^ 64 - 1"
  by (rule recvwin_get_next_underflow)
    (simp add: ofi_recvwin_is_empty_def ofi_cirque_isempty_def cirque_init_def)

end
