(* ===== verification/Ofi_Fabric.thy ===== *)
theory Ofi_Fabric
  imports Ofi_Prelude
begin

unbundle bit_operations_syntax

section \<open>Data model of \<^verbatim>\<open>include/rdma/fabric.h\<close> and string helpers\<close>

text \<open>
  The flags, enumerations and attribute structures of the public header, the version macros, the
  capability predicates of \<^verbatim>\<open>src/common.c\<close>, the string helpers of \<^verbatim>\<open>src/shared/ofi_str.c\<close> and the
  duplication and release of \<open>struct fi_info\<close> of \<^verbatim>\<open>src/fabric.c\<close>.

  A C enumeration is a datatype with the enumerators of the header and one more constructor for the
  integers that are none of them, since the code has branches for those.  A pointer is an \<open>option\<close>,
  a list linked by \<open>next\<close> is a list, a file descriptor object is its identity, a number.
\<close>

named_theorems fi_consts "definitions of the flag constants"

subsection \<open>Flags\<close>

definition FI_MSG :: u64 where [fi_consts]: "FI_MSG = push_bit 1 1"
definition FI_RMA :: u64 where [fi_consts]: "FI_RMA = push_bit 2 1"
definition FI_TAGGED :: u64 where [fi_consts]: "FI_TAGGED = push_bit 3 1"
definition FI_ATOMIC :: u64 where [fi_consts]: "FI_ATOMIC = push_bit 4 1"
definition FI_ATOMICS :: u64 where [fi_consts]: "FI_ATOMICS = FI_ATOMIC"
definition FI_MULTICAST :: u64 where [fi_consts]: "FI_MULTICAST = push_bit 5 1"
definition FI_COLLECTIVE :: u64 where [fi_consts]: "FI_COLLECTIVE = push_bit 6 1"
definition FI_READ :: u64 where [fi_consts]: "FI_READ = push_bit 8 1"
definition FI_WRITE :: u64 where [fi_consts]: "FI_WRITE = push_bit 9 1"
definition FI_RECV :: u64 where [fi_consts]: "FI_RECV = push_bit 10 1"
definition FI_SEND :: u64 where [fi_consts]: "FI_SEND = push_bit 11 1"
definition FI_TRANSMIT :: u64 where [fi_consts]: "FI_TRANSMIT = FI_SEND"
definition FI_REMOTE_READ :: u64 where [fi_consts]: "FI_REMOTE_READ = push_bit 12 1"
definition FI_REMOTE_WRITE :: u64 where [fi_consts]: "FI_REMOTE_WRITE = push_bit 13 1"
definition FI_MULTI_RECV :: u64 where [fi_consts]: "FI_MULTI_RECV = push_bit 16 1"
definition FI_REMOTE_CQ_DATA :: u64 where [fi_consts]: "FI_REMOTE_CQ_DATA = push_bit 17 1"
definition FI_MORE :: u64 where [fi_consts]: "FI_MORE = push_bit 18 1"
definition FI_PEEK :: u64 where [fi_consts]: "FI_PEEK = push_bit 19 1"
definition FI_TRIGGER :: u64 where [fi_consts]: "FI_TRIGGER = push_bit 20 1"
definition FI_FENCE :: u64 where [fi_consts]: "FI_FENCE = push_bit 21 1"
definition FI_COMPLETION :: u64 where [fi_consts]: "FI_COMPLETION = push_bit 24 1"
definition FI_EVENT :: u64 where [fi_consts]: "FI_EVENT = FI_COMPLETION"
definition FI_INJECT :: u64 where [fi_consts]: "FI_INJECT = push_bit 25 1"
definition FI_INJECT_COMPLETE :: u64 where [fi_consts]: "FI_INJECT_COMPLETE = push_bit 26 1"
definition FI_TRANSMIT_COMPLETE :: u64 where [fi_consts]: "FI_TRANSMIT_COMPLETE = push_bit 27 1"
definition FI_DELIVERY_COMPLETE :: u64 where [fi_consts]: "FI_DELIVERY_COMPLETE = push_bit 28 1"
definition FI_AFFINITY :: u64 where [fi_consts]: "FI_AFFINITY = push_bit 29 1"
definition FI_COMMIT_COMPLETE :: u64 where [fi_consts]: "FI_COMMIT_COMPLETE = push_bit 30 1"
definition FI_MATCH_COMPLETE :: u64 where [fi_consts]: "FI_MATCH_COMPLETE = push_bit 31 1"
definition FI_HMEM :: u64 where [fi_consts]: "FI_HMEM = push_bit 47 1"
definition FI_VARIABLE_MSG :: u64 where [fi_consts]: "FI_VARIABLE_MSG = push_bit 48 1"
definition FI_RMA_PMEM :: u64 where [fi_consts]: "FI_RMA_PMEM = push_bit 49 1"
definition FI_SOURCE_ERR :: u64 where [fi_consts]: "FI_SOURCE_ERR = push_bit 50 1"
definition FI_LOCAL_COMM :: u64 where [fi_consts]: "FI_LOCAL_COMM = push_bit 51 1"
definition FI_REMOTE_COMM :: u64 where [fi_consts]: "FI_REMOTE_COMM = push_bit 52 1"
definition FI_SHARED_AV :: u64 where [fi_consts]: "FI_SHARED_AV = push_bit 53 1"
definition FI_PROV_ATTR_ONLY :: u64 where [fi_consts]: "FI_PROV_ATTR_ONLY = push_bit 54 1"
definition FI_NUMERICHOST :: u64 where [fi_consts]: "FI_NUMERICHOST = push_bit 55 1"
definition FI_RMA_EVENT :: u64 where [fi_consts]: "FI_RMA_EVENT = push_bit 56 1"
definition FI_SOURCE :: u64 where [fi_consts]: "FI_SOURCE = push_bit 57 1"
definition FI_NAMED_RX_CTX :: u64 where [fi_consts]: "FI_NAMED_RX_CTX = push_bit 58 1"
definition FI_DIRECTED_RECV :: u64 where [fi_consts]: "FI_DIRECTED_RECV = push_bit 59 1"
definition FI_CLAIM :: u64 where [fi_consts]: "FI_CLAIM = push_bit 59 1"
definition FI_DISCARD :: u64 where [fi_consts]: "FI_DISCARD = push_bit 58 1"
definition FI_MR_LOCAL :: u32 where [fi_consts]: "FI_MR_LOCAL = push_bit 2 1"
definition FI_MR_RAW :: u32 where [fi_consts]: "FI_MR_RAW = push_bit 3 1"
definition FI_MR_VIRT_ADDR :: u32 where [fi_consts]: "FI_MR_VIRT_ADDR = push_bit 4 1"
definition FI_MR_ALLOCATED :: u32 where [fi_consts]: "FI_MR_ALLOCATED = push_bit 5 1"
definition FI_MR_PROV_KEY :: u32 where [fi_consts]: "FI_MR_PROV_KEY = push_bit 6 1"
definition FI_MR_MMU_NOTIFY :: u32 where [fi_consts]: "FI_MR_MMU_NOTIFY = push_bit 7 1"
definition FI_MR_RMA_EVENT :: u32 where [fi_consts]: "FI_MR_RMA_EVENT = push_bit 8 1"
definition FI_MR_ENDPOINT :: u32 where [fi_consts]: "FI_MR_ENDPOINT = push_bit 9 1"
definition FI_MR_HMEM :: u32 where [fi_consts]: "FI_MR_HMEM = push_bit 10 1"
definition FI_ORDER_RAR :: u64 where [fi_consts]: "FI_ORDER_RAR = push_bit 0 1"
definition FI_ORDER_RAW :: u64 where [fi_consts]: "FI_ORDER_RAW = push_bit 1 1"
definition FI_ORDER_RAS :: u64 where [fi_consts]: "FI_ORDER_RAS = push_bit 2 1"
definition FI_ORDER_WAR :: u64 where [fi_consts]: "FI_ORDER_WAR = push_bit 3 1"
definition FI_ORDER_WAW :: u64 where [fi_consts]: "FI_ORDER_WAW = push_bit 4 1"
definition FI_ORDER_WAS :: u64 where [fi_consts]: "FI_ORDER_WAS = push_bit 5 1"
definition FI_ORDER_SAR :: u64 where [fi_consts]: "FI_ORDER_SAR = push_bit 6 1"
definition FI_ORDER_SAW :: u64 where [fi_consts]: "FI_ORDER_SAW = push_bit 7 1"
definition FI_ORDER_SAS :: u64 where [fi_consts]: "FI_ORDER_SAS = push_bit 8 1"
definition FI_ORDER_RMA_RAR :: u64 where [fi_consts]: "FI_ORDER_RMA_RAR = push_bit 32 1"
definition FI_ORDER_RMA_RAW :: u64 where [fi_consts]: "FI_ORDER_RMA_RAW = push_bit 33 1"
definition FI_ORDER_RMA_WAR :: u64 where [fi_consts]: "FI_ORDER_RMA_WAR = push_bit 34 1"
definition FI_ORDER_RMA_WAW :: u64 where [fi_consts]: "FI_ORDER_RMA_WAW = push_bit 35 1"
definition FI_ORDER_ATOMIC_RAR :: u64 where [fi_consts]: "FI_ORDER_ATOMIC_RAR = push_bit 36 1"
definition FI_ORDER_ATOMIC_RAW :: u64 where [fi_consts]: "FI_ORDER_ATOMIC_RAW = push_bit 37 1"
definition FI_ORDER_ATOMIC_WAR :: u64 where [fi_consts]: "FI_ORDER_ATOMIC_WAR = push_bit 38 1"
definition FI_ORDER_ATOMIC_WAW :: u64 where [fi_consts]: "FI_ORDER_ATOMIC_WAW = push_bit 39 1"
definition FI_ORDER_DATA :: u64 where [fi_consts]: "FI_ORDER_DATA = push_bit 16 1"
definition FI_CONTEXT :: u64 where [fi_consts]: "FI_CONTEXT = push_bit 59 1"
definition FI_MSG_PREFIX :: u64 where [fi_consts]: "FI_MSG_PREFIX = push_bit 58 1"
definition FI_ASYNC_IOV :: u64 where [fi_consts]: "FI_ASYNC_IOV = push_bit 57 1"
definition FI_RX_CQ_DATA :: u64 where [fi_consts]: "FI_RX_CQ_DATA = push_bit 56 1"
definition FI_LOCAL_MR :: u64 where [fi_consts]: "FI_LOCAL_MR = push_bit 55 1"
definition FI_NOTIFY_FLAGS_ONLY :: u64 where [fi_consts]: "FI_NOTIFY_FLAGS_ONLY = push_bit 54 1"
definition FI_RESTRICTED_COMP :: u64 where [fi_consts]: "FI_RESTRICTED_COMP = push_bit 53 1"
definition FI_CONTEXT2 :: u64 where [fi_consts]: "FI_CONTEXT2 = push_bit 52 1"
definition FI_BUFFERED_RECV :: u64 where [fi_consts]: "FI_BUFFERED_RECV = push_bit 51 1"
definition FI_SELECTIVE_COMPLETION :: u64 where [fi_consts]: "FI_SELECTIVE_COMPLETION = push_bit 59 1"

definition FI_MR_BASIC :: u32 where [fi_consts]: "FI_MR_BASIC = 1"
definition FI_MR_SCALABLE :: u32 where [fi_consts]: "FI_MR_SCALABLE = 2"
definition FI_MR_UNSPEC :: u32 where [fi_consts]: "FI_MR_UNSPEC = 0"
definition OFI_GETINFO_INTERNAL :: u64 where [fi_consts]: "OFI_GETINFO_INTERNAL = push_bit 58 1"
definition OFI_CORE_PROV_ONLY :: u64 where [fi_consts]: "OFI_CORE_PROV_ONLY = push_bit 59 1"
definition OFI_GETINFO_HIDDEN :: u64 where [fi_consts]: "OFI_GETINFO_HIDDEN = push_bit 60 1"
definition FI_SHARED_CONTEXT :: size_t where [fi_consts]: "FI_SHARED_CONTEXT = - 1"

text \<open>Address formats are compared as numbers.\<close>

definition FI_FORMAT_UNSPEC :: u32 where [fi_consts]: "FI_FORMAT_UNSPEC = 0"
definition FI_SOCKADDR :: u32 where [fi_consts]: "FI_SOCKADDR = 1"
definition FI_SOCKADDR_IN :: u32 where [fi_consts]: "FI_SOCKADDR_IN = 2"
definition FI_SOCKADDR_IN6 :: u32 where [fi_consts]: "FI_SOCKADDR_IN6 = 3"
definition FI_SOCKADDR_IB :: u32 where [fi_consts]: "FI_SOCKADDR_IB = 4"
definition FI_PROTO_UNSPEC :: u32 where [fi_consts]: "FI_PROTO_UNSPEC = 0"

definition FI_PRIMARY_CAPS :: u64 where [fi_consts]:
  "FI_PRIMARY_CAPS = FI_MSG OR FI_RMA OR FI_TAGGED OR FI_ATOMICS OR FI_MULTICAST OR
    FI_NAMED_RX_CTX OR FI_DIRECTED_RECV OR FI_READ OR FI_WRITE OR FI_RECV OR FI_SEND OR
    FI_REMOTE_READ OR FI_REMOTE_WRITE OR FI_COLLECTIVE"

definition FI_SECONDARY_CAPS :: u64 where [fi_consts]:
  "FI_SECONDARY_CAPS = FI_MULTI_RECV OR FI_SOURCE OR FI_RMA_EVENT OR FI_SHARED_AV OR FI_TRIGGER OR
    FI_FENCE OR FI_LOCAL_COMM OR FI_REMOTE_COMM"

definition OFI_MR_MODE_RMA_TARGET :: u32 where [fi_consts]:
  "OFI_MR_MODE_RMA_TARGET = FI_MR_RAW OR FI_MR_VIRT_ADDR OR FI_MR_PROV_KEY OR FI_MR_RMA_EVENT"

subsection \<open>Versions\<close>

definition FI_VERSION :: "u32 \<Rightarrow> u32 \<Rightarrow> u32" where
  "FI_VERSION major minor = push_bit 16 major OR minor"

definition FI_MAJOR :: "u32 \<Rightarrow> u32" where
  "FI_MAJOR version = drop_bit 16 version"

definition FI_MINOR :: "u32 \<Rightarrow> u32" where
  "FI_MINOR version = version AND 0xFFFF"

definition FI_VERSION_GE :: "u32 \<Rightarrow> u32 \<Rightarrow> bool" where
  "FI_VERSION_GE v1 v2 \<longleftrightarrow> FI_MAJOR v1 > FI_MAJOR v2 \<or>
    (FI_MAJOR v1 = FI_MAJOR v2 \<and> FI_MINOR v1 = FI_MINOR v2) \<or>
    (FI_MAJOR v1 = FI_MAJOR v2 \<and> FI_MINOR v1 > FI_MINOR v2)"

definition FI_VERSION_LT :: "u32 \<Rightarrow> u32 \<Rightarrow> bool" where
  "FI_VERSION_LT v1 v2 \<longleftrightarrow> FI_MAJOR v1 < FI_MAJOR v2 \<or>
    (FI_MAJOR v1 = FI_MAJOR v2 \<and> FI_MINOR v1 < FI_MINOR v2)"

definition fi_version :: u32 where
  "fi_version = FI_VERSION 1 9"

subsection \<open>Enumerations\<close>

datatype fi_av_type = FI_AV_UNSPEC | FI_AV_MAP | FI_AV_TABLE | Other_av_type int

datatype fi_progress = FI_PROGRESS_UNSPEC | FI_PROGRESS_AUTO | FI_PROGRESS_MANUAL | Other_progress int

datatype fi_threading = FI_THREAD_UNSPEC | FI_THREAD_SAFE | FI_THREAD_FID | FI_THREAD_DOMAIN
  | FI_THREAD_COMPLETION | FI_THREAD_ENDPOINT | Other_threading int

datatype fi_resource_mgmt = FI_RM_UNSPEC | FI_RM_DISABLED | FI_RM_ENABLED | Other_resource_mgmt int

datatype fi_ep_type = FI_EP_UNSPEC | FI_EP_MSG | FI_EP_DGRAM | FI_EP_RDM | FI_EP_SOCK_STREAM
  | FI_EP_SOCK_DGRAM | Other_ep_type int

subsection \<open>Attribute structures\<close>

type_synonym fid = nat

record fi_tx_attr =
  tx_caps :: u64
  tx_mode :: u64
  tx_op_flags :: u64
  tx_msg_order :: u64
  tx_comp_order :: u64
  tx_inject_size :: size_t
  tx_size :: size_t
  tx_iov_limit :: size_t
  tx_rma_iov_limit :: size_t
  tx_tclass :: u32

record fi_rx_attr =
  rx_caps :: u64
  rx_mode :: u64
  rx_op_flags :: u64
  rx_msg_order :: u64
  rx_comp_order :: u64
  rx_total_buffered_recv :: size_t
  rx_size :: size_t
  rx_iov_limit :: size_t

record fi_ep_attr =
  ep_type :: fi_ep_type
  ep_protocol :: u32
  ep_protocol_version :: u32
  ep_max_msg_size :: size_t
  ep_msg_prefix_size :: size_t
  ep_max_order_raw_size :: size_t
  ep_max_order_war_size :: size_t
  ep_max_order_waw_size :: size_t
  ep_mem_tag_format :: u64
  ep_tx_ctx_cnt :: size_t
  ep_rx_ctx_cnt :: size_t
  ep_auth_key_size :: size_t
  ep_auth_key :: "u8 list option"

record fi_domain_attr =
  dom_domain :: "fid option"
  dom_name :: "string option"
  dom_threading :: fi_threading
  dom_control_progress :: fi_progress
  dom_data_progress :: fi_progress
  dom_resource_mgmt :: fi_resource_mgmt
  dom_av_type :: fi_av_type
  dom_mr_mode :: u32
  dom_mr_key_size :: size_t
  dom_cq_data_size :: size_t
  dom_cq_cnt :: size_t
  dom_ep_cnt :: size_t
  dom_tx_ctx_cnt :: size_t
  dom_rx_ctx_cnt :: size_t
  dom_max_ep_tx_ctx :: size_t
  dom_max_ep_rx_ctx :: size_t
  dom_max_ep_stx_ctx :: size_t
  dom_max_ep_srx_ctx :: size_t
  dom_cntr_cnt :: size_t
  dom_mr_iov_limit :: size_t
  dom_caps :: u64
  dom_mode :: u64
  dom_auth_key :: "u8 list option"
  dom_auth_key_size :: size_t
  dom_max_err_data :: size_t
  dom_mr_cnt :: size_t
  dom_tclass :: u32

record fi_fabric_attr =
  fab_fabric :: "fid option"
  fab_name :: "string option"
  fab_prov_name :: "string option"
  fab_prov_version :: u32
  fab_api_version :: u32

text \<open>\<open>struct fi_info\<close>; its \<open>next\<close> pointer is the list it is an element of.\<close>

record fi_info =
  fi_caps :: u64
  fi_mode :: u64
  fi_addr_format :: u32
  fi_src_addrlen :: size_t
  fi_dest_addrlen :: size_t
  fi_src_addr :: "u8 list option"
  fi_dest_addr :: "u8 list option"
  fi_handle :: "fid option"
  fi_tx_attr :: "fi_tx_attr option"
  fi_rx_attr :: "fi_rx_attr option"
  fi_ep_attr :: "fi_ep_attr option"
  fi_domain_attr :: "fi_domain_attr option"
  fi_fabric_attr :: "fi_fabric_attr option"
  fi_nic :: "fid option"

subsection \<open>Capability predicates of \<^verbatim>\<open>src/common.c\<close>\<close>

definition ofi_send_allowed :: "u64 \<Rightarrow> bool" where
  "ofi_send_allowed caps =
    (if caps AND FI_MSG \<noteq> 0 \<or> caps AND FI_TAGGED \<noteq> 0
     then if caps AND FI_SEND \<noteq> 0 then True
          else if caps AND FI_RECV \<noteq> 0 then False else True
     else False)"

definition ofi_recv_allowed :: "u64 \<Rightarrow> bool" where
  "ofi_recv_allowed caps =
    (if caps AND FI_MSG \<noteq> 0 \<or> caps AND FI_TAGGED \<noteq> 0
     then if caps AND FI_RECV \<noteq> 0 then True
          else if caps AND FI_SEND \<noteq> 0 then False else True
     else False)"

definition ofi_rma_initiate_allowed :: "u64 \<Rightarrow> bool" where
  "ofi_rma_initiate_allowed caps =
    (if caps AND FI_RMA \<noteq> 0 \<or> caps AND FI_ATOMICS \<noteq> 0
     then if caps AND FI_WRITE \<noteq> 0 \<or> caps AND FI_READ \<noteq> 0 then True
          else if caps AND FI_REMOTE_WRITE \<noteq> 0 \<or> caps AND FI_REMOTE_READ \<noteq> 0 then False else True
     else False)"

definition ofi_rma_target_allowed :: "u64 \<Rightarrow> bool" where
  "ofi_rma_target_allowed caps =
    (if caps AND FI_RMA \<noteq> 0 \<or> caps AND FI_ATOMICS \<noteq> 0
     then if caps AND FI_REMOTE_WRITE \<noteq> 0 \<or> caps AND FI_REMOTE_READ \<noteq> 0 then True
          else if caps AND FI_WRITE \<noteq> 0 \<or> caps AND FI_READ \<noteq> 0 then False else True
     else False)"

text \<open>\<open>bfid\<close> is the class of the object to bind, \<open>None\<close> when the pointer is \<open>NULL\<close>.\<close>

datatype (plugins only: code size) fi_class = FI_CLASS_UNSPEC | FI_CLASS_FABRIC | FI_CLASS_DOMAIN | FI_CLASS_EP
  | FI_CLASS_SEP | FI_CLASS_RX_CTX | FI_CLASS_SRX_CTX | FI_CLASS_TX_CTX | FI_CLASS_STX_CTX
  | FI_CLASS_PEP | FI_CLASS_INTERFACE | FI_CLASS_AV | FI_CLASS_MR | FI_CLASS_EQ | FI_CLASS_CQ
  | FI_CLASS_CNTR | FI_CLASS_WAIT | FI_CLASS_POLL | FI_CLASS_CONNREQ | FI_CLASS_MC | FI_CLASS_NIC
  | FI_CLASS_AV_SET | Other_class size_t

definition ofi_ep_bind_valid :: "fi_class option \<Rightarrow> u64 \<Rightarrow> unit fi_result" where
  "ofi_ep_bind_valid bfid flags =
    (case bfid of
       None \<Rightarrow> Inl FI_EINVAL
     | Some fclass \<Rightarrow>
         (case fclass of
            FI_CLASS_CQ \<Rightarrow>
              if flags AND NOT (FI_TRANSMIT OR FI_RECV OR FI_SELECTIVE_COMPLETION) \<noteq> 0
              then Inl FI_EBADFLAGS else Inr ()
          | FI_CLASS_CNTR \<Rightarrow>
              if flags AND NOT (FI_SEND OR FI_RECV OR FI_READ OR FI_WRITE OR FI_REMOTE_READ OR
                  FI_REMOTE_WRITE) \<noteq> 0
              then Inl FI_EBADFLAGS else Inr ()
          | _ \<Rightarrow> if flags \<noteq> 0 then Inl FI_EBADFLAGS else Inr ()))"

definition ofi_check_rx_mode :: "fi_info option \<Rightarrow> u64 \<Rightarrow> bool" where
  "ofi_check_rx_mode info flags =
    (case info of
       None \<Rightarrow> False
     | Some i \<Rightarrow>
         if (case fi_rx_attr i of None \<Rightarrow> False | Some rx \<Rightarrow> rx_mode rx AND flags \<noteq> 0) then True
         else fi_mode i AND flags \<noteq> 0)"

subsection \<open>Strings\<close>

definition tolower :: "char \<Rightarrow> char" where
  "tolower c = (if 65 \<le> (of_char c :: nat) \<and> (of_char c :: nat) \<le> 90 then char_of ((of_char c :: nat) + 32) else c)"

text \<open>\<open>!strcasecmp(s, t)\<close> and \<open>!strncasecmp(s, t, n)\<close>.\<close>

definition strcaseeq :: "string \<Rightarrow> string \<Rightarrow> bool" where
  "strcaseeq s t \<longleftrightarrow> map tolower s = map tolower t"

definition strncaseeq :: "string \<Rightarrow> string \<Rightarrow> nat \<Rightarrow> bool" where
  "strncaseeq s t n \<longleftrightarrow> map tolower (take n s) = map tolower (take n t)"

fun strstr :: "string \<Rightarrow> string \<Rightarrow> nat option" where
  "strstr [] p = (if p = [] then Some 0 else None)"
| "strstr (c # s) p =
    (if take (length p) (c # s) = p then Some 0 else map_option Suc (strstr s p))"

definition ofi_rm_substr :: "string \<Rightarrow> string \<Rightarrow> string fi_result" where
  "ofi_rm_substr str substr =
    (case strstr str substr of
       None \<Rightarrow> Inl FI_EINVAL
     | Some dest \<Rightarrow> Inr (take dest str @ drop (dest + length substr) str))"

definition ofi_rm_substr_delim :: "bool \<Rightarrow> string \<Rightarrow> string \<Rightarrow> char \<Rightarrow> string fi_result" where
  "ofi_rm_substr_delim malloc_ok str substr delim =
    (if \<not> malloc_ok then Inl FI_ENOMEM
     else case ofi_rm_substr str (delim # substr) of
            Inr r \<Rightarrow> Inr r
          | Inl _ \<Rightarrow>
              (case ofi_rm_substr str (substr @ [delim]) of
                 Inr r \<Rightarrow> Inr r
               | Inl _ \<Rightarrow> ofi_rm_substr str substr))"

definition strsep :: "string \<Rightarrow> string \<Rightarrow> string \<times> string option" where
  "strsep s delim =
    (takeWhile (\<lambda>c. c \<notin> set delim) s,
     case dropWhile (\<lambda>c. c \<notin> set delim) s of [] \<Rightarrow> None | _ # r \<Rightarrow> Some r)"

lemma strsep_shorter: "strsep s d = (a, Some r) \<Longrightarrow> length r < length s"
  using length_dropWhile_le [of "\<lambda>c. c \<notin> set d" s] by (auto simp: strsep_def split: list.splits)

function strsep_loop :: "string option \<Rightarrow> string \<Rightarrow> string list" where
  "strsep_loop None delim = []"
| "strsep_loop (Some tmp) delim = (let (a, r) = strsep tmp delim in a # strsep_loop r delim)"
  by pat_completeness auto

termination
  by (relation "measure (\<lambda>(t, _). case t of None \<Rightarrow> 0 | Some s \<Rightarrow> Suc (length s))")
    (auto split: option.splits dest!: strsep_shorter [OF sym])

text \<open>The number of delimiters that the first loop of \<open>ofi_split_and_alloc\<close> counts, plus one.\<close>

primrec split_count :: "string \<Rightarrow> string \<Rightarrow> nat" where
  "split_count [] delim = 1"
| "split_count (c # s) delim = (if c \<in> set delim then 1 else 0) + split_count s delim"

text \<open>\<open>ok 0\<close> and \<open>ok 1\<close> say whether \<open>strdup\<close> and \<open>calloc\<close> succeed.  The outer \<open>None\<close> is a failed
  assertion, the inner one the \<open>NULL\<close> result.\<close>

definition ofi_split_and_alloc ::
    "(nat \<Rightarrow> bool) \<Rightarrow> string option \<Rightarrow> string option \<Rightarrow> (string list \<times> nat) option option" where
  "ofi_split_and_alloc ok s delim =
    (case (s, delim) of
       (Some str, Some d) \<Rightarrow>
         if \<not> ok 0 then Some None
         else let n = split_count str d
              in if \<not> ok 1 then Some None
                 else let arr = strsep_loop (Some str) d
                      in if length arr = n then Some (Some (arr, n)) else None
     | _ \<Rightarrow> Some None)"

subsection \<open>Error strings\<close>

definition errstr :: "string list" where
  "errstr =
    [''Unspecified error'', ''Provided buffer is too small'', ''Operation not permitted in current state'',
     ''Error available'', ''Flags not supported'', ''Missing or unavailable event queue'',
     ''Invalid resource domain'', ''Missing or unavailable completion queue'', ''CRC error'',
     ''Truncation error'', ''Required key not available'', ''Missing or unavailable address vector'',
     ''Queue has been overrun'']"

text \<open>\<open>strerror\<close> is the C library's; \<open>FI_ERRNO_OFFSET\<close> is 256 and \<open>FI_ERRNO_MAX\<close> 269.\<close>

definition fi_strerror :: "(int \<Rightarrow> string) \<Rightarrow> int \<Rightarrow> string" where
  "fi_strerror strerror errnum =
    (if errnum < 256 then strerror errnum
     else if errnum < 269 then errstr ! nat (errnum - 256)
     else errstr ! 0)"

subsection \<open>Allocation, duplication and release of \<open>struct fi_info\<close>\<close>

text \<open>The zeroed structures that \<open>calloc\<close> returns.\<close>

definition tx_attr0 :: fi_tx_attr where
  "tx_attr0 = \<lparr>tx_caps = 0, tx_mode = 0, tx_op_flags = 0, tx_msg_order = 0, tx_comp_order = 0,
    tx_inject_size = 0, tx_size = 0, tx_iov_limit = 0, tx_rma_iov_limit = 0, tx_tclass = 0\<rparr>"

definition rx_attr0 :: fi_rx_attr where
  "rx_attr0 = \<lparr>rx_caps = 0, rx_mode = 0, rx_op_flags = 0, rx_msg_order = 0, rx_comp_order = 0,
    rx_total_buffered_recv = 0, rx_size = 0, rx_iov_limit = 0\<rparr>"

definition ep_attr0 :: fi_ep_attr where
  "ep_attr0 = \<lparr>ep_type = FI_EP_UNSPEC, ep_protocol = 0, ep_protocol_version = 0, ep_max_msg_size = 0,
    ep_msg_prefix_size = 0, ep_max_order_raw_size = 0, ep_max_order_war_size = 0,
    ep_max_order_waw_size = 0, ep_mem_tag_format = 0, ep_tx_ctx_cnt = 0, ep_rx_ctx_cnt = 0,
    ep_auth_key_size = 0, ep_auth_key = None\<rparr>"

definition domain_attr0 :: fi_domain_attr where
  "domain_attr0 = \<lparr>dom_domain = None, dom_name = None, dom_threading = FI_THREAD_UNSPEC,
    dom_control_progress = FI_PROGRESS_UNSPEC, dom_data_progress = FI_PROGRESS_UNSPEC,
    dom_resource_mgmt = FI_RM_UNSPEC, dom_av_type = FI_AV_UNSPEC, dom_mr_mode = 0, dom_mr_key_size = 0,
    dom_cq_data_size = 0, dom_cq_cnt = 0, dom_ep_cnt = 0, dom_tx_ctx_cnt = 0, dom_rx_ctx_cnt = 0,
    dom_max_ep_tx_ctx = 0, dom_max_ep_rx_ctx = 0, dom_max_ep_stx_ctx = 0, dom_max_ep_srx_ctx = 0,
    dom_cntr_cnt = 0, dom_mr_iov_limit = 0, dom_caps = 0, dom_mode = 0, dom_auth_key = None,
    dom_auth_key_size = 0, dom_max_err_data = 0, dom_mr_cnt = 0, dom_tclass = 0\<rparr>"

definition fabric_attr0 :: fi_fabric_attr where
  "fabric_attr0 = \<lparr>fab_fabric = None, fab_name = None, fab_prov_name = None, fab_prov_version = 0,
    fab_api_version = 0\<rparr>"

definition info0 :: fi_info where
  "info0 = \<lparr>fi_caps = 0, fi_mode = 0, fi_addr_format = 0, fi_src_addrlen = 0, fi_dest_addrlen = 0,
    fi_src_addr = None, fi_dest_addr = None, fi_handle = None, fi_tx_attr = None, fi_rx_attr = None,
    fi_ep_attr = None, fi_domain_attr = None, fi_fabric_attr = None, fi_nic = None\<rparr>"

text \<open>\<open>ok i\<close> says whether the \<open>i\<close>-th allocation of the function succeeds, in the order of the source.\<close>

definition ofi_allocinfo_internal :: "(nat \<Rightarrow> bool) \<Rightarrow> fi_info option" where
  "ofi_allocinfo_internal ok =
    (if \<not> ok 0 then None
     else if \<not> ok 1 \<or> \<not> ok 2 \<or> \<not> ok 3 \<or> \<not> ok 4 \<or> \<not> ok 5 then None
     else Some (info0\<lparr>fi_tx_attr := Some tx_attr0, fi_rx_attr := Some rx_attr0,
       fi_ep_attr := Some ep_attr0, fi_domain_attr := Some domain_attr0,
       fi_fabric_attr := Some fabric_attr0\<rparr>))"

text \<open>\<open>fi_freeinfo\<close> releases memory, which leaves no trace in the model, and closes the network
  interface objects the list refers to: its result is those it closes, in order.  \<open>closable n\<close> says
  whether the operations of \<open>n\<close> have a \<open>close\<close>.\<close>

primrec fi_freeinfo :: "(fid \<Rightarrow> bool) \<Rightarrow> fi_info list \<Rightarrow> fid list" where
  "fi_freeinfo closable [] = []"
| "fi_freeinfo closable (info # rest) =
    (case fi_nic info of None \<Rightarrow> [] | Some n \<Rightarrow> if closable n then [n] else []) @
    fi_freeinfo closable rest"

text \<open>The steps of \<open>fi_dupinfo\<close>: \<open>Inl dup\<close> is \<open>goto fail\<close> with the copy built so far.\<close>

definition mem_dup :: "u8 list \<Rightarrow> size_t \<Rightarrow> u8 list" where
  "mem_dup src n = take (unat n) src"

definition dup_addrs :: "(nat \<Rightarrow> bool) \<Rightarrow> fi_info \<Rightarrow> fi_info \<Rightarrow> fi_info + fi_info" where
  "dup_addrs ok info dup =
    and_then
      (case fi_src_addr info of
         None \<Rightarrow> Inr dup
       | Some a \<Rightarrow>
           if ok 1 then Inr (dup\<lparr>fi_src_addr := Some (mem_dup a (fi_src_addrlen info))\<rparr>) else Inl dup)
      (\<lambda>dup. case fi_dest_addr info of
         None \<Rightarrow> Inr dup
       | Some a \<Rightarrow>
           if ok 2 then Inr (dup\<lparr>fi_dest_addr := Some (mem_dup a (fi_dest_addrlen info))\<rparr>) else Inl dup)"

definition dup_xfer_attrs :: "(nat \<Rightarrow> bool) \<Rightarrow> fi_info \<Rightarrow> fi_info \<Rightarrow> fi_info + fi_info" where
  "dup_xfer_attrs ok info dup =
    and_then
      (case fi_tx_attr info of
         None \<Rightarrow> Inr dup
       | Some a \<Rightarrow> if ok 3 then Inr (dup\<lparr>fi_tx_attr := Some a\<rparr>) else Inl dup)
      (\<lambda>dup. case fi_rx_attr info of
         None \<Rightarrow> Inr dup
       | Some a \<Rightarrow> if ok 4 then Inr (dup\<lparr>fi_rx_attr := Some a\<rparr>) else Inl dup)"

definition dup_ep_attr :: "(nat \<Rightarrow> bool) \<Rightarrow> fi_info \<Rightarrow> fi_info \<Rightarrow> fi_info + fi_info" where
  "dup_ep_attr ok info dup =
    (case fi_ep_attr info of
       None \<Rightarrow> Inr dup
     | Some a \<Rightarrow>
         if \<not> ok 5 then Inl dup
         else case ep_auth_key a of
                None \<Rightarrow> Inr (dup\<lparr>fi_ep_attr := Some a\<rparr>)
              | Some k \<Rightarrow>
                  if ok 6
                  then Inr (dup\<lparr>fi_ep_attr := Some (a\<lparr>ep_auth_key := Some (mem_dup k (ep_auth_key_size a))\<rparr>)\<rparr>)
                  else Inl (dup\<lparr>fi_ep_attr := Some (a\<lparr>ep_auth_key := None\<rparr>)\<rparr>))"

definition dup_domain_attr :: "(nat \<Rightarrow> bool) \<Rightarrow> fi_info \<Rightarrow> fi_info \<Rightarrow> fi_info + fi_info" where
  "dup_domain_attr ok info dup =
    (case fi_domain_attr info of
       None \<Rightarrow> Inr dup
     | Some a \<Rightarrow>
         if \<not> ok 7 then Inl dup
         else let a0 = a\<lparr>dom_name := None, dom_auth_key := None\<rparr>
              in and_then
                  (case dom_name a of
                     None \<Rightarrow> Inr a0
                   | Some n \<Rightarrow> if ok 8 then Inr (a0\<lparr>dom_name := Some n\<rparr>)
                       else Inl (dup\<lparr>fi_domain_attr := Some a0\<rparr>))
                  (\<lambda>a1. case dom_auth_key a of
                     None \<Rightarrow> Inr (dup\<lparr>fi_domain_attr := Some a1\<rparr>)
                   | Some k \<Rightarrow>
                       if ok 9
                       then Inr (dup\<lparr>fi_domain_attr :=
                         Some (a1\<lparr>dom_auth_key := Some (mem_dup k (dom_auth_key_size a))\<rparr>)\<rparr>)
                       else Inl (dup\<lparr>fi_domain_attr := Some a1\<rparr>)))"

definition dup_fabric_attr :: "(nat \<Rightarrow> bool) \<Rightarrow> fi_info \<Rightarrow> fi_info \<Rightarrow> fi_info + fi_info" where
  "dup_fabric_attr ok info dup =
    (case fi_fabric_attr info of
       None \<Rightarrow> Inr dup
     | Some a \<Rightarrow>
         if \<not> ok 10 then Inl dup
         else let a0 = a\<lparr>fab_name := None, fab_prov_name := None\<rparr>
              in and_then
                  (case fab_name a of
                     None \<Rightarrow> Inr a0
                   | Some n \<Rightarrow> if ok 11 then Inr (a0\<lparr>fab_name := Some n\<rparr>)
                       else Inl (dup\<lparr>fi_fabric_attr := Some a0\<rparr>))
                  (\<lambda>a1. case fab_prov_name a of
                     None \<Rightarrow> Inr (dup\<lparr>fi_fabric_attr := Some a1\<rparr>)
                   | Some n \<Rightarrow>
                       if ok 12 then Inr (dup\<lparr>fi_fabric_attr := Some (a1\<lparr>fab_prov_name := Some n\<rparr>)\<rparr>)
                       else Inl (dup\<lparr>fi_fabric_attr := Some a1\<rparr>)))"

text \<open>\<open>fi_control(&info->nic->fid, FI_DUP, &dup->nic)\<close> is the provider's \<open>nic_dup\<close>; on an error
  it leaves the pointer, still the source's, in place.\<close>

definition dup_nic :: "(fid \<Rightarrow> fid fi_result) \<Rightarrow> fi_info \<Rightarrow> fi_info \<Rightarrow> fi_info + fi_info" where
  "dup_nic nic_dup info dup =
    (case fi_nic info of
       None \<Rightarrow> Inr dup
     | Some n \<Rightarrow>
         (case nic_dup n of
            Inr n' \<Rightarrow> Inr (dup\<lparr>fi_nic := Some n'\<rparr>)
          | Inl e \<Rightarrow> if e = FI_ENOSYS then Inr dup else Inl dup))"

text \<open>The result of \<open>fi_dupinfo\<close> and the interface objects it closes on the failure path.\<close>

definition fi_dupinfo ::
    "(nat \<Rightarrow> bool) \<Rightarrow> (fid \<Rightarrow> fid fi_result) \<Rightarrow> (fid \<Rightarrow> bool) \<Rightarrow> fi_info option \<Rightarrow> fi_info option \<times> fid list" where
  "fi_dupinfo ok nic_dup closable info_ptr =
    (case info_ptr of
       None \<Rightarrow> (ofi_allocinfo_internal ok, [])
     | Some info \<Rightarrow>
         if \<not> ok 0 then (None, [])
         else let dup = info\<lparr>fi_src_addr := None, fi_dest_addr := None, fi_tx_attr := None,
                    fi_rx_attr := None, fi_ep_attr := None, fi_domain_attr := None, fi_fabric_attr := None\<rparr>
              in case and_then (dup_addrs ok info dup) (\<lambda>dup.
                      and_then (dup_xfer_attrs ok info dup) (\<lambda>dup.
                      and_then (dup_ep_attr ok info dup) (\<lambda>dup.
                      and_then (dup_domain_attr ok info dup) (\<lambda>dup.
                      and_then (dup_fabric_attr ok info dup) (dup_nic nic_dup info))))) of
                   Inr dup \<Rightarrow> (Some dup, [])
                 | Inl dup \<Rightarrow> (None, fi_freeinfo closable [dup]))"


subsection \<open>Lemmas\<close>

lemma unat_split16: "unat (v :: u32) = unat (FI_MAJOR v) * 65536 + unat (FI_MINOR v)"
proof -
  have "unat (FI_MINOR v) = unat v mod 65536"
    using unat_mod_pow2 [of v 16] and_mask_mod [of v 16] by (simp add: FI_MINOR_def)
  moreover have "unat (FI_MAJOR v) = unat v div 65536"
    by (simp add: FI_MAJOR_def drop_bit_eq_div unat_div)
  ultimately show ?thesis by (simp add: div_mult_mod_eq)
qed

lemma unat_minor_less: "unat (FI_MINOR v) < 65536"
  using unat_mod_pow2 [of v 16] and_mask_mod [of v 16] by (simp add: FI_MINOR_def)

lemma version_lt_less: "FI_VERSION_LT v1 v2 \<longleftrightarrow> v1 < v2"
  unfolding FI_VERSION_LT_def word_less_nat_alt word_unat_eq_iff
  using unat_split16 [of v1] unat_split16 [of v2] unat_minor_less [of v1] unat_minor_less [of v2] by linarith

lemma version_ge_le: "FI_VERSION_GE v1 v2 \<longleftrightarrow> v2 \<le> v1"
  unfolding FI_VERSION_GE_def word_less_nat_alt word_le_nat_alt word_unat_eq_iff
  using unat_split16 [of v1] unat_split16 [of v2] unat_minor_less [of v1] unat_minor_less [of v2] by linarith

text \<open>A flag is set exactly when its bit is.\<close>

lemma and_flag: "(x :: 'a::len word) AND push_bit k 1 \<noteq> 0 \<longleftrightarrow> bit x k"
  by (metis and.commute and_exp_eq_0_iff_not_bit push_bit_of_1)

lemma subset_bits: "(x :: 'a::len word) AND NOT y = 0 \<longleftrightarrow> (\<forall>n. bit x n \<longrightarrow> bit y n)"
  by (auto simp: bit_eq_iff bit_simps dest: bit_imp_le_length)

lemma absorb_bits: "(x :: 'a::len word) AND y = y \<longleftrightarrow> (\<forall>n. bit y n \<longrightarrow> bit x n)"
  by (auto simp: bit_eq_iff bit_simps dest: bit_imp_le_length)

lemma strstr_Some:
  "strstr s p = Some i \<Longrightarrow> \<exists>b. s = take i s @ p @ b \<and> i + length p \<le> length s"
proof (induction s p arbitrary: i rule: strstr.induct)
  case (2 c s p)
  show ?case
  proof (cases "take (length p) (c # s) = p")
    case True
    then have "c # s = p @ drop (length p) (c # s)" by (metis append_take_drop_id)
    moreover have "length p \<le> length (c # s)" using True by (metis length_take min.cobounded1 min.commute)
    ultimately show ?thesis using 2(2) True by auto
  next
    case False
    then obtain j where j: "strstr s p = Some j" "i = Suc j" using 2(2) by auto
    from 2(1) [OF False j(1)] show ?thesis by (auto simp: j)
  qed
qed (auto split: if_splits)

lemma strstr_None_iff: "strstr s p = None \<longleftrightarrow> (\<nexists>a b. s = a @ p @ b)"
proof (induction s p rule: strstr.induct)
  case (2 c s p)
  show ?case
  proof (cases "take (length p) (c # s) = p")
    case True
    then have "c # s = [] @ p @ drop (length p) (c # s)" by (metis append_take_drop_id append_Nil)
    then have "\<exists>a b. c # s = a @ p @ b" by blast
    then show ?thesis using True by simp
  next
    case False
    have "c # s = a @ p @ b \<Longrightarrow> a \<noteq> []" for a b using False by auto
    then have "(\<exists>a b. c # s = a @ p @ b) \<longleftrightarrow> (\<exists>a b. s = a @ p @ b)"
      by (metis append_Cons append_eq_Cons_conv)
    then show ?thesis using False 2 by auto
  qed
qed auto

fun join :: "char \<Rightarrow> string list \<Rightarrow> string" where
  "join d [] = []"
| "join d [a] = a"
| "join d (a # b # xs) = a @ d # join d (b # xs)"

lemma join_Cons: "xs \<noteq> [] \<Longrightarrow> join d (a # xs) = a @ d # join d xs"
  by (cases xs) auto

lemma split_count_no_delim: "set s \<inter> set d = {} \<Longrightarrow> split_count s d = 1"
  by (induction s) auto

lemma split_count_append:
  "set a \<inter> set d = {} \<Longrightarrow> c \<in> set d \<Longrightarrow> split_count (a @ c # r) d = Suc (split_count r d)"
  by (induction a) auto

lemma dropWhile_Cons_hd: "dropWhile P s = c # r \<Longrightarrow> \<not> P c"
  by (induction s) (auto split: if_splits)

lemma strsep_cases:
  obtains (last) "strsep s d = (s, None)" "set s \<inter> set d = {}"
  | (piece) a c r where "strsep s d = (a, Some r)" "s = a @ c # r" "set a \<inter> set d = {}" "c \<in> set d"
proof (cases "dropWhile (\<lambda>c. c \<notin> set d) s")
  case Nil
  then have "takeWhile (\<lambda>c. c \<notin> set d) s = s" "set s \<inter> set d = {}"
    by (auto simp: dropWhile_eq_Nil_conv takeWhile_eq_all_conv)
  then show thesis using Nil by (intro last) (simp_all only: strsep_def list.case)
next
  case (Cons c r)
  have "s = takeWhile (\<lambda>c. c \<notin> set d) s @ c # r" by (metis Cons takeWhile_dropWhile_id)
  moreover have "c \<in> set d" using dropWhile_Cons_hd [OF Cons] by simp
  moreover have "set (takeWhile (\<lambda>c. c \<notin> set d) s) \<inter> set d = {}" by (auto dest: set_takeWhileD)
  ultimately show thesis using Cons by (intro piece) (simp_all add: strsep_def)
qed

lemma strsep_loop_nonempty: "strsep_loop (Some s) d \<noteq> []"
  by (simp add: case_prod_unfold Let_def)

lemma strsep_loop_spec:
  "length (strsep_loop (Some s) d) = split_count s d \<and> (\<forall>a \<in> set (strsep_loop (Some s) d). set a \<inter> set d = {})"
proof (induction s rule: measure_induct_rule [of length])
  case (less s)
  show ?case
  proof (cases s d rule: strsep_cases)
    case last
    then show ?thesis by (auto simp: split_count_no_delim)
  next
    case (piece a c r)
    then show ?thesis using less [of r] by (auto simp: split_count_append)
  qed
qed

lemma strsep_loop_join: "join c (strsep_loop (Some s) [c]) = s"
proof (induction s rule: measure_induct_rule [of length])
  case (less s)
  show ?case
  proof (cases s "[c]" rule: strsep_cases)
    case (piece a c' r)
    then show ?thesis using less [of r] strsep_loop_nonempty [of r "[c]"] by (simp add: join_Cons)
  qed auto
qed


text \<open>The buffers a structure points to have the lengths it records.\<close>

definition info_sized :: "fi_info \<Rightarrow> bool" where
  "info_sized info \<longleftrightarrow>
    (case fi_src_addr info of None \<Rightarrow> True | Some a \<Rightarrow> length a = unat (fi_src_addrlen info)) \<and>
    (case fi_dest_addr info of None \<Rightarrow> True | Some a \<Rightarrow> length a = unat (fi_dest_addrlen info)) \<and>
    (case fi_ep_attr info of None \<Rightarrow> True | Some e \<Rightarrow>
       (case ep_auth_key e of None \<Rightarrow> True | Some k \<Rightarrow> length k = unat (ep_auth_key_size e))) \<and>
    (case fi_domain_attr info of None \<Rightarrow> True | Some d \<Rightarrow>
       (case dom_auth_key d of None \<Rightarrow> True | Some k \<Rightarrow> length k = unat (dom_auth_key_size d)))"

lemma dup_addrs_ok:
  "ok 1 \<Longrightarrow> ok 2 \<Longrightarrow> info_sized info \<Longrightarrow> fi_src_addr dup = None \<Longrightarrow> fi_dest_addr dup = None \<Longrightarrow>
    dup_addrs ok info dup = Inr (dup\<lparr>fi_src_addr := fi_src_addr info, fi_dest_addr := fi_dest_addr info\<rparr>)"
  by (cases dup; cases "fi_src_addr info"; cases "fi_dest_addr info")
    (simp_all add: dup_addrs_def info_sized_def mem_dup_def)

lemma dup_xfer_attrs_ok:
  "ok 3 \<Longrightarrow> ok 4 \<Longrightarrow> fi_tx_attr dup = None \<Longrightarrow> fi_rx_attr dup = None \<Longrightarrow>
    dup_xfer_attrs ok info dup = Inr (dup\<lparr>fi_tx_attr := fi_tx_attr info, fi_rx_attr := fi_rx_attr info\<rparr>)"
  by (cases dup; cases "fi_tx_attr info"; cases "fi_rx_attr info") (simp_all add: dup_xfer_attrs_def)

lemma dup_ep_attr_ok:
  "ok 5 \<Longrightarrow> ok 6 \<Longrightarrow> info_sized info \<Longrightarrow> fi_ep_attr dup = None \<Longrightarrow>
    dup_ep_attr ok info dup = Inr (dup\<lparr>fi_ep_attr := fi_ep_attr info\<rparr>)"
  by (cases dup; cases "fi_ep_attr info"; cases "ep_auth_key (the (fi_ep_attr info))")
    (simp_all add: dup_ep_attr_def info_sized_def mem_dup_def)

lemma dup_domain_attr_ok:
  "ok 7 \<Longrightarrow> ok 8 \<Longrightarrow> ok 9 \<Longrightarrow> info_sized info \<Longrightarrow> fi_domain_attr dup = None \<Longrightarrow>
    dup_domain_attr ok info dup = Inr (dup\<lparr>fi_domain_attr := fi_domain_attr info\<rparr>)"
  by (cases dup; cases "fi_domain_attr info"; cases "the (fi_domain_attr info)";
      cases "dom_name (the (fi_domain_attr info))"; cases "dom_auth_key (the (fi_domain_attr info))")
    (simp_all add: dup_domain_attr_def info_sized_def mem_dup_def Let_def)

lemma dup_fabric_attr_ok:
  "ok 10 \<Longrightarrow> ok 11 \<Longrightarrow> ok 12 \<Longrightarrow> fi_fabric_attr dup = None \<Longrightarrow>
    dup_fabric_attr ok info dup = Inr (dup\<lparr>fi_fabric_attr := fi_fabric_attr info\<rparr>)"
  by (cases dup; cases "fi_fabric_attr info"; cases "the (fi_fabric_attr info)";
      cases "fab_name (the (fi_fabric_attr info))"; cases "fab_prov_name (the (fi_fabric_attr info))")
    (simp_all add: dup_fabric_attr_def Let_def)

lemma dupinfo_ok:
  assumes "\<forall>i. ok i" and "info_sized info" and "\<And>n. fi_nic info = Some n \<Longrightarrow> nic_dup n = Inr (f n)"
  shows "fi_dupinfo ok nic_dup closable (Some info) = (Some (info\<lparr>fi_nic := map_option f (fi_nic info)\<rparr>), [])"
  using assms by (cases "fi_nic info"; cases info)
    (simp_all add: fi_dupinfo_def dup_addrs_ok dup_xfer_attrs_ok dup_ep_attr_ok dup_domain_attr_ok
      dup_fabric_attr_ok dup_nic_def Let_def)

text \<open>No step of the copy touches the interface pointer, which is the source's until \<open>FI_DUP\<close>:
  \<open>dup_keeps_nic\<close> says it of the copy a step ends with, failed or not.\<close>

definition dup_keeps_nic :: "(fi_info \<Rightarrow> fi_info + fi_info) \<Rightarrow> bool" where
  "dup_keeps_nic f \<longleftrightarrow> (\<forall>dup. (case f dup of Inl d \<Rightarrow> fi_nic d = fi_nic dup | Inr d \<Rightarrow> fi_nic d = fi_nic dup))"

lemma dup_addrs_nic: "dup_keeps_nic (dup_addrs ok info)"
  unfolding dup_keeps_nic_def dup_addrs_def by (cases "fi_src_addr info"; cases "fi_dest_addr info") simp_all

lemma dup_xfer_attrs_nic: "dup_keeps_nic (dup_xfer_attrs ok info)"
  unfolding dup_keeps_nic_def dup_xfer_attrs_def by (cases "fi_tx_attr info"; cases "fi_rx_attr info") simp_all

lemma dup_ep_attr_nic: "dup_keeps_nic (dup_ep_attr ok info)"
  unfolding dup_keeps_nic_def dup_ep_attr_def by (auto split: option.split)

lemma dup_domain_attr_nic: "dup_keeps_nic (dup_domain_attr ok info)"
  unfolding dup_keeps_nic_def dup_domain_attr_def
  by (cases "fi_domain_attr info"; cases "dom_name (the (fi_domain_attr info))";
      cases "dom_auth_key (the (fi_domain_attr info))") (simp_all add: Let_def)

lemma dup_fabric_attr_nic: "dup_keeps_nic (dup_fabric_attr ok info)"
  unfolding dup_keeps_nic_def dup_fabric_attr_def
  by (cases "fi_fabric_attr info"; cases "fab_name (the (fi_fabric_attr info))";
      cases "fab_prov_name (the (fi_fabric_attr info))") (simp_all add: Let_def)

lemma dup_nic_Inl: "dup_nic f info dup = Inl d \<Longrightarrow> d = dup"
  by (auto simp: dup_nic_def split: option.splits sum.splits if_splits)

lemma keeps_nic_and_then:
  assumes "and_then (f dup) g = Inl d" and "dup_keeps_nic f"
    and "\<And>dup'. g dup' = Inl d \<Longrightarrow> fi_nic d = fi_nic dup'"
  shows "fi_nic d = fi_nic dup"
  using assms(1,3) spec [OF assms(2) [unfolded dup_keeps_nic_def], of dup] by (cases "f dup") auto

lemma dup_chain_nic:
  "and_then (dup_addrs ok info dup) (\<lambda>dup. and_then (dup_xfer_attrs ok info dup) (\<lambda>dup.
    and_then (dup_ep_attr ok info dup) (\<lambda>dup. and_then (dup_domain_attr ok info dup) (\<lambda>dup.
    and_then (dup_fabric_attr ok info dup) (dup_nic nic_dup info))))) = Inl d \<Longrightarrow> fi_nic d = fi_nic dup"
  apply (erule keeps_nic_and_then, rule dup_addrs_nic)
  apply (erule keeps_nic_and_then, rule dup_xfer_attrs_nic)
  apply (erule keeps_nic_and_then, rule dup_ep_attr_nic)
  apply (erule keeps_nic_and_then, rule dup_domain_attr_nic)
  apply (erule keeps_nic_and_then, rule dup_fabric_attr_nic)
  apply (drule dup_nic_Inl, simp)
  done

subsection \<open>Properties\<close>

text \<open>C25. Splitting a string at a delimiter loses nothing: when its two allocations succeed,
  \<open>ofi_split_and_alloc\<close> passes its assertion, reports the length of the array it returns, no piece
  contains the delimiter, and the pieces joined with the delimiter are the string.\<close>

theorem split_and_alloc_roundtrip:
  assumes "ok 0" and "ok 1"
  shows "\<exists>arr. ofi_split_and_alloc ok (Some s) (Some [c]) = Some (Some (arr, length arr)) \<and>
    (\<forall>a \<in> set arr. c \<notin> set a) \<and> join c arr = s"
  using strsep_loop_spec [of s "[c]"] strsep_loop_join [of c s] assms
  by (intro exI [of _ "strsep_loop (Some s) [c]"]) (auto simp: ofi_split_and_alloc_def Let_def)

theorem split_and_alloc_roundtrip_witness:
  "\<exists>arr. ofi_split_and_alloc (\<lambda>_. True) (Some ''verbs;ofi_rxm'') (Some '';'') = Some (Some (arr, length arr)) \<and>
    join (CHR '';'') arr = ''verbs;ofi_rxm''"
  using split_and_alloc_roundtrip [of "\<lambda>_. True" "''verbs;ofi_rxm''" "CHR '';''"] by blast

text \<open>C26. When every allocation and the provider's \<open>FI_DUP\<close> succeed, \<open>fi_dupinfo\<close> returns a copy equal
  in every field but the interface object, which is the duplicate, and closes nothing.\<close>

theorem dupinfo_copies:
  assumes "\<forall>i. ok i" and "info_sized info" and "fi_nic info = Some n" and "nic_dup n = Inr n'"
  shows "fi_dupinfo ok nic_dup closable (Some info) = (Some (info\<lparr>fi_nic := Some n'\<rparr>), [])"
  using dupinfo_ok [OF assms(1,2), of nic_dup "\<lambda>_. n'"] assms(3,4) by simp

theorem dupinfo_copies_witness:
  "fi_dupinfo (\<lambda>_. True) (\<lambda>n. Inr (n + 1)) (\<lambda>_. True)
      (Some (info0\<lparr>fi_src_addrlen := 2, fi_src_addr := Some [1, 2], fi_nic := Some 7\<rparr>)) =
    (Some (info0\<lparr>fi_src_addrlen := 2, fi_src_addr := Some [1, 2], fi_nic := Some 8\<rparr>), [])"
  using dupinfo_copies [of "\<lambda>_. True" "info0\<lparr>fi_src_addrlen := 2, fi_src_addr := Some [1, 2], fi_nic := Some 7\<rparr>"
      7 "\<lambda>n. Inr (n + 1)" 8 "\<lambda>_. True"]
  by (simp add: info_sized_def info0_def)

text \<open>The failure path of \<open>fi_dupinfo\<close> damages its source: the copy starts with the source's
  interface pointer and \<open>fi_freeinfo\<close> on the partial copy closes it, so whenever duplication fails
  after the first allocation, the interface object of the source is closed while the source still
  refers to it.\<close>

theorem dupinfo_failure_closes_source_nic:
  assumes "ok 0" and "fi_nic info = Some n" and "closable n"
    and "fi_dupinfo ok nic_dup closable (Some info) = (None, closed)"
  shows "closed = [n]"
  using assms by (auto simp: fi_dupinfo_def Let_def dest!: dup_chain_nic split: sum.splits)

theorem dupinfo_failure_closes_source_nic_witness:
  "fi_dupinfo (\<lambda>i. i \<noteq> 1) (\<lambda>n. Inr (n + 1)) (\<lambda>_. True)
      (Some (info0\<lparr>fi_src_addrlen := 2, fi_src_addr := Some [1, 2], fi_nic := Some 7\<rparr>)) = (None, [7])"
proof -
  let ?i = "info0\<lparr>fi_src_addrlen := 2, fi_src_addr := Some [1, 2], fi_nic := Some 7\<rparr>"
  obtain closed where c: "fi_dupinfo (\<lambda>i. i \<noteq> 1) (\<lambda>n. Inr (n + 1)) (\<lambda>_. True) (Some ?i) = (None, closed)"
    by (simp add: fi_dupinfo_def dup_addrs_def info0_def Let_def)
  then show ?thesis using dupinfo_failure_closes_source_nic [OF _ _ _ c, of 7] by simp
qed

end
