(* ===== verification/Ofi_Attr.thy ===== *)
theory Ofi_Attr
  imports Ofi_Fabric
begin

unbundle bit_operations_syntax

section \<open>Attribute checks and hints (\<^verbatim>\<open>prov/util/src/util_attr.c\<close>)\<close>

text \<open>
  The checks that compare what an application asks for with what a provider offers, and the
  functions that then alter the provider's \<open>fi_info\<close> to the application's hints.  A check returns
  \<open>Inr ()\<close> or \<open>Inl FI_ENODATA\<close>; the log messages are left out.  The attribute pointers of a
  provider's \<open>fi_info\<close>, which the code dereferences without a test, are read with \<open>the\<close>, and the
  theorems ask for \<open>info_complete\<close>.
\<close>

subsection \<open>Definitions\<close>

definition fi_valid_addr_format :: "u32 \<Rightarrow> u32 \<Rightarrow> bool" where
  "fi_valid_addr_format prov_format user_format =
    (if user_format = FI_FORMAT_UNSPEC \<or> prov_format = FI_FORMAT_UNSPEC then True
     else if prov_format = FI_SOCKADDR then user_format \<le> FI_SOCKADDR_IN6
     else if prov_format = FI_SOCKADDR_IN then user_format \<le> FI_SOCKADDR_IN
     else if prov_format = FI_SOCKADDR_IN6 then user_format \<le> FI_SOCKADDR_IN6
     else if prov_format = FI_SOCKADDR_IB then user_format \<le> FI_SOCKADDR_IB
     else prov_format = user_format)"

definition ofi_check_fabric_attr :: "fi_fabric_attr \<Rightarrow> fi_fabric_attr \<Rightarrow> unit fi_result" where
  "ofi_check_fabric_attr prov_attr user_attr =
    (if fab_prov_version user_attr > fab_prov_version prov_attr then Inl FI_ENODATA
     else if FI_VERSION_LT (fab_api_version user_attr) (fab_api_version prov_attr) then Inl FI_ENODATA
     else Inr ())"

fun fi_thread_level :: "fi_threading \<Rightarrow> int" where
  "fi_thread_level FI_THREAD_SAFE = 1"
| "fi_thread_level FI_THREAD_FID = 2"
| "fi_thread_level FI_THREAD_ENDPOINT = 3"
| "fi_thread_level FI_THREAD_COMPLETION = 4"
| "fi_thread_level FI_THREAD_DOMAIN = 5"
| "fi_thread_level FI_THREAD_UNSPEC = 6"
| "fi_thread_level _ = -1"

fun fi_progress_level :: "fi_progress \<Rightarrow> int" where
  "fi_progress_level FI_PROGRESS_AUTO = 1"
| "fi_progress_level FI_PROGRESS_MANUAL = 2"
| "fi_progress_level FI_PROGRESS_UNSPEC = 3"
| "fi_progress_level _ = -1"

fun fi_resource_mgmt_level :: "fi_resource_mgmt \<Rightarrow> int" where
  "fi_resource_mgmt_level FI_RM_ENABLED = 1"
| "fi_resource_mgmt_level FI_RM_DISABLED = 2"
| "fi_resource_mgmt_level FI_RM_UNSPEC = 3"
| "fi_resource_mgmt_level _ = -1"

definition ofi_cap_mr_mode :: "u64 \<Rightarrow> u32 \<Rightarrow> u32" where
  "ofi_cap_mr_mode info_caps mr_mode =
    (if \<not> ofi_rma_target_allowed info_caps
     then if mr_mode AND FI_MR_LOCAL = 0 then 0
          else mr_mode AND NOT OFI_MR_MODE_RMA_TARGET AND NOT (FI_MR_BASIC OR FI_MR_SCALABLE)
     else mr_mode AND NOT (FI_MR_BASIC OR FI_MR_SCALABLE))"

definition ofi_check_mr_mode :: "u32 \<Rightarrow> u32 \<Rightarrow> fi_info \<Rightarrow> unit fi_result" where
  "ofi_check_mr_mode api_version prov_mode user_info =
    (let user_mode = dom_mr_mode (the (fi_domain_attr user_info))
     in if prov_mode AND FI_MR_LOCAL \<noteq> 0 \<and>
           \<not> (fi_mode user_info AND FI_LOCAL_MR \<noteq> 0 \<or> user_mode AND FI_MR_LOCAL \<noteq> 0)
        then Inl FI_ENODATA
        else if FI_VERSION_LT api_version (FI_VERSION 1 5)
        then if user_mode = FI_MR_UNSPEC
             then if prov_mode AND (FI_MR_SCALABLE OR FI_MR_BASIC) = 0 then Inl FI_ENODATA else Inr ()
             else if user_mode = FI_MR_BASIC
             then if prov_mode AND FI_MR_BASIC = 0 then Inl FI_ENODATA else Inr ()
             else if user_mode = FI_MR_SCALABLE
             then if prov_mode AND FI_MR_SCALABLE = 0 then Inl FI_ENODATA else Inr ()
             else Inl FI_ENODATA
        else if user_mode AND FI_MR_BASIC \<noteq> 0
        then if user_mode AND NOT FI_MR_BASIC \<noteq> 0 \<or> prov_mode AND FI_MR_BASIC = 0 then Inl FI_ENODATA
             else Inr ()
        else if user_mode AND FI_MR_SCALABLE \<noteq> 0
        then if user_mode AND NOT FI_MR_SCALABLE \<noteq> 0 \<or> prov_mode AND FI_MR_SCALABLE = 0
             then Inl FI_ENODATA else Inr ()
        else let prov_mode = ofi_cap_mr_mode (fi_caps user_info) prov_mode
             in if user_mode AND prov_mode \<noteq> prov_mode then Inl FI_ENODATA else Inr ())"

definition ofi_check_domain_attr :: "u32 \<Rightarrow> fi_domain_attr \<Rightarrow> fi_info \<Rightarrow> unit fi_result" where
  "ofi_check_domain_attr api_version prov_attr user_info =
    (let user_attr = the (fi_domain_attr user_info)
     in if dom_name prov_attr \<noteq> None \<and> dom_name user_attr \<noteq> None \<and>
           \<not> strcaseeq (the (dom_name user_attr)) (the (dom_name prov_attr)) then Inl FI_ENODATA
        else if fi_thread_level (dom_threading user_attr) < fi_thread_level (dom_threading prov_attr)
        then Inl FI_ENODATA
        else if fi_progress_level (dom_control_progress user_attr) <
                fi_progress_level (dom_control_progress prov_attr) then Inl FI_ENODATA
        else if fi_progress_level (dom_data_progress user_attr) <
                fi_progress_level (dom_data_progress prov_attr) then Inl FI_ENODATA
        else if fi_resource_mgmt_level (dom_resource_mgmt user_attr) <
                fi_resource_mgmt_level (dom_resource_mgmt prov_attr) then Inl FI_ENODATA
        else if dom_av_type prov_attr \<noteq> FI_AV_UNSPEC \<and> dom_av_type user_attr \<noteq> FI_AV_UNSPEC \<and>
                dom_av_type prov_attr \<noteq> dom_av_type user_attr then Inl FI_ENODATA
        else if dom_cq_data_size user_attr > dom_cq_data_size prov_attr then Inl FI_ENODATA
        else if ofi_check_mr_mode api_version (dom_mr_mode prov_attr) user_info \<noteq> Inr ()
        then Inl FI_ENODATA
        else if FI_VERSION_LT api_version (FI_VERSION 1 5) then Inr ()
        else if dom_cntr_cnt user_attr > dom_cntr_cnt prov_attr then Inl FI_ENODATA
        else if dom_mr_iov_limit user_attr > dom_mr_iov_limit prov_attr then Inl FI_ENODATA
        else if dom_caps user_attr AND NOT (dom_caps prov_attr) \<noteq> 0 then Inl FI_ENODATA
        else if dom_mode user_attr AND dom_mode prov_attr \<noteq> dom_mode prov_attr then Inl FI_ENODATA
        else if dom_max_err_data user_attr > dom_max_err_data prov_attr then Inl FI_ENODATA
        else if dom_mr_cnt user_attr > dom_mr_cnt prov_attr then Inl FI_ENODATA
        else Inr ())"

definition ofi_check_ep_type :: "fi_ep_attr \<Rightarrow> fi_ep_attr \<Rightarrow> unit fi_result" where
  "ofi_check_ep_type prov_attr user_attr =
    (if ep_type user_attr \<noteq> FI_EP_UNSPEC \<and> ep_type prov_attr \<noteq> FI_EP_UNSPEC \<and>
        ep_type user_attr \<noteq> ep_type prov_attr then Inl FI_ENODATA
     else Inr ())"

text \<open>The test of a requested context count against the provider's limits, which the code has once
  for transmit and once for receive contexts.\<close>

definition check_ctx_cnt :: "size_t \<Rightarrow> size_t \<Rightarrow> size_t \<Rightarrow> bool" where
  "check_ctx_cnt cnt max_ctx max_shared =
    (if cnt > max_ctx then if cnt = FI_SHARED_CONTEXT then max_shared \<noteq> 0 else False else True)"

definition ofi_check_ep_attr :: "fi_info \<Rightarrow> fi_info \<Rightarrow> unit fi_result" where
  "ofi_check_ep_attr prov_info user_info =
    (let prov_attr = the (fi_ep_attr prov_info); user_attr = the (fi_ep_attr user_info);
         dom = the (fi_domain_attr prov_info)
     in if ofi_check_ep_type prov_attr user_attr \<noteq> Inr () then ofi_check_ep_type prov_attr user_attr
        else if ep_protocol user_attr \<noteq> FI_PROTO_UNSPEC \<and> ep_protocol user_attr \<noteq> ep_protocol prov_attr
        then Inl FI_ENODATA
        else if ep_protocol_version user_attr \<noteq> 0 \<and>
                ep_protocol_version user_attr > ep_protocol_version prov_attr then Inl FI_ENODATA
        else if ep_max_msg_size user_attr > ep_max_msg_size prov_attr then Inl FI_ENODATA
        else if \<not> check_ctx_cnt (ep_tx_ctx_cnt user_attr) (dom_max_ep_tx_ctx dom) (dom_max_ep_stx_ctx dom)
        then Inl FI_ENODATA
        else if \<not> check_ctx_cnt (ep_rx_ctx_cnt user_attr) (dom_max_ep_rx_ctx dom) (dom_max_ep_srx_ctx dom)
        then Inl FI_ENODATA
        else if fi_caps user_info AND (FI_RMA OR FI_ATOMIC) \<noteq> 0 \<and>
                (ep_max_order_raw_size user_attr > ep_max_order_raw_size prov_attr \<or>
                 ep_max_order_war_size user_attr > ep_max_order_war_size prov_attr \<or>
                 ep_max_order_waw_size user_attr > ep_max_order_waw_size prov_attr) then Inl FI_ENODATA
        else if ep_auth_key_size user_attr \<noteq> 0 \<and>
                ep_auth_key_size user_attr \<noteq> ep_auth_key_size prov_attr then Inl FI_ENODATA
        else Inr ())"

definition ofi_check_rx_attr :: "fi_info \<Rightarrow> fi_rx_attr \<Rightarrow> u64 \<Rightarrow> unit fi_result" where
  "ofi_check_rx_attr prov_info user_attr info_mode =
    (let prov_attr = the (fi_rx_attr prov_info);
         info_mode = (if rx_mode user_attr \<noteq> 0 then rx_mode user_attr else info_mode)
     in if rx_caps user_attr AND NOT (rx_caps prov_attr) \<noteq> 0 then Inl FI_ENODATA
        else if info_mode AND rx_mode prov_attr \<noteq> rx_mode prov_attr then Inl FI_ENODATA
        else if rx_op_flags user_attr AND NOT (rx_op_flags prov_attr) \<noteq> 0 then Inl FI_ENODATA
        else if rx_msg_order user_attr AND NOT (rx_msg_order prov_attr) \<noteq> 0 then Inl FI_ENODATA
        else if rx_comp_order user_attr AND NOT (rx_comp_order prov_attr) \<noteq> 0 then Inl FI_ENODATA
        else if rx_total_buffered_recv user_attr > rx_total_buffered_recv prov_attr then Inl FI_ENODATA
        else if rx_size user_attr > rx_size prov_attr then Inl FI_ENODATA
        else if rx_iov_limit user_attr > rx_iov_limit prov_attr then Inl FI_ENODATA
        else Inr ())"

definition ofi_expand_caps :: "u64 \<Rightarrow> u64" where
  "ofi_expand_caps base_caps =
    (let msg_caps = FI_SEND OR FI_RECV;
         rma_caps = FI_WRITE OR FI_READ OR FI_REMOTE_WRITE OR FI_REMOTE_READ;
         c1 = (if base_caps AND (FI_MSG OR FI_TAGGED) \<noteq> 0 \<and> base_caps AND msg_caps = 0
               then base_caps OR msg_caps else base_caps)
     in if base_caps AND (FI_RMA OR FI_ATOMIC) \<noteq> 0 \<and> base_caps AND rma_caps = 0
        then c1 OR rma_caps else c1)"

definition ofi_check_attr_subset :: "u64 \<Rightarrow> u64 \<Rightarrow> unit fi_result" where
  "ofi_check_attr_subset base_caps requested_caps =
    (if NOT (ofi_expand_caps base_caps) AND requested_caps \<noteq> 0 then Inl FI_ENODATA else Inr ())"

definition ofi_check_tx_attr :: "fi_tx_attr \<Rightarrow> fi_tx_attr \<Rightarrow> u64 \<Rightarrow> unit fi_result" where
  "ofi_check_tx_attr prov_attr user_attr info_mode =
    (let info_mode = (if tx_mode user_attr \<noteq> 0 then tx_mode user_attr else info_mode)
     in if tx_caps user_attr AND NOT (tx_caps prov_attr) \<noteq> 0 then Inl FI_ENODATA
        else if info_mode AND tx_mode prov_attr \<noteq> tx_mode prov_attr then Inl FI_ENODATA
        else if tx_op_flags user_attr AND NOT (tx_op_flags prov_attr) \<noteq> 0 then Inl FI_ENODATA
        else if tx_msg_order user_attr AND NOT (tx_msg_order prov_attr) \<noteq> 0 then Inl FI_ENODATA
        else if tx_comp_order user_attr AND NOT (tx_comp_order prov_attr) \<noteq> 0 then Inl FI_ENODATA
        else if tx_inject_size user_attr > tx_inject_size prov_attr then Inl FI_ENODATA
        else if tx_size user_attr > tx_size prov_attr then Inl FI_ENODATA
        else if tx_iov_limit user_attr > tx_iov_limit prov_attr then Inl FI_ENODATA
        else if tx_rma_iov_limit user_attr > tx_rma_iov_limit prov_attr then Inl FI_ENODATA
        else Inr ())"

definition ofi_mr_get_prov_mode :: "u32 \<Rightarrow> fi_info \<Rightarrow> fi_info \<Rightarrow> u64" where
  "ofi_mr_get_prov_mode version user_info prov_info =
    (if FI_VERSION_LT version (FI_VERSION 1 5) \<or>
        (case fi_domain_attr user_info of None \<Rightarrow> False | Some d \<Rightarrow> dom_mr_mode d AND FI_MR_LOCAL = 0)
     then if dom_mr_mode (the (fi_domain_attr prov_info)) AND FI_MR_LOCAL \<noteq> 0
          then fi_mode prov_info OR FI_LOCAL_MR else fi_mode prov_info
     else fi_mode prov_info)"

text \<open>Runs a check on an attribute of the hints when the hints have it.\<close>

definition check_opt :: "'a option \<Rightarrow> ('a \<Rightarrow> unit fi_result) \<Rightarrow> unit fi_result" where
  "check_opt attr chk = (case attr of None \<Rightarrow> Inr () | Some a \<Rightarrow> chk a)"

definition ofi_check_info :: "fi_info \<Rightarrow> u32 \<Rightarrow> fi_info option \<Rightarrow> unit fi_result" where
  "ofi_check_info prov_info api_version user_info_ptr =
    (case user_info_ptr of
       None \<Rightarrow> Inr ()
     | Some user_info \<Rightarrow>
         and_then (check_opt (fi_ep_attr user_info) (ofi_check_ep_type (the (fi_ep_attr prov_info)))) (\<lambda>_.
         if fi_caps user_info AND NOT (fi_caps prov_info) \<noteq> 0 then Inl FI_ENODATA
         else let prov_mode = ofi_mr_get_prov_mode api_version user_info prov_info
         in if fi_mode user_info AND prov_mode \<noteq> prov_mode then Inl FI_ENODATA
         else if \<not> fi_valid_addr_format (fi_addr_format prov_info) (fi_addr_format user_info)
         then Inl FI_ENODATA
         else
         and_then (check_opt (fi_fabric_attr user_info)
             (ofi_check_fabric_attr (the (fi_fabric_attr prov_info)))) (\<lambda>_.
         and_then (check_opt (fi_domain_attr user_info)
             (\<lambda>_. ofi_check_domain_attr api_version (the (fi_domain_attr prov_info)) user_info)) (\<lambda>_.
         and_then (check_opt (fi_ep_attr user_info) (\<lambda>_. ofi_check_ep_attr prov_info user_info)) (\<lambda>_.
         and_then (check_opt (fi_rx_attr user_info)
             (\<lambda>rx. ofi_check_rx_attr prov_info rx (fi_mode user_info))) (\<lambda>_.
         check_opt (fi_tx_attr user_info)
             (\<lambda>tx. ofi_check_tx_attr (the (fi_tx_attr prov_info)) tx (fi_mode user_info))))))))"

text \<open>\<open>util_prov->info\<close> is the list of the provider's \<open>fi_info\<close>.\<close>

primrec count_success :: "u32 \<Rightarrow> fi_info option \<Rightarrow> fi_info list \<Rightarrow> size_t" where
  "count_success api_version user_info [] = 0"
| "count_success api_version user_info (p # ps) =
    (if ofi_check_info p api_version user_info = Inr () then 1 else 0) + count_success api_version user_info ps"

definition ofi_prov_check_info :: "fi_info list \<Rightarrow> u32 \<Rightarrow> fi_info option \<Rightarrow> unit fi_result" where
  "ofi_prov_check_info prov_infos api_version user_info =
    (if user_info = None then Inr ()
     else if count_success api_version user_info prov_infos = 0 then Inl FI_ENODATA else Inr ())"

text \<open>The loop of \<open>ofi_prov_check_dup_info\<close>: \<open>ok k\<close> answers the allocations of the duplicate of the
  \<open>k\<close>-th provider entry, \<open>acc\<close> is the list built so far.  The second component of the results are
  the interface objects closed on the way.\<close>

fun check_dup_loop ::
    "(nat \<Rightarrow> nat \<Rightarrow> bool) \<Rightarrow> (fid \<Rightarrow> fid fi_result) \<Rightarrow> (fid \<Rightarrow> bool) \<Rightarrow> u32 \<Rightarrow> fi_info option \<Rightarrow>
      nat \<Rightarrow> fi_info list \<Rightarrow> fi_info list \<Rightarrow> fi_info list fi_result \<times> fid list" where
  "check_dup_loop ok nic_dup closable api_version user_info k acc [] =
    (if acc = [] then Inl FI_ENODATA else Inr acc, [])"
| "check_dup_loop ok nic_dup closable api_version user_info k acc (p # ps) =
    (if ofi_check_info p api_version user_info \<noteq> Inr ()
     then check_dup_loop ok nic_dup closable api_version user_info (Suc k) acc ps
     else case fi_dupinfo (ok k) nic_dup closable (Some p) of
            (None, closed) \<Rightarrow> (Inl FI_ENOMEM, closed @ fi_freeinfo closable acc)
          | (Some fi, closed) \<Rightarrow>
              check_dup_loop ok nic_dup closable api_version user_info (Suc k) (acc @ [fi]) ps)"

definition ofi_prov_check_dup_info ::
    "(nat \<Rightarrow> nat \<Rightarrow> bool) \<Rightarrow> (fid \<Rightarrow> fid fi_result) \<Rightarrow> (fid \<Rightarrow> bool) \<Rightarrow> fi_info list \<Rightarrow> u32 \<Rightarrow>
      fi_info option \<Rightarrow> bool \<Rightarrow> fi_info list fi_result \<times> fid list" where
  "ofi_prov_check_dup_info ok nic_dup closable prov_infos api_version user_info info_given =
    (if \<not> info_given then (Inl FI_EINVAL, [])
     else check_dup_loop ok nic_dup closable api_version user_info 0 [] prov_infos)"

definition OFI_MSG_CAPS :: u64 where [fi_consts]:
  "OFI_MSG_CAPS = FI_SEND OR FI_RECV"

definition OFI_RMA_CAPS :: u64 where [fi_consts]:
  "OFI_RMA_CAPS = FI_READ OR FI_WRITE OR FI_REMOTE_READ OR FI_REMOTE_WRITE"

definition ofi_get_caps :: "u64 \<Rightarrow> u64 \<Rightarrow> u64 \<Rightarrow> u64" where
  "ofi_get_caps info_caps hint_caps attr_caps =
    (let caps = (if hint_caps = 0
                 then (info_caps AND attr_caps AND FI_PRIMARY_CAPS) OR (attr_caps AND FI_SECONDARY_CAPS)
                 else (hint_caps AND FI_PRIMARY_CAPS) OR (attr_caps AND FI_SECONDARY_CAPS));
         caps = (if caps AND (FI_MSG OR FI_TAGGED) \<noteq> 0 \<and> caps AND OFI_MSG_CAPS = 0
                 then caps OR OFI_MSG_CAPS else caps)
     in if caps AND (FI_RMA OR FI_ATOMICS) \<noteq> 0 \<and> caps AND OFI_RMA_CAPS = 0
        then caps OR OFI_RMA_CAPS else caps)"

definition fi_alter_domain_attr ::
    "fi_domain_attr \<Rightarrow> fi_domain_attr option \<Rightarrow> u64 \<Rightarrow> u32 \<Rightarrow> fi_domain_attr" where
  "fi_alter_domain_attr attr hints info_caps api_version =
    (let hints_mr_mode = (case hints of None \<Rightarrow> 0 | Some h \<Rightarrow> dom_mr_mode h);
         mr_mode =
           (if hints_mr_mode AND (FI_MR_BASIC OR FI_MR_SCALABLE) \<noteq> 0 then hints_mr_mode
            else if FI_VERSION_LT api_version (FI_VERSION 1 5)
            then if dom_mr_mode attr \<noteq> 0 \<and> dom_mr_mode attr \<noteq> FI_MR_SCALABLE then FI_MR_BASIC else FI_MR_SCALABLE
            else if hints_mr_mode AND dom_mr_mode attr \<noteq> dom_mr_mode attr
            then ofi_cap_mr_mode info_caps (dom_mr_mode attr AND hints_mr_mode)
            else dom_mr_mode attr);
         attr1 = attr\<lparr>dom_mr_mode := mr_mode,
           dom_caps := ofi_get_caps info_caps (case hints of None \<Rightarrow> 0 | Some h \<Rightarrow> dom_caps h) (dom_caps attr)\<rparr>
     in case hints of
          None \<Rightarrow> attr1
        | Some h \<Rightarrow> attr1\<lparr>
            dom_threading := (if dom_threading h \<noteq> FI_THREAD_UNSPEC then dom_threading h else dom_threading attr),
            dom_control_progress := (if dom_control_progress h \<noteq> FI_PROGRESS_UNSPEC
              then dom_control_progress h else dom_control_progress attr),
            dom_data_progress := (if dom_data_progress h \<noteq> FI_PROGRESS_UNSPEC
              then dom_data_progress h else dom_data_progress attr),
            dom_av_type := (if dom_av_type h \<noteq> FI_AV_UNSPEC then dom_av_type h else dom_av_type attr)\<rparr>)"

definition nz :: "'a::zero \<Rightarrow> 'a \<Rightarrow> 'a" where
  "nz hint own = (if hint \<noteq> 0 then hint else own)"

definition fi_alter_ep_attr :: "fi_ep_attr \<Rightarrow> fi_ep_attr option \<Rightarrow> u64 \<Rightarrow> fi_ep_attr" where
  "fi_alter_ep_attr attr hints info_caps =
    (case hints of
       None \<Rightarrow> attr
     | Some h \<Rightarrow>
         let attr1 = (if info_caps AND (FI_RMA OR FI_ATOMIC) \<noteq> 0
               then attr\<lparr>ep_max_order_raw_size := nz (ep_max_order_raw_size h) (ep_max_order_raw_size attr),
                 ep_max_order_war_size := nz (ep_max_order_war_size h) (ep_max_order_war_size attr),
                 ep_max_order_waw_size := nz (ep_max_order_waw_size h) (ep_max_order_waw_size attr)\<rparr>
               else attr)
         in attr1\<lparr>ep_tx_ctx_cnt := nz (ep_tx_ctx_cnt h) (ep_tx_ctx_cnt attr),
              ep_rx_ctx_cnt := nz (ep_rx_ctx_cnt h) (ep_rx_ctx_cnt attr)\<rparr>)"

definition fi_alter_rx_attr :: "fi_rx_attr \<Rightarrow> fi_rx_attr option \<Rightarrow> u64 \<Rightarrow> fi_rx_attr" where
  "fi_alter_rx_attr attr hints info_caps =
    (let attr1 = attr\<lparr>rx_caps := ofi_get_caps info_caps (case hints of None \<Rightarrow> 0 | Some h \<Rightarrow> rx_caps h) (rx_caps attr)\<rparr>
     in case hints of
          None \<Rightarrow> attr1
        | Some h \<Rightarrow> attr1\<lparr>rx_op_flags := rx_op_flags h, rx_total_buffered_recv := rx_total_buffered_recv h,
            rx_size := nz (rx_size h) (rx_size attr), rx_iov_limit := nz (rx_iov_limit h) (rx_iov_limit attr)\<rparr>)"

definition fi_alter_tx_attr :: "fi_tx_attr \<Rightarrow> fi_tx_attr option \<Rightarrow> u64 \<Rightarrow> fi_tx_attr" where
  "fi_alter_tx_attr attr hints info_caps =
    (let attr1 = attr\<lparr>tx_caps := ofi_get_caps info_caps (case hints of None \<Rightarrow> 0 | Some h \<Rightarrow> tx_caps h) (tx_caps attr)\<rparr>
     in case hints of
          None \<Rightarrow> attr1
        | Some h \<Rightarrow> attr1\<lparr>tx_op_flags := tx_op_flags h,
            tx_inject_size := nz (tx_inject_size h) (tx_inject_size attr),
            tx_size := nz (tx_size h) (tx_size attr), tx_iov_limit := nz (tx_iov_limit h) (tx_iov_limit attr),
            tx_rma_iov_limit := nz (tx_rma_iov_limit h) (tx_rma_iov_limit attr)\<rparr>)"

definition ofi_get_info_caps :: "fi_info \<Rightarrow> fi_info \<Rightarrow> u32 \<Rightarrow> u64" where
  "ofi_get_info_caps prov_info user_info api_version =
    (let caps = ofi_get_caps (fi_caps prov_info) (fi_caps user_info) (fi_caps prov_info);
         prov_mode = dom_mr_mode (the (fi_domain_attr prov_info))
     in if \<not> ofi_rma_target_allowed caps \<or> prov_mode AND OFI_MR_MODE_RMA_TARGET = 0 then caps
        else case fi_domain_attr user_info of
               None \<Rightarrow> caps AND NOT (FI_REMOTE_WRITE OR FI_REMOTE_READ)
             | Some d \<Rightarrow>
                 let user_mode = dom_mr_mode d
                 in if (FI_VERSION_LT api_version (FI_VERSION 1 5) \<and> user_mode = FI_MR_UNSPEC) \<or>
                       user_mode = FI_MR_BASIC \<or>
                       user_mode AND prov_mode AND OFI_MR_MODE_RMA_TARGET = prov_mode AND OFI_MR_MODE_RMA_TARGET
                    then caps
                    else caps AND NOT (FI_REMOTE_WRITE OR FI_REMOTE_READ))"

text \<open>The body of the loop of \<open>ofi_alter_info\<close>.\<close>

definition alter_one :: "fi_info \<Rightarrow> u32 \<Rightarrow> fi_info \<Rightarrow> fi_info" where
  "alter_one hints api_version info =
    (let caps = ofi_get_info_caps info hints api_version;
         mode = (if dom_mr_mode (the (fi_domain_attr info)) AND FI_MR_LOCAL \<noteq> 0 \<and>
                    (FI_VERSION_LT api_version (FI_VERSION 1 5) \<or>
                     (case fi_domain_attr hints of None \<Rightarrow> False
                      | Some d \<Rightarrow> dom_mr_mode d AND (FI_MR_BASIC OR FI_MR_SCALABLE) \<noteq> 0))
                 then fi_mode info OR FI_LOCAL_MR else fi_mode info)
     in info\<lparr>fi_caps := caps, fi_mode := mode, fi_handle := fi_handle hints,
          fi_domain_attr := Some (fi_alter_domain_attr (the (fi_domain_attr info)) (fi_domain_attr hints) caps api_version),
          fi_ep_attr := Some (fi_alter_ep_attr (the (fi_ep_attr info)) (fi_ep_attr hints) caps),
          fi_rx_attr := Some (fi_alter_rx_attr (the (fi_rx_attr info)) (fi_rx_attr hints) caps),
          fi_tx_attr := Some (fi_alter_tx_attr (the (fi_tx_attr info)) (fi_tx_attr hints) caps)\<rparr>)"

definition ofi_alter_info :: "fi_info list \<Rightarrow> fi_info option \<Rightarrow> u32 \<Rightarrow> fi_info list" where
  "ofi_alter_info infos hints api_version =
    (case hints of None \<Rightarrow> infos | Some h \<Rightarrow> map (alter_one h api_version) infos)"

subsection \<open>Flags as bits\<close>

named_theorems flag_bits "flag tests as tests of single bits"

lemma and_flag0: "(x :: 'a::len word) AND push_bit k 1 = 0 \<longleftrightarrow> \<not> bit x k"
  using and_flag [of x k] by blast

lemma and_or_0 [flag_bits]: "(x :: 'a::len word) AND (a OR b) = 0 \<longleftrightarrow> x AND a = 0 \<and> x AND b = 0"
  by (simp add: bit.conj_disj_distrib or_eq_0_iff)

lemma caps_flag_bits [flag_bits]:
  "x AND FI_MSG = 0 \<longleftrightarrow> \<not> bit x 1" "x AND FI_RMA = 0 \<longleftrightarrow> \<not> bit x 2" "x AND FI_TAGGED = 0 \<longleftrightarrow> \<not> bit x 3"
  "x AND FI_ATOMIC = 0 \<longleftrightarrow> \<not> bit x 4" "x AND FI_ATOMICS = 0 \<longleftrightarrow> \<not> bit x 4"
  "x AND FI_READ = 0 \<longleftrightarrow> \<not> bit x 8" "x AND FI_WRITE = 0 \<longleftrightarrow> \<not> bit x 9"
  "x AND FI_RECV = 0 \<longleftrightarrow> \<not> bit x 10" "x AND FI_SEND = 0 \<longleftrightarrow> \<not> bit x 11"
  "x AND FI_REMOTE_READ = 0 \<longleftrightarrow> \<not> bit x 12" "x AND FI_REMOTE_WRITE = 0 \<longleftrightarrow> \<not> bit x 13"
  "x AND FI_LOCAL_MR = 0 \<longleftrightarrow> \<not> bit x 55"
  by (simp_all only: fi_consts and_flag0)

lemma mr_flag_bits [flag_bits]:
  "m AND FI_MR_BASIC = 0 \<longleftrightarrow> \<not> bit m 0" "m AND FI_MR_SCALABLE = 0 \<longleftrightarrow> \<not> bit m 1"
  "m AND FI_MR_LOCAL = 0 \<longleftrightarrow> \<not> bit m 2"
  using and_flag0 [of m 0] and_flag0 [of m 1] and_flag0 [of m 2]
  by (simp_all add: FI_MR_BASIC_def FI_MR_SCALABLE_def FI_MR_LOCAL_def)

lemma bit_flag: "bit (push_bit k 1 :: 'a::len word) n \<longleftrightarrow> n = k \<and> k < LENGTH('a)"
  by (auto simp: bit_exp_iff)

lemma bit_caps_sets [flag_bits]:
  "bit FI_PRIMARY_CAPS n \<longleftrightarrow> n \<in> {1, 2, 3, 4, 5, 6, 8, 9, 10, 11, 12, 13, 58, 59}"
  "bit FI_SECONDARY_CAPS n \<longleftrightarrow> n \<in> {16, 57, 56, 53, 20, 21, 51, 52}"
  "bit OFI_MSG_CAPS n \<longleftrightarrow> n \<in> {10, 11}"
  "bit OFI_RMA_CAPS n \<longleftrightarrow> n \<in> {8, 9, 12, 13}"
  by (simp_all only: fi_consts bit_or_iff bit_flag) auto

lemma bit_single_flags:
  "bit FI_RMA n \<longleftrightarrow> n = 2" "bit FI_READ n \<longleftrightarrow> n = 8" "bit FI_WRITE n \<longleftrightarrow> n = 9" "bit FI_RECV n \<longleftrightarrow> n = 10"
  "bit FI_SEND n \<longleftrightarrow> n = 11" "bit FI_REMOTE_READ n \<longleftrightarrow> n = 12" "bit FI_REMOTE_WRITE n \<longleftrightarrow> n = 13"
  by (simp_all only: fi_consts bit_flag) auto

lemma bit_rma_target [flag_bits]: "bit OFI_MR_MODE_RMA_TARGET n \<longleftrightarrow> n \<in> {3, 4, 6, 8}"
  by (simp only: fi_consts bit_or_iff bit_flag) auto

lemma bit_basic_scalable [flag_bits]:
  "bit FI_MR_BASIC n \<longleftrightarrow> n = 0" "bit FI_MR_SCALABLE n \<longleftrightarrow> n = 1"
  using bit_flag [where ?'a = 32, of 0 n] bit_flag [where ?'a = 32, of 1 n]
  by (simp_all add: FI_MR_BASIC_def FI_MR_SCALABLE_def bit_1_iff)

lemma and_caps_sets_0 [flag_bits]:
  "x AND OFI_MSG_CAPS = 0 \<longleftrightarrow> \<not> bit x 10 \<and> \<not> bit x 11"
  "x AND OFI_RMA_CAPS = 0 \<longleftrightarrow> \<not> bit x 8 \<and> \<not> bit x 9 \<and> \<not> bit x 12 \<and> \<not> bit x 13"
  by (auto simp: OFI_MSG_CAPS_def OFI_RMA_CAPS_def flag_bits)

lemma rma_target_bits:
  "ofi_rma_target_allowed c \<longleftrightarrow> (bit c 2 \<or> bit c 4) \<and> (bit c 12 \<or> bit c 13 \<or> \<not> (bit c 8 \<or> bit c 9))"
  by (auto simp: ofi_rma_target_allowed_def flag_bits)

lemma bit_cap_mr_mode:
  "bit (ofi_cap_mr_mode c m) n \<longleftrightarrow>
    bit m n \<and> n \<notin> {0, 1} \<and> (ofi_rma_target_allowed c \<or> (bit m 2 \<and> n \<notin> {3, 4, 6, 8}))"
proof (cases "n < 32")
  case True
  then show ?thesis
    by (auto simp: ofi_cap_mr_mode_def flag_bits bit_and_iff bit_not_iff_eq bit_simps)
next
  case False
  then show ?thesis using bit_imp_le_length [of m n] bit_imp_le_length [of "ofi_cap_mr_mode c m" n] by auto
qed

text \<open>The memory registration mode that \<open>fi_alter_domain_attr\<close> computes for API versions from 1.5 on,
  for hints without the two legacy modes, covers what the provider needs for the same capabilities.\<close>

lemma mr_mode_revalidates:
  assumes "U AND (FI_MR_BASIC OR FI_MR_SCALABLE) = 0"
    and "U AND ofi_cap_mr_mode hc P = ofi_cap_mr_mode hc P"
    and "ofi_rma_target_allowed c = ofi_rma_target_allowed hc"
    and "M = (if U AND P \<noteq> P then ofi_cap_mr_mode c (P AND U) else P)"
  shows "M AND ofi_cap_mr_mode c P = ofi_cap_mr_mode c P" "\<not> bit M 0" "\<not> bit M 1" "bit P 2 \<Longrightarrow> bit M 2"
proof -
  have U: "\<not> bit U 0" "\<not> bit U 1" using assms(1) by (simp_all add: flag_bits)
  have sub: "bit P n \<and> n \<notin> {0, 1} \<and> (ofi_rma_target_allowed c \<or> (bit P 2 \<and> n \<notin> {3, 4, 6, 8})) \<Longrightarrow> bit U n" for n
    using assms(2,3) by (simp add: absorb_bits bit_cap_mr_mode)
  have PU: "U AND P = P \<longleftrightarrow> (\<forall>n. bit P n \<longrightarrow> bit U n)" by (simp add: absorb_bits)
  show "M AND ofi_cap_mr_mode c P = ofi_cap_mr_mode c P"
    unfolding assms(4) absorb_bits using sub by (auto simp: bit_cap_mr_mode bit_and_iff)
  show "\<not> bit M 0" "\<not> bit M 1"
    unfolding assms(4) using U by (auto simp: bit_cap_mr_mode bit_and_iff PU)
  show "bit M 2" if "bit P 2"
    unfolding assms(4) using that sub [of 2] by (auto simp: bit_cap_mr_mode bit_and_iff)
qed

text \<open>\<open>ofi_get_caps\<close> adds all directions of an operation that is asked for without any.  Capabilities \<open>a\<close> of
  the provider cover the request \<open>h\<close> (or, if it is empty, what \<open>a\<close> shares with \<open>i\<close>) if they have the
  directions added.\<close>

definition caps_covered :: "u64 \<Rightarrow> u64 \<Rightarrow> u64 \<Rightarrow> bool" where
  "caps_covered i h a \<longleftrightarrow>
    (let want = (if h = 0 then i AND a else h)
     in (want AND (FI_MSG OR FI_TAGGED) \<noteq> 0 \<and> want AND OFI_MSG_CAPS = 0 \<longrightarrow> OFI_MSG_CAPS AND NOT a = 0) \<and>
        (want AND (FI_RMA OR FI_ATOMIC) \<noteq> 0 \<and> want AND OFI_RMA_CAPS = 0 \<longrightarrow> OFI_RMA_CAPS AND NOT a = 0))"

text \<open>The capabilities before the directions are added.\<close>

definition base_caps :: "u64 \<Rightarrow> u64 \<Rightarrow> u64 \<Rightarrow> u64" where
  "base_caps i h a =
    (if h = 0 then (i AND a AND FI_PRIMARY_CAPS) OR (a AND FI_SECONDARY_CAPS)
     else (h AND FI_PRIMARY_CAPS) OR (a AND FI_SECONDARY_CAPS))"

lemma bit_get_caps:
  "bit (ofi_get_caps i h a) n \<longleftrightarrow> bit (base_caps i h a) n \<or>
    (n \<in> {10, 11} \<and> (bit (base_caps i h a) 1 \<or> bit (base_caps i h a) 3) \<and>
       \<not> bit (base_caps i h a) 10 \<and> \<not> bit (base_caps i h a) 11) \<or>
    (n \<in> {8, 9, 12, 13} \<and> (bit (base_caps i h a) 2 \<or> bit (base_caps i h a) 4) \<and>
       \<not> bit (base_caps i h a) 8 \<and> \<not> bit (base_caps i h a) 9 \<and>
       \<not> bit (base_caps i h a) 12 \<and> \<not> bit (base_caps i h a) 13)"
  unfolding ofi_get_caps_def base_caps_def [symmetric] Let_def
  by (simp add: flag_bits bit_or_iff)

lemma bit_base_caps:
  "bit (base_caps i h a) n \<longleftrightarrow>
    (if h = 0 then bit i n \<and> bit a n else bit h n) \<and> n \<in> {1, 2, 3, 4, 5, 6, 8, 9, 10, 11, 12, 13, 58, 59} \<or>
    bit a n \<and> n \<in> {16, 57, 56, 53, 20, 21, 51, 52}"
  by (simp add: base_caps_def bit_or_iff bit_and_iff bit_caps_sets)

lemma get_caps_subset_iff:
  assumes "h AND NOT a = 0"
  shows "ofi_get_caps i h a AND NOT a = 0 \<longleftrightarrow> caps_covered i h a"
proof -
  let ?b = "base_caps i h a"
  have h: "bit h n \<Longrightarrow> bit a n" for n using assms by (simp add: subset_bits)
  have b: "bit ?b n \<Longrightarrow> bit a n" for n
    unfolding bit_base_caps using h by (meson)
  have want: "bit (if h = 0 then i AND a else h) n = bit ?b n" if "n \<in> {1, 2, 3, 4, 8, 9, 10, 11, 12, 13}" for n
    using that by (auto simp: bit_base_caps bit_and_iff)
  have dir: "OFI_MSG_CAPS AND NOT a = 0 \<longleftrightarrow> bit a 10 \<and> bit a 11"
      "OFI_RMA_CAPS AND NOT a = 0 \<longleftrightarrow> bit a 8 \<and> bit a 9 \<and> bit a 12 \<and> bit a 13"
    by (auto simp: subset_bits bit_caps_sets)
  have "caps_covered i h a \<longleftrightarrow>
      ((bit ?b 1 \<or> bit ?b 3) \<and> \<not> bit ?b 10 \<and> \<not> bit ?b 11 \<longrightarrow> bit a 10 \<and> bit a 11) \<and>
      ((bit ?b 2 \<or> bit ?b 4) \<and> \<not> bit ?b 8 \<and> \<not> bit ?b 9 \<and> \<not> bit ?b 12 \<and> \<not> bit ?b 13 \<longrightarrow>
        bit a 8 \<and> bit a 9 \<and> bit a 12 \<and> bit a 13)"
    unfolding caps_covered_def Let_def using want
    by (simp add: flag_bits dir)
  then show ?thesis unfolding subset_bits bit_get_caps using b by auto
qed

text \<open>With nonempty hints the altered capabilities ask for the same remote memory operations.\<close>

lemma get_caps_same_rma:
  assumes "h \<noteq> 0"
  shows "ofi_rma_target_allowed (ofi_get_caps i h a) = ofi_rma_target_allowed h"
    and "ofi_get_caps i h a AND (FI_RMA OR FI_ATOMIC) = 0 \<longleftrightarrow> h AND (FI_RMA OR FI_ATOMIC) = 0"
proof -
  have "bit (base_caps i h a) n = bit h n" if "n \<in> {2, 4, 8, 9, 12, 13}" for n
    using that assms by (auto simp: bit_base_caps)
  then have "bit (base_caps i h a) 2 = bit h 2" "bit (base_caps i h a) 4 = bit h 4"
    "bit (base_caps i h a) 8 = bit h 8" "bit (base_caps i h a) 9 = bit h 9"
    "bit (base_caps i h a) 12 = bit h 12" "bit (base_caps i h a) 13 = bit h 13" by simp_all
  then show "ofi_rma_target_allowed (ofi_get_caps i h a) = ofi_rma_target_allowed h"
    "ofi_get_caps i h a AND (FI_RMA OR FI_ATOMIC) = 0 \<longleftrightarrow> h AND (FI_RMA OR FI_ATOMIC) = 0"
    by (auto simp: rma_target_bits bit_get_caps flag_bits)
qed

subsection \<open>What a successful check means\<close>

lemma and_then_unit: "and_then r (\<lambda>_. s) = Inr () \<longleftrightarrow> r = Inr () \<and> s = Inr ()"
  for r :: "unit fi_result"
  by (cases r) auto

lemma if_err: "(if c then Inl e else r) = Inr x \<longleftrightarrow> \<not> c \<and> r = Inr x"
  by simp

lemma if_ok: "(if c then Inr x else r) = Inr x \<longleftrightarrow> c \<or> r = Inr x"
  by simp

lemma if_same: "(if r \<noteq> Inr () then r else s) = Inr () \<longleftrightarrow> r = Inr () \<and> s = Inr ()"
  by simp

lemma check_domain_attr_iff:
  "ofi_check_domain_attr api P u = Inr () \<longleftrightarrow>
    (let U = the (fi_domain_attr u) in
      (dom_name P \<noteq> None \<and> dom_name U \<noteq> None \<longrightarrow> strcaseeq (the (dom_name U)) (the (dom_name P))) \<and>
      fi_thread_level (dom_threading P) \<le> fi_thread_level (dom_threading U) \<and>
      fi_progress_level (dom_control_progress P) \<le> fi_progress_level (dom_control_progress U) \<and>
      fi_progress_level (dom_data_progress P) \<le> fi_progress_level (dom_data_progress U) \<and>
      fi_resource_mgmt_level (dom_resource_mgmt P) \<le> fi_resource_mgmt_level (dom_resource_mgmt U) \<and>
      (dom_av_type P = FI_AV_UNSPEC \<or> dom_av_type U = FI_AV_UNSPEC \<or> dom_av_type P = dom_av_type U) \<and>
      dom_cq_data_size U \<le> dom_cq_data_size P \<and>
      ofi_check_mr_mode api (dom_mr_mode P) u = Inr () \<and>
      (FI_VERSION_LT api (FI_VERSION 1 5) \<or>
        dom_cntr_cnt U \<le> dom_cntr_cnt P \<and> dom_mr_iov_limit U \<le> dom_mr_iov_limit P \<and>
        dom_caps U AND NOT (dom_caps P) = 0 \<and> dom_mode U AND dom_mode P = dom_mode P \<and>
        dom_max_err_data U \<le> dom_max_err_data P \<and> dom_mr_cnt U \<le> dom_mr_cnt P))"
  unfolding ofi_check_domain_attr_def Let_def
  by (simp only: if_err if_ok not_less de_Morgan_conj not_not imp_conv_disj disj_assoc simp_thms)

lemma check_ep_attr_iff:
  "ofi_check_ep_attr p u = Inr () \<longleftrightarrow>
    (let P = the (fi_ep_attr p); U = the (fi_ep_attr u); D = the (fi_domain_attr p) in
      ofi_check_ep_type P U = Inr () \<and>
      (ep_protocol U = FI_PROTO_UNSPEC \<or> ep_protocol U = ep_protocol P) \<and>
      (ep_protocol_version U = 0 \<or> ep_protocol_version U \<le> ep_protocol_version P) \<and>
      ep_max_msg_size U \<le> ep_max_msg_size P \<and>
      check_ctx_cnt (ep_tx_ctx_cnt U) (dom_max_ep_tx_ctx D) (dom_max_ep_stx_ctx D) \<and>
      check_ctx_cnt (ep_rx_ctx_cnt U) (dom_max_ep_rx_ctx D) (dom_max_ep_srx_ctx D) \<and>
      (fi_caps u AND (FI_RMA OR FI_ATOMIC) = 0 \<or>
        ep_max_order_raw_size U \<le> ep_max_order_raw_size P \<and> ep_max_order_war_size U \<le> ep_max_order_war_size P \<and>
        ep_max_order_waw_size U \<le> ep_max_order_waw_size P) \<and>
      (ep_auth_key_size U = 0 \<or> ep_auth_key_size U = ep_auth_key_size P))"
  unfolding ofi_check_ep_attr_def Let_def if_same
  by (simp only: if_err not_less de_Morgan_conj de_Morgan_disj not_not simp_thms)

lemma check_rx_attr_iff:
  "ofi_check_rx_attr p U mode = Inr () \<longleftrightarrow>
    (let P = the (fi_rx_attr p); m = (if rx_mode U \<noteq> 0 then rx_mode U else mode) in
      rx_caps U AND NOT (rx_caps P) = 0 \<and> m AND rx_mode P = rx_mode P \<and>
      rx_op_flags U AND NOT (rx_op_flags P) = 0 \<and> rx_msg_order U AND NOT (rx_msg_order P) = 0 \<and>
      rx_comp_order U AND NOT (rx_comp_order P) = 0 \<and>
      rx_total_buffered_recv U \<le> rx_total_buffered_recv P \<and> rx_size U \<le> rx_size P \<and>
      rx_iov_limit U \<le> rx_iov_limit P)"
  unfolding ofi_check_rx_attr_def Let_def not_less [symmetric] by (simp add: if_err)

lemma check_tx_attr_iff:
  "ofi_check_tx_attr P U mode = Inr () \<longleftrightarrow>
    (let m = (if tx_mode U \<noteq> 0 then tx_mode U else mode) in
      tx_caps U AND NOT (tx_caps P) = 0 \<and> m AND tx_mode P = tx_mode P \<and>
      tx_op_flags U AND NOT (tx_op_flags P) = 0 \<and> tx_msg_order U AND NOT (tx_msg_order P) = 0 \<and>
      tx_comp_order U AND NOT (tx_comp_order P) = 0 \<and>
      tx_inject_size U \<le> tx_inject_size P \<and> tx_size U \<le> tx_size P \<and>
      tx_iov_limit U \<le> tx_iov_limit P \<and> tx_rma_iov_limit U \<le> tx_rma_iov_limit P)"
  unfolding ofi_check_tx_attr_def Let_def not_less [symmetric] by (simp add: if_err)

lemma check_opt_iff: "check_opt a f = Inr () \<longleftrightarrow> (\<forall>x. a = Some x \<longrightarrow> f x = Inr ())"
  by (auto simp: check_opt_def split: option.split)

lemma check_info_iff:
  "ofi_check_info p api (Some u) = Inr () \<longleftrightarrow>
    (\<forall>e. fi_ep_attr u = Some e \<longrightarrow> ofi_check_ep_type (the (fi_ep_attr p)) e = Inr ()) \<and>
    fi_caps u AND NOT (fi_caps p) = 0 \<and>
    fi_mode u AND ofi_mr_get_prov_mode api u p = ofi_mr_get_prov_mode api u p \<and>
    fi_valid_addr_format (fi_addr_format p) (fi_addr_format u) \<and>
    (\<forall>f. fi_fabric_attr u = Some f \<longrightarrow> ofi_check_fabric_attr (the (fi_fabric_attr p)) f = Inr ()) \<and>
    (\<forall>d. fi_domain_attr u = Some d \<longrightarrow> ofi_check_domain_attr api (the (fi_domain_attr p)) u = Inr ()) \<and>
    (\<forall>e. fi_ep_attr u = Some e \<longrightarrow> ofi_check_ep_attr p u = Inr ()) \<and>
    (\<forall>r. fi_rx_attr u = Some r \<longrightarrow> ofi_check_rx_attr p r (fi_mode u) = Inr ()) \<and>
    (\<forall>t. fi_tx_attr u = Some t \<longrightarrow> ofi_check_tx_attr (the (fi_tx_attr p)) t (fi_mode u) = Inr ())"
  by (simp add: ofi_check_info_def Let_def and_then_unit if_err check_opt_iff)

lemma check_mr_mode_new_iff:
  assumes "\<not> FI_VERSION_LT api (FI_VERSION 1 5)" and "fi_domain_attr u = Some d"
    and "\<not> bit (dom_mr_mode d) 0" and "\<not> bit (dom_mr_mode d) 1"
  shows "ofi_check_mr_mode api P u = Inr () \<longleftrightarrow>
    (bit P 2 \<longrightarrow> bit (fi_mode u) 55 \<or> bit (dom_mr_mode d) 2) \<and>
    dom_mr_mode d AND ofi_cap_mr_mode (fi_caps u) P = ofi_cap_mr_mode (fi_caps u) P"
  using assms by (simp add: ofi_check_mr_mode_def Let_def flag_bits if_err)

lemma valid_addr_format_refl: "fi_valid_addr_format a a"
  by (auto simp: fi_valid_addr_format_def fi_consts)

lemma check_fabric_attr_refl: "ofi_check_fabric_attr a a = Inr ()"
  by (simp add: ofi_check_fabric_attr_def version_lt_less)

subsection \<open>Altered attributes pass the checks again\<close>

lemma info_caps_untrimmed:
  assumes "fi_caps h \<noteq> 0" and "fi_domain_attr h = Some d"
    and "dom_mr_mode d AND ofi_cap_mr_mode (fi_caps h) P = ofi_cap_mr_mode (fi_caps h) P"
    and "P = dom_mr_mode (the (fi_domain_attr p))"
  shows "ofi_get_info_caps p h api = ofi_get_caps (fi_caps p) (fi_caps h) (fi_caps p)"
proof (cases "ofi_rma_target_allowed (fi_caps h)")
  case True
  then have "bit P n \<and> n \<in> {3, 4, 6, 8} \<Longrightarrow> bit (dom_mr_mode d) n" for n
    using assms(3) by (auto simp: absorb_bits bit_cap_mr_mode)
  then have "dom_mr_mode d AND P AND OFI_MR_MODE_RMA_TARGET = P AND OFI_MR_MODE_RMA_TARGET"
    by (intro bit_word_eqI) (auto simp: bit_and_iff bit_rma_target)
  then show ?thesis using assms(2,4) by (simp add: ofi_get_info_caps_def Let_def)
next
  case False
  then show ?thesis by (simp add: ofi_get_info_caps_def Let_def get_caps_same_rma(1) [OF assms(1)])
qed

lemma alter_domain_fields:
  "dom_name (fi_alter_domain_attr P (Some d) c api) = dom_name P"
  "dom_threading (fi_alter_domain_attr P (Some d) c api) =
    (if dom_threading d \<noteq> FI_THREAD_UNSPEC then dom_threading d else dom_threading P)"
  "dom_control_progress (fi_alter_domain_attr P (Some d) c api) =
    (if dom_control_progress d \<noteq> FI_PROGRESS_UNSPEC then dom_control_progress d else dom_control_progress P)"
  "dom_data_progress (fi_alter_domain_attr P (Some d) c api) =
    (if dom_data_progress d \<noteq> FI_PROGRESS_UNSPEC then dom_data_progress d else dom_data_progress P)"
  "dom_av_type (fi_alter_domain_attr P (Some d) c api) =
    (if dom_av_type d \<noteq> FI_AV_UNSPEC then dom_av_type d else dom_av_type P)"
  "dom_caps (fi_alter_domain_attr P (Some d) c api) = ofi_get_caps c (dom_caps d) (dom_caps P)"
  "dom_resource_mgmt (fi_alter_domain_attr P (Some d) c api) = dom_resource_mgmt P"
  "dom_cq_data_size (fi_alter_domain_attr P (Some d) c api) = dom_cq_data_size P"
  "dom_cntr_cnt (fi_alter_domain_attr P (Some d) c api) = dom_cntr_cnt P"
  "dom_mr_iov_limit (fi_alter_domain_attr P (Some d) c api) = dom_mr_iov_limit P"
  "dom_mode (fi_alter_domain_attr P (Some d) c api) = dom_mode P"
  "dom_max_err_data (fi_alter_domain_attr P (Some d) c api) = dom_max_err_data P"
  "dom_mr_cnt (fi_alter_domain_attr P (Some d) c api) = dom_mr_cnt P"
  by (simp_all add: fi_alter_domain_attr_def Let_def)

lemma alter_domain_revalidates:
  assumes new: "\<not> FI_VERSION_LT api (FI_VERSION 1 5)"
    and h: "fi_domain_attr h = Some d" "dom_mr_mode d AND (FI_MR_BASIC OR FI_MR_SCALABLE) = 0"
    and chk: "ofi_check_domain_attr api P h = Inr ()"
    and caps: "ofi_rma_target_allowed c = ofi_rma_target_allowed (fi_caps h)"
    and i: "fi_domain_attr i = Some (fi_alter_domain_attr P (Some d) c api)" "fi_caps i = c"
  shows "ofi_check_domain_attr api P i = Inr () \<longleftrightarrow> caps_covered c (dom_caps d) (dom_caps P)"
    and "bit (dom_mr_mode P) 2 \<Longrightarrow> bit (dom_mr_mode (fi_alter_domain_attr P (Some d) c api)) 2"
proof -
  define M where "M = (if dom_mr_mode d AND dom_mr_mode P \<noteq> dom_mr_mode P
    then ofi_cap_mr_mode c (dom_mr_mode P AND dom_mr_mode d) else dom_mr_mode P)"
  note c = chk [unfolded check_domain_attr_iff h(1) option.sel Let_def]
  have U: "\<not> bit (dom_mr_mode d) 0" "\<not> bit (dom_mr_mode d) 1" using h(2) by (simp_all add: flag_bits)
  have need: "dom_mr_mode d AND ofi_cap_mr_mode (fi_caps h) (dom_mr_mode P) = ofi_cap_mr_mode (fi_caps h) (dom_mr_mode P)"
    using c check_mr_mode_new_iff [OF new h(1) U] by blast
  note mr = mr_mode_revalidates [OF h(2) need caps M_def]
  have altM: "dom_mr_mode (fi_alter_domain_attr P (Some d) c api) = M"
    using h(2) new by (simp add: fi_alter_domain_attr_def Let_def M_def)
  then show "bit (dom_mr_mode P) 2 \<Longrightarrow> bit (dom_mr_mode (fi_alter_domain_attr P (Some d) c api)) 2"
    using mr(4) by simp
  have "ofi_check_mr_mode api (dom_mr_mode P) i = Inr ()"
    using check_mr_mode_new_iff [OF new i(1)] mr altM i(2) by auto
  then show "ofi_check_domain_attr api P i = Inr () \<longleftrightarrow> caps_covered c (dom_caps d) (dom_caps P)"
    using c new get_caps_subset_iff [of "dom_caps d" "dom_caps P" c]
    unfolding check_domain_attr_iff i(1) option.sel Let_def
    by (auto simp: alter_domain_fields strcaseeq_def)
qed

lemma nz_le: "(a :: size_t) \<le> b \<Longrightarrow> nz a b \<le> b"
  by (simp add: nz_def)

lemma alter_ep_revalidates:
  assumes "\<And>e. fi_ep_attr h = Some e \<Longrightarrow> ofi_check_ep_attr p h = Inr ()"
    and "fi_caps i AND (FI_RMA OR FI_ATOMIC) = 0 \<longleftrightarrow> fi_caps h AND (FI_RMA OR FI_ATOMIC) = 0"
    and "P = the (fi_ep_attr p)" and "D = the (fi_domain_attr p)"
    and "check_ctx_cnt (ep_tx_ctx_cnt P) (dom_max_ep_tx_ctx D) (dom_max_ep_stx_ctx D)"
    and "check_ctx_cnt (ep_rx_ctx_cnt P) (dom_max_ep_rx_ctx D) (dom_max_ep_srx_ctx D)"
    and "fi_ep_attr i = Some (fi_alter_ep_attr P (fi_ep_attr h) (fi_caps i))"
  shows "ofi_check_ep_attr p i = Inr ()"
proof (cases "fi_ep_attr h")
  case None
  then show ?thesis using assms(3-7)
    by (simp add: check_ep_attr_iff Let_def fi_alter_ep_attr_def ofi_check_ep_type_def)
next
  case (Some e)
  note c = assms(1) [OF Some, unfolded check_ep_attr_iff Some option.sel Let_def]
  show ?thesis using c assms(2-7)
    by (cases "fi_caps i AND (FI_RMA OR FI_ATOMIC) = 0")
      (simp_all add: Some check_ep_attr_iff Let_def fi_alter_ep_attr_def ofi_check_ep_type_def nz_le nz_def)
qed

definition hint_rx_caps :: "fi_info \<Rightarrow> u64" where
  "hint_rx_caps h = (case fi_rx_attr h of None \<Rightarrow> 0 | Some r \<Rightarrow> rx_caps r)"

definition hint_tx_caps :: "fi_info \<Rightarrow> u64" where
  "hint_tx_caps h = (case fi_tx_attr h of None \<Rightarrow> 0 | Some t \<Rightarrow> tx_caps t)"

lemma alter_rx_revalidates:
  assumes "\<And>r. fi_rx_attr h = Some r \<Longrightarrow> ofi_check_rx_attr p r (fi_mode h) = Inr ()"
    and "P = the (fi_rx_attr p)"
  shows "ofi_check_rx_attr p (fi_alter_rx_attr P (fi_rx_attr h) c) m = Inr () \<longleftrightarrow>
    caps_covered c (hint_rx_caps h) (rx_caps P)"
proof (cases "fi_rx_attr h")
  case None
  then show ?thesis using assms(2) get_caps_subset_iff [of 0 "rx_caps P" c]
    by (simp add: check_rx_attr_iff Let_def fi_alter_rx_attr_def hint_rx_caps_def)
next
  case (Some r)
  note chk = assms(1) [OF Some, unfolded check_rx_attr_iff Let_def]
  then show ?thesis using assms(2) get_caps_subset_iff [of "rx_caps r" "rx_caps P" c]
    by (simp add: Some check_rx_attr_iff Let_def fi_alter_rx_attr_def nz_le hint_rx_caps_def)
qed

lemma alter_tx_revalidates:
  assumes "\<And>t. fi_tx_attr h = Some t \<Longrightarrow> ofi_check_tx_attr P t (fi_mode h) = Inr ()"
  shows "ofi_check_tx_attr P (fi_alter_tx_attr P (fi_tx_attr h) c) m = Inr () \<longleftrightarrow>
    caps_covered c (hint_tx_caps h) (tx_caps P)"
proof (cases "fi_tx_attr h")
  case None
  then show ?thesis using get_caps_subset_iff [of 0 "tx_caps P" c]
    by (simp add: check_tx_attr_iff Let_def fi_alter_tx_attr_def hint_tx_caps_def)
next
  case (Some t)
  note chk = assms(1) [OF Some, unfolded check_tx_attr_iff Let_def]
  then show ?thesis using get_caps_subset_iff [of "tx_caps t" "tx_caps P" c]
    by (simp add: Some check_tx_attr_iff Let_def fi_alter_tx_attr_def nz_le hint_tx_caps_def)
qed

subsection \<open>Properties\<close>

text \<open>A provider entry that has all its attributes and whose own context counts are within its limits.\<close>

definition info_complete :: "fi_info \<Rightarrow> bool" where
  "info_complete p \<longleftrightarrow> fi_tx_attr p \<noteq> None \<and> fi_rx_attr p \<noteq> None \<and> fi_ep_attr p \<noteq> None \<and>
    fi_domain_attr p \<noteq> None \<and> fi_fabric_attr p \<noteq> None \<and>
    (let E = the (fi_ep_attr p); D = the (fi_domain_attr p) in
      check_ctx_cnt (ep_tx_ctx_cnt E) (dom_max_ep_tx_ctx D) (dom_max_ep_stx_ctx D) \<and>
      check_ctx_cnt (ep_rx_ctx_cnt E) (dom_max_ep_rx_ctx D) (dom_max_ep_srx_ctx D))"

text \<open>C15. When the \<open>fi_info\<close> an application gets back is one it can use.  Take an API version from 1.5 on, a
  provider entry that has all its attributes and whose own context counts are within its limits, and
  hints that pass \<open>ofi_check_info\<close>, state capabilities and have a domain attribute without the two legacy
  registration modes.  Then the entry that \<open>ofi_alter_info\<close> derives passes \<open>ofi_check_info\<close> itself, when
  it is handed back, if and only if the directions that \<open>ofi_get_caps\<close> adds to the capabilities of
  the entry, of its domain, its receive and its transmit attribute are ones the provider has there
  (\<open>caps_covered\<close>).  Every other check passes again.\<close>

theorem altered_info_revalidates:
  assumes "info_complete p" and "ofi_check_info p api (Some h) = Inr ()"
    and "\<not> FI_VERSION_LT api (FI_VERSION 1 5)" and "fi_caps h \<noteq> 0"
    and "fi_domain_attr h = Some d" and "dom_mr_mode d AND (FI_MR_BASIC OR FI_MR_SCALABLE) = 0"
  shows "\<exists>i. ofi_alter_info [p] (Some h) api = [i] \<and>
    (ofi_check_info p api (Some i) = Inr () \<longleftrightarrow>
      caps_covered (fi_caps p) (fi_caps h) (fi_caps p) \<and>
      caps_covered (fi_caps i) (dom_caps d) (dom_caps (the (fi_domain_attr p))) \<and>
      caps_covered (fi_caps i) (hint_rx_caps h) (rx_caps (the (fi_rx_attr p))) \<and>
      caps_covered (fi_caps i) (hint_tx_caps h) (tx_caps (the (fi_tx_attr p))))"
proof -
  define i where "i = alter_one h api p"
  define c where "c = ofi_get_caps (fi_caps p) (fi_caps h) (fi_caps p)"
  define D where "D = the (fi_domain_attr p)"
  have pc: "check_ctx_cnt (ep_tx_ctx_cnt (the (fi_ep_attr p))) (dom_max_ep_tx_ctx D) (dom_max_ep_stx_ctx D)"
    "check_ctx_cnt (ep_rx_ctx_cnt (the (fi_ep_attr p))) (dom_max_ep_rx_ctx D) (dom_max_ep_srx_ctx D)"
    "fi_fabric_attr p \<noteq> None"
    using assms(1) by (simp_all add: info_complete_def Let_def D_def)
  note chk = assms(2) [unfolded check_info_iff]
  have dom: "ofi_check_domain_attr api D h = Inr ()" using chk assms(5) by (simp add: D_def)
  have U: "\<not> bit (dom_mr_mode d) 0" "\<not> bit (dom_mr_mode d) 1" using assms(6) by (simp_all add: flag_bits)
  have "ofi_check_mr_mode api (dom_mr_mode D) h = Inr ()" using dom by (simp add: check_domain_attr_iff Let_def)
  then have caps: "ofi_get_info_caps p h api = c"
    using info_caps_untrimmed [OF assms(4,5)] check_mr_mode_new_iff [OF assms(3,5) U] by (simp add: c_def D_def)
  have i: "fi_caps i = c" "fi_mode i = fi_mode p" "fi_addr_format i = fi_addr_format p"
    "fi_fabric_attr i = fi_fabric_attr p" "fi_domain_attr i = Some (fi_alter_domain_attr D (Some d) c api)"
    "fi_ep_attr i = Some (fi_alter_ep_attr (the (fi_ep_attr p)) (fi_ep_attr h) c)"
    "fi_rx_attr i = Some (fi_alter_rx_attr (the (fi_rx_attr p)) (fi_rx_attr h) c)"
    "fi_tx_attr i = Some (fi_alter_tx_attr (the (fi_tx_attr p)) (fi_tx_attr h) c)"
    using assms(3,5,6) by (simp_all add: i_def alter_one_def Let_def caps D_def)
  note rma = get_caps_same_rma [OF assms(4), of "fi_caps p" "fi_caps p", folded c_def]
  note domi = alter_domain_revalidates [OF assms(3,5,6) dom rma(1) i(5,1)]
  have ep: "ofi_check_ep_attr p i = Inr ()"
    using alter_ep_revalidates [of h p i, OF _ _ refl refl] chk rma(2) pc(1,2) i(1,6) by (simp add: D_def)
  have "ofi_mr_get_prov_mode api i p = fi_mode p"
    using domi(2) i(5) assms(3) by (simp add: ofi_mr_get_prov_mode_def flag_bits D_def)
  moreover have "c AND NOT (fi_caps p) = 0 \<longleftrightarrow> caps_covered (fi_caps p) (fi_caps h) (fi_caps p)"
    unfolding c_def using chk by (intro get_caps_subset_iff) simp
  moreover have "ofi_check_rx_attr p (fi_alter_rx_attr (the (fi_rx_attr p)) (fi_rx_attr h) c) (fi_mode p) = Inr () \<longleftrightarrow>
      caps_covered c (hint_rx_caps h) (rx_caps (the (fi_rx_attr p)))"
    using chk by (intro alter_rx_revalidates) auto
  moreover have "ofi_check_tx_attr (the (fi_tx_attr p)) (fi_alter_tx_attr (the (fi_tx_attr p)) (fi_tx_attr h) c) (fi_mode p) = Inr () \<longleftrightarrow>
      caps_covered c (hint_tx_caps h) (tx_caps (the (fi_tx_attr p)))"
    using chk by (intro alter_tx_revalidates) auto
  ultimately have "ofi_check_info p api (Some i) = Inr () \<longleftrightarrow>
      caps_covered (fi_caps p) (fi_caps h) (fi_caps p) \<and> caps_covered c (dom_caps d) (dom_caps D) \<and>
      caps_covered c (hint_rx_caps h) (rx_caps (the (fi_rx_attr p))) \<and>
      caps_covered c (hint_tx_caps h) (tx_caps (the (fi_tx_attr p)))"
    using domi(1) ep i valid_addr_format_refl check_fabric_attr_refl pc(3)
    by (auto simp: check_info_iff check_ep_attr_iff Let_def D_def)
  then show ?thesis using i(1) by (simp add: ofi_alter_info_def i_def D_def)
qed

definition ex_prov :: fi_info where
  "ex_prov = info0\<lparr>
    fi_caps := FI_MSG OR FI_RMA OR OFI_MSG_CAPS OR OFI_RMA_CAPS,
    fi_tx_attr := Some (tx_attr0\<lparr>tx_caps := FI_MSG OR FI_RMA OR OFI_MSG_CAPS OR OFI_RMA_CAPS, tx_size := 64\<rparr>),
    fi_rx_attr := Some (rx_attr0\<lparr>rx_caps := FI_MSG OR FI_RECV\<rparr>),
    fi_ep_attr := Some (ep_attr0\<lparr>ep_type := FI_EP_RDM\<rparr>),
    fi_domain_attr := Some (domain_attr0\<lparr>dom_threading := FI_THREAD_SAFE,
      dom_mr_mode := FI_MR_LOCAL OR FI_MR_VIRT_ADDR\<rparr>),
    fi_fabric_attr := Some fabric_attr0\<rparr>"

definition ex_hints :: fi_info where
  "ex_hints = info0\<lparr>
    fi_caps := FI_MSG OR FI_RMA,
    fi_tx_attr := Some (tx_attr0\<lparr>tx_size := 16\<rparr>),
    fi_domain_attr := Some (domain_attr0\<lparr>dom_threading := FI_THREAD_DOMAIN,
      dom_mr_mode := FI_MR_LOCAL OR FI_MR_VIRT_ADDR OR FI_MR_PROV_KEY\<rparr>)\<rparr>"

lemmas attr0_defs = info0_def tx_attr0_def rx_attr0_def ep_attr0_def domain_attr0_def fabric_attr0_def

lemma ex_prov_complete: "info_complete ex_prov"
  by (simp add: info_complete_def ex_prov_def attr0_defs check_ctx_cnt_def)

lemma ex_check: "ofi_check_info ex_prov (FI_VERSION 1 9) (Some ex_hints) = Inr ()"
  by (simp add: check_info_iff check_domain_attr_iff check_tx_attr_iff ex_prov_def ex_hints_def attr0_defs
      fi_valid_addr_format_def ofi_check_mr_mode_def ofi_cap_mr_mode_def ofi_mr_get_prov_mode_def
      ofi_rma_target_allowed_def FI_VERSION_def version_lt_less fi_consts Let_def)

theorem altered_info_revalidates_witness:
  "\<exists>i. ofi_alter_info [ex_prov] (Some ex_hints) (FI_VERSION 1 9) = [i] \<and>
    ofi_check_info ex_prov (FI_VERSION 1 9) (Some i) = Inr ()"
proof -
  have "\<not> FI_VERSION_LT (FI_VERSION 1 9) (FI_VERSION 1 5)" by (simp add: version_lt_less FI_VERSION_def)
  moreover have "fi_caps ex_hints \<noteq> 0" by (simp add: ex_hints_def fi_consts)
  moreover have "fi_domain_attr ex_hints = Some (domain_attr0\<lparr>dom_threading := FI_THREAD_DOMAIN,
      dom_mr_mode := FI_MR_LOCAL OR FI_MR_VIRT_ADDR OR FI_MR_PROV_KEY\<rparr>)" by (simp add: ex_hints_def)
  moreover have "dom_mr_mode (domain_attr0\<lparr>dom_threading := FI_THREAD_DOMAIN,
      dom_mr_mode := FI_MR_LOCAL OR FI_MR_VIRT_ADDR OR FI_MR_PROV_KEY\<rparr>) AND (FI_MR_BASIC OR FI_MR_SCALABLE) = 0"
    by (simp add: fi_consts)
  ultimately obtain i where i: "ofi_alter_info [ex_prov] (Some ex_hints) (FI_VERSION 1 9) = [i]"
    "ofi_check_info ex_prov (FI_VERSION 1 9) (Some i) = Inr () \<longleftrightarrow>
      caps_covered (fi_caps ex_prov) (fi_caps ex_hints) (fi_caps ex_prov) \<and>
      caps_covered (fi_caps i) 0 (dom_caps (the (fi_domain_attr ex_prov))) \<and>
      caps_covered (fi_caps i) (hint_rx_caps ex_hints) (rx_caps (the (fi_rx_attr ex_prov))) \<and>
      caps_covered (fi_caps i) (hint_tx_caps ex_hints) (tx_caps (the (fi_tx_attr ex_prov)))"
    using altered_info_revalidates [OF ex_prov_complete ex_check] by (auto simp: domain_attr0_def)
  have "fi_caps i = ofi_get_info_caps ex_prov ex_hints (FI_VERSION 1 9)"
    using i(1) by (auto simp: ofi_alter_info_def alter_one_def Let_def)
  also have "\<dots> = FI_MSG OR FI_RMA OR OFI_MSG_CAPS OR OFI_RMA_CAPS"
    by (simp add: ofi_get_info_caps_def ofi_get_caps_def ex_prov_def ex_hints_def attr0_defs fi_consts Let_def
        ofi_cap_mr_mode_def ofi_rma_target_allowed_def FI_VERSION_def version_lt_less)
  finally have "ofi_check_info ex_prov (FI_VERSION 1 9) (Some i) = Inr ()" unfolding i(2)
    by (simp add: caps_covered_def ex_prov_def ex_hints_def attr0_defs hint_rx_caps_def hint_tx_caps_def fi_consts Let_def)
  then show ?thesis using i(1) by blast
qed

text \<open>C27. The four predicates of \<open>common.c\<close> agree with the expansion of capabilities of
  \<open>util_attr.c\<close>: an operation is allowed exactly when the capabilities name its class and their
  expansion names its direction.\<close>

theorem allowed_iff_expanded:
  "(ofi_send_allowed c \<longleftrightarrow> c AND (FI_MSG OR FI_TAGGED) \<noteq> 0 \<and> ofi_expand_caps c AND FI_SEND \<noteq> 0) \<and>
    (ofi_recv_allowed c \<longleftrightarrow> c AND (FI_MSG OR FI_TAGGED) \<noteq> 0 \<and> ofi_expand_caps c AND FI_RECV \<noteq> 0) \<and>
    (ofi_rma_initiate_allowed c \<longleftrightarrow>
      c AND (FI_RMA OR FI_ATOMIC) \<noteq> 0 \<and> ofi_expand_caps c AND (FI_READ OR FI_WRITE) \<noteq> 0) \<and>
    (ofi_rma_target_allowed c \<longleftrightarrow>
      c AND (FI_RMA OR FI_ATOMIC) \<noteq> 0 \<and> ofi_expand_caps c AND (FI_REMOTE_READ OR FI_REMOTE_WRITE) \<noteq> 0)"
proof -
  have e: "bit (ofi_expand_caps c) n \<longleftrightarrow> bit c n \<or>
      (n \<in> {10, 11} \<and> (bit c 1 \<or> bit c 3) \<and> \<not> bit c 10 \<and> \<not> bit c 11) \<or>
      (n \<in> {8, 9, 12, 13} \<and> (bit c 2 \<or> bit c 4) \<and> \<not> bit c 8 \<and> \<not> bit c 9 \<and> \<not> bit c 12 \<and> \<not> bit c 13)" for n
    by (auto simp: ofi_expand_caps_def Let_def flag_bits bit_or_iff bit_single_flags)
  show ?thesis
    by (auto simp: ofi_send_allowed_def ofi_recv_allowed_def ofi_rma_initiate_allowed_def rma_target_bits
        flag_bits e)
qed

text \<open>Altering can promise what the provider lacks: for a provider whose receive side has the usual
  message capabilities, \<open>FI_MSG\<close> and \<open>FI_RECV\<close>, and hints whose receive attribute just says \<open>FI_MSG\<close>, the
  altered receive attribute claims \<open>FI_SEND\<close> as well, and \<open>ofi_check_rx_attr\<close> rejects it.\<close>

theorem alter_rx_caps_exceed_provider:
  assumes "fi_rx_attr p = Some P" and "rx_caps P = FI_MSG OR FI_RECV" and "rx_caps h = FI_MSG"
  shows "rx_caps (fi_alter_rx_attr P (Some h) c) = FI_MSG OR FI_SEND OR FI_RECV \<and>
    ofi_check_rx_attr p (fi_alter_rx_attr P (Some h) c) m = Inl FI_ENODATA"
proof -
  have "ofi_get_caps c FI_MSG (FI_MSG OR FI_RECV) = FI_MSG OR FI_SEND OR FI_RECV"
    by (simp add: ofi_get_caps_def fi_consts Let_def)
  then have r: "rx_caps (fi_alter_rx_attr P (Some h) c) = FI_MSG OR FI_SEND OR FI_RECV"
    using assms by (simp add: fi_alter_rx_attr_def Let_def)
  moreover have "(FI_MSG OR FI_SEND OR FI_RECV) AND NOT (FI_MSG OR FI_RECV) \<noteq> 0" by (simp add: fi_consts)
  ultimately show ?thesis using assms by (simp add: ofi_check_rx_attr_def Let_def)
qed

theorem alter_rx_caps_exceed_provider_witness:
  "ofi_check_rx_attr (info0\<lparr>fi_rx_attr := Some (rx_attr0\<lparr>rx_caps := FI_MSG OR FI_RECV\<rparr>)\<rparr>)
    (fi_alter_rx_attr (rx_attr0\<lparr>rx_caps := FI_MSG OR FI_RECV\<rparr>) (Some (rx_attr0\<lparr>rx_caps := FI_MSG\<rparr>)) 0) 0 =
    Inl FI_ENODATA"
  using alter_rx_caps_exceed_provider [of "info0\<lparr>fi_rx_attr := Some (rx_attr0\<lparr>rx_caps := FI_MSG OR FI_RECV\<rparr>)\<rparr>"
      "rx_attr0\<lparr>rx_caps := FI_MSG OR FI_RECV\<rparr>" "rx_attr0\<lparr>rx_caps := FI_MSG\<rparr>" 0 0] by simp

text \<open>Ordering limits escape the check when the hints state no capabilities: \<open>ofi_check_ep_attr\<close> does
  not look at the hints' \<open>max_order_raw_size\<close>, yet when the entry's capabilities include \<open>FI_RMA\<close> the
  altered endpoint attribute takes it over, whatever the provider supports.\<close>

theorem order_size_unchecked:
  assumes "fi_caps h = 0" and "fi_ep_attr h = Some e" and "c AND FI_RMA \<noteq> 0"
  shows "ofi_check_ep_attr p (h\<lparr>fi_ep_attr := Some (e\<lparr>ep_max_order_raw_size := n\<rparr>)\<rparr>) = ofi_check_ep_attr p h \<and>
    (n \<noteq> 0 \<longrightarrow> ep_max_order_raw_size (fi_alter_ep_attr P (Some (e\<lparr>ep_max_order_raw_size := n\<rparr>)) c) = n)"
  using assms by (simp add: ofi_check_ep_attr_def ofi_check_ep_type_def fi_alter_ep_attr_def nz_def Let_def
      and_or_0)

theorem order_size_unchecked_witness:
  "ofi_check_ep_attr ex_prov (info0\<lparr>fi_ep_attr := Some (ep_attr0\<lparr>ep_max_order_raw_size := 4096\<rparr>)\<rparr>) = Inr () \<and>
    ep_max_order_raw_size (fi_alter_ep_attr (the (fi_ep_attr ex_prov))
      (Some (ep_attr0\<lparr>ep_max_order_raw_size := 4096\<rparr>)) (fi_caps ex_prov)) = 4096 \<and>
    ep_max_order_raw_size (the (fi_ep_attr ex_prov)) = 0"
  using order_size_unchecked [of "info0\<lparr>fi_ep_attr := Some ep_attr0\<rparr>" ep_attr0 "fi_caps ex_prov" ex_prov 4096
      "the (fi_ep_attr ex_prov)"]
  by (simp add: ex_prov_def attr0_defs check_ep_attr_iff ofi_check_ep_type_def check_ctx_cnt_def fi_consts)

text \<open>Trimming can widen: hints that ask to be the target of remote reads only, without a domain
  attribute, get capabilities that still name \<open>FI_RMA\<close> but no direction, and those allow everything,
  initiating remote memory operations included.\<close>

theorem trimmed_caps_allow_all:
  assumes "fi_caps h = FI_RMA OR FI_REMOTE_READ" and "fi_domain_attr h = None"
    and "dom_mr_mode (the (fi_domain_attr p)) AND OFI_MR_MODE_RMA_TARGET \<noteq> 0"
  shows "\<not> ofi_rma_initiate_allowed (fi_caps h) \<and> ofi_rma_initiate_allowed (ofi_get_info_caps p h api)"
proof -
  have hc: "bit (fi_caps h) n \<longleftrightarrow> n = 2 \<or> n = 12" for n
    by (simp add: assms(1) bit_or_iff bit_single_flags)
  define c where "c = ofi_get_caps (fi_caps p) (fi_caps h) (fi_caps p)"
  have nz: "fi_caps h \<noteq> 0" by (simp add: assms(1) fi_consts)
  have c: "bit c n \<longleftrightarrow> bit (fi_caps h) n" if "n \<in> {2, 4, 8, 9, 12, 13}" for n
    using that nz by (auto simp: c_def bit_get_caps bit_base_caps hc)
  have t: "ofi_rma_target_allowed c" using c [of 2] c [of 12] by (simp add: rma_target_bits hc)
  have "ofi_get_info_caps p h api = c AND NOT (FI_REMOTE_WRITE OR FI_REMOTE_READ)"
    using t assms(2,3) by (simp add: ofi_get_info_caps_def Let_def c_def)
  then show ?thesis using c [of 2] c [of 8] c [of 9]
    by (auto simp: ofi_rma_initiate_allowed_def flag_bits bit_and_iff bit_or_iff bit_not_iff_eq bit_single_flags hc)
qed

theorem trimmed_caps_allow_all_witness:
  "ofi_rma_initiate_allowed (ofi_get_info_caps ex_prov (info0\<lparr>fi_caps := FI_RMA OR FI_REMOTE_READ\<rparr>) (FI_VERSION 1 9))"
  using trimmed_caps_allow_all [of "info0\<lparr>fi_caps := FI_RMA OR FI_REMOTE_READ\<rparr>" ex_prov "FI_VERSION 1 9"]
  by (simp add: ex_prov_def attr0_defs fi_consts)

end
