(* ===== verification/Ofi_Core.thy ===== *)
theory Ofi_Core
  imports Ofi_Attr
begin

unbundle bit_operations_syntax

section \<open>Provider registry and \<open>fi_getinfo\<close> (\<^verbatim>\<open>src/fabric.c\<close>)\<close>

text \<open>
  The registry of providers, the include/exclude filters, the layering rules, \<open>fi_getinfo\<close> and
  \<open>fi_fabric\<close>, with the hooks of \<^verbatim>\<open>prov/hook/src/hook.c\<close> and the functions of \<^verbatim>\<open>util_attr.c\<close> and
  \<^verbatim>\<open>util_main.c\<close> by which a utility provider layers over a core provider.

  The static variables of \<open>fabric.c\<close> and \<open>hook.c\<close> are the record \<open>fabric_state\<close>.  What a provider
  does in its \<open>getinfo\<close> and \<open>fabric\<close> entry points is a function field of \<open>fi_provider\<close>.  As in the
  theories before, \<open>ok\<close> answers the allocations; assertions on the type of a provider are those of a
  build without \<open>NDEBUG\<close> and are left out.
\<close>

subsection \<open>State\<close>

datatype ofi_prov_type = OFI_PROV_CORE | OFI_PROV_UTIL | OFI_PROV_HOOK

record fid_fabric =
  fabric_fid :: fid
  fabric_api_version :: u32

type_synonym getinfo_fn =
  "u32 \<Rightarrow> string option \<Rightarrow> string option \<Rightarrow> u64 \<Rightarrow> fi_info option \<Rightarrow> fi_info list fi_result"

text \<open>\<open>struct fi_provider\<close> with its \<open>fi_prov_context\<close>; \<open>pv_id\<close> is the identity of the object.\<close>

record fi_provider =
  pv_id :: nat
  pv_version :: u32
  pv_fi_version :: u32
  pv_name :: "string option"
  pv_getinfo :: "getinfo_fn option"
  pv_fabric :: "(fi_fabric_attr \<Rightarrow> nat \<Rightarrow> fid_fabric fi_result) option"
  pv_type :: ofi_prov_type
  pv_disable_logging :: bool

record ofi_prov =
  prov_name :: string
  prov_provider :: "fi_provider option"
  prov_dlhandle :: "fid option"
  prov_hidden :: bool

record fi_filter =
  flt_names :: "string list option"
  flt_negated :: bool

record fabric_state =
  prov_list :: "ofi_prov list"
  prov_filter :: fi_filter
  prov_log_filter :: fi_filter
  ofi_init :: bool
  hooks :: "string list option"

subsection \<open>Filters\<close>

fun ofi_find_name :: "string list \<Rightarrow> string \<Rightarrow> nat option" where
  "ofi_find_name [] name = None"
| "ofi_find_name (n # names) name =
    (if strcaseeq name n then Some 0 else map_option Suc (ofi_find_name names name))"

fun ofi_find_layered_name :: "string list \<Rightarrow> string \<Rightarrow> nat option" where
  "ofi_find_layered_name [] name = None"
| "ofi_find_layered_name (n # names) name =
    (if strncaseeq name n (length name) \<and> length name < length n \<and> n ! length name = CHR '';''
     then Some 0 else map_option Suc (ofi_find_layered_name names name))"

fun ofi_find_core_name :: "string list \<Rightarrow> string \<Rightarrow> nat option" where
  "ofi_find_core_name [] name = None"
| "ofi_find_core_name (n # names) name =
    (if strncaseeq name n (length n) \<and> length n < length name \<and> name ! length n = CHR '';''
     then Some 0 else map_option Suc (ofi_find_core_name names name))"

definition ofi_is_util_prov :: "fi_provider \<Rightarrow> bool" where
  "ofi_is_util_prov provider \<longleftrightarrow> pv_type provider = OFI_PROV_UTIL"

definition ofi_is_core_prov :: "fi_provider \<Rightarrow> bool" where
  "ofi_is_core_prov provider \<longleftrightarrow> pv_type provider = OFI_PROV_CORE"

definition ofi_is_hook_prov :: "fi_provider \<Rightarrow> bool" where
  "ofi_is_hook_prov provider \<longleftrightarrow> pv_type provider = OFI_PROV_HOOK"

text \<open>The filter functions return 1, \<open>True\<close> here, when the name is filtered out.\<close>

definition ofi_apply_filter :: "fi_filter \<Rightarrow> string \<Rightarrow> bool" where
  "ofi_apply_filter flt name =
    (case flt_names flt of
       None \<Rightarrow> False
     | Some names \<Rightarrow> if ofi_find_name names name \<noteq> None then flt_negated flt else \<not> flt_negated flt)"

definition ofi_apply_prov_init_filter :: "fi_filter \<Rightarrow> string \<Rightarrow> bool" where
  "ofi_apply_prov_init_filter flt name =
    (case flt_names flt of
       None \<Rightarrow> False
     | Some names \<Rightarrow>
         if ofi_find_name names name \<noteq> None then flt_negated flt
         else if flt_negated flt then False
         else if ofi_find_layered_name names name \<noteq> None then False
         else True)"

definition ofi_apply_prov_post_filter :: "fi_filter \<Rightarrow> string \<Rightarrow> bool" where
  "ofi_apply_prov_post_filter flt name =
    (case flt_names flt of
       None \<Rightarrow> False
     | Some names \<Rightarrow>
         if ofi_find_name names name \<noteq> None \<or> ofi_find_core_name names name \<noteq> None
         then flt_negated flt else \<not> flt_negated flt)"

definition ofi_getinfo_filter :: "fi_filter \<Rightarrow> fi_provider \<Rightarrow> bool" where
  "ofi_getinfo_filter flt provider =
    (if \<not> flt_negated flt \<and> \<not> ofi_is_core_prov provider then False
     else ofi_apply_prov_init_filter flt (the (pv_name provider)))"

text \<open>The entries \<open>ofi_filter_info\<close> keeps, and the interface objects closed with those it frees.\<close>

primrec ofi_filter_info :: "fi_filter \<Rightarrow> (fid \<Rightarrow> bool) \<Rightarrow> fi_info list \<Rightarrow> fi_info list \<times> fid list" where
  "ofi_filter_info flt closable [] = ([], [])"
| "ofi_filter_info flt closable (cur # rest) =
    (let (kept, closed) = ofi_filter_info flt closable rest
     in if ofi_apply_prov_post_filter flt (the (fab_prov_name (the (fi_fabric_attr cur))))
        then (kept, fi_freeinfo closable [cur] @ closed)
        else (cur # kept, closed))"

subsection \<open>Registry\<close>

definition ofi_getprov :: "ofi_prov list \<Rightarrow> string \<Rightarrow> ofi_prov option" where
  "ofi_getprov provs name = find (\<lambda>p. prov_name p = name) provs"

definition ofi_get_hook :: "bool \<Rightarrow> ofi_prov list \<Rightarrow> string \<Rightarrow> fi_provider option" where
  "ofi_get_hook asprintf_ok provs name =
    (let prov = (case ofi_getprov provs name of
                   Some p \<Rightarrow> Some p
                 | None \<Rightarrow> if asprintf_ok then ofi_getprov provs (''ofi_hook_'' @ name) else None)
     in case prov of
          None \<Rightarrow> None
        | Some p \<Rightarrow>
            (case prov_provider p of
               None \<Rightarrow> None
             | Some v \<Rightarrow> if ofi_is_hook_prov v then Some v else None))"

text \<open>\<open>cleanup_provider\<close> calls the provider's \<open>cleanup\<close> and closes its library; its trace is the
  identity of the provider.\<close>

definition cleanup_provider :: "fi_provider option \<Rightarrow> nat list" where
  "cleanup_provider provider = (case provider of None \<Rightarrow> [] | Some v \<Rightarrow> [pv_id v])"

definition ofi_create_prov_entry :: "(nat \<Rightarrow> bool) \<Rightarrow> ofi_prov list \<Rightarrow> string \<Rightarrow> ofi_prov list option" where
  "ofi_create_prov_entry ok provs name =
    (if \<not> ok 0 \<or> \<not> ok 1 then None
     else Some (provs @ [\<lparr>prov_name = name, prov_provider = None, prov_dlhandle = None, prov_hidden = False\<rparr>]))"

fun create_entries :: "(nat \<Rightarrow> nat \<Rightarrow> bool) \<Rightarrow> nat \<Rightarrow> ofi_prov list \<Rightarrow> string list \<Rightarrow> ofi_prov list" where
  "create_entries ok k provs [] = provs"
| "create_entries ok k provs (n # names) =
    create_entries ok (Suc k)
      (case ofi_create_prov_entry (ok k) provs n of None \<Rightarrow> provs | Some provs' \<Rightarrow> provs') names"

definition ofi_ordered_provs_init :: "(nat \<Rightarrow> nat \<Rightarrow> bool) \<Rightarrow> fabric_state \<Rightarrow> fabric_state" where
  "ofi_ordered_provs_init ok st =
    st\<lparr>prov_list := create_entries ok 0 (prov_list st)
      [''sstmac'', ''ofi_hook_perf'', ''ofi_hook_debug'', ''ofi_hook_noop'']\<rparr>"

definition ofi_has_util_prefix :: "string \<Rightarrow> bool" where
  "ofi_has_util_prefix str = strncaseeq str ''ofi_'' (length ''ofi_'')"

definition ofi_set_prov_type :: "fi_provider \<Rightarrow> fi_provider" where
  "ofi_set_prov_type provider =
    provider\<lparr>pv_type :=
      (if pv_getinfo provider = None then OFI_PROV_HOOK
       else if ofi_has_util_prefix (the (pv_name provider)) then OFI_PROV_UTIL
       else OFI_PROV_CORE)\<rparr>"

text \<open>Updates the entry of the given name, the one \<open>ofi_getprov\<close> returned a pointer to.\<close>

fun update_prov :: "string \<Rightarrow> (ofi_prov \<Rightarrow> ofi_prov) \<Rightarrow> ofi_prov list \<Rightarrow> ofi_prov list" where
  "update_prov name f [] = []"
| "update_prov name f (p # ps) = (if prov_name p = name then f p # ps else p # update_prov name f ps)"

text \<open>The provider with its context set up, and the assignments at the end of
  \<open>ofi_register_provider\<close>, where \<open>hide\<close> says whether \<open>prov->hidden = true\<close> is executed.\<close>

definition reg_provider :: "fabric_state \<Rightarrow> fi_provider \<Rightarrow> fi_provider" where
  "reg_provider st provider =
    (if ofi_apply_filter (prov_log_filter st) (the (pv_name provider))
     then (ofi_set_prov_type provider)\<lparr>pv_disable_logging := True\<rparr> else ofi_set_prov_type provider)"

definition reg_entry :: "bool \<Rightarrow> fid option \<Rightarrow> fi_provider \<Rightarrow> ofi_prov \<Rightarrow> ofi_prov" where
  "reg_entry hide dlhandle provider p =
    p\<lparr>prov_hidden := (if hide then True else prov_hidden p), prov_dlhandle := dlhandle,
      prov_provider := Some provider\<rparr>"

text \<open>The result, the new state and the providers cleaned up.\<close>

definition ofi_register_provider ::
    "(nat \<Rightarrow> bool) \<Rightarrow> fabric_state \<Rightarrow> fi_provider option \<Rightarrow> fid option \<Rightarrow> unit fi_result \<times> fabric_state \<times> nat list" where
  "ofi_register_provider ok st provider_ptr dlhandle =
    (case provider_ptr of
       None \<Rightarrow> (Inl FI_EINVAL, st, [])
     | Some provider0 \<Rightarrow>
         if pv_name provider0 = None then (Inl FI_EINVAL, st, cleanup_provider provider_ptr)
         else if pv_fabric provider0 = None then (Inl FI_EINVAL, st, cleanup_provider provider_ptr)
         else if pv_fi_version provider0 < FI_VERSION 1 3
         then (Inl FI_ENOSYS, st, cleanup_provider provider_ptr)
         else
           let name = the (pv_name provider0);
               hidden = ofi_getinfo_filter (prov_filter st) (ofi_set_prov_type provider0);
               provider = reg_provider st provider0
           in case ofi_getprov (prov_list st) name of
                Some p \<Rightarrow>
                  (case prov_provider p of
                     None \<Rightarrow>
                       (Inr (), st\<lparr>prov_list := update_prov name (reg_entry False dlhandle provider) (prov_list st)\<rparr>, [])
                   | Some old \<Rightarrow>
                       if FI_VERSION_GE (pv_version old) (pv_version provider)
                       then (Inl FI_EALREADY, st, cleanup_provider (Some provider))
                       else (Inr (), st\<lparr>prov_list := update_prov name (reg_entry hidden dlhandle provider) (prov_list st)\<rparr>,
                             cleanup_provider (Some old)))
              | None \<Rightarrow>
                  (case ofi_create_prov_entry ok (prov_list st) name of
                     None \<Rightarrow> (Inl FI_EOTHER, st, cleanup_provider (Some provider))
                   | Some provs \<Rightarrow>
                       (Inr (), st\<lparr>prov_list := update_prov name (reg_entry hidden dlhandle provider) provs\<rparr>, [])))"

text \<open>The names of the filter are only looked up to log a warning, except that a list that is
  \<open>NULL\<close> is dereferenced: the outer \<open>None\<close> of the two functions below.  \<open>ok 0\<close> answers the
  allocations of the filter string, \<open>ok (Suc i)\<close> those of its \<open>i\<close>-th name.\<close>

fun verify_names :: "(nat \<Rightarrow> nat \<Rightarrow> bool) \<Rightarrow> nat \<Rightarrow> string list \<Rightarrow> unit fi_result" where
  "verify_names ok i [] = Inr ()"
| "verify_names ok i (n # names) =
    (case ofi_split_and_alloc (ok (Suc i)) (Some n) (Some '';'') of
       Some (Some _) \<Rightarrow> verify_names ok (Suc i) names
     | _ \<Rightarrow> Inl FI_ENODATA)"

definition verify_filter_names :: "(nat \<Rightarrow> nat \<Rightarrow> bool) \<Rightarrow> string list option \<Rightarrow> unit fi_result option" where
  "verify_filter_names ok names = map_option (verify_names ok 0) names"

definition ofi_create_filter :: "(nat \<Rightarrow> nat \<Rightarrow> bool) \<Rightarrow> string option \<Rightarrow> fi_filter option" where
  "ofi_create_filter ok raw_filter =
    (case raw_filter of
       None \<Rightarrow> Some \<lparr>flt_names = None, flt_negated = False\<rparr>
     | Some raw \<Rightarrow>
         let neg = (raw \<noteq> [] \<and> hd raw = CHR ''^'');
             raw' = (if neg then tl raw else raw);
             names = (case ofi_split_and_alloc (ok 0) (Some raw') (Some '','') of
                        Some (Some (arr, _)) \<Rightarrow> Some arr | _ \<Rightarrow> None)
         in case verify_filter_names ok names of
              None \<Rightarrow> None
            | Some _ \<Rightarrow> Some \<lparr>flt_names = names, flt_negated = neg\<rparr>)"

fun register_all ::
    "(nat \<Rightarrow> nat \<Rightarrow> bool) \<Rightarrow> nat \<Rightarrow> fabric_state \<Rightarrow> (fi_provider option \<times> fid option) list \<Rightarrow> fabric_state \<times> nat list" where
  "register_all ok k st [] = (st, [])"
| "register_all ok k st ((v, dl) # rest) =
    (let (_, st1, c1) = ofi_register_provider (ok k) st v dl; (st2, c2) = register_all ok (Suc k) st1 rest
     in (st2, c1 @ c2))"

definition ofi_hook_init :: "(nat \<Rightarrow> bool) \<Rightarrow> fabric_state \<Rightarrow> string option \<Rightarrow> fabric_state" where
  "ofi_hook_init ok st param_val =
    (case param_val of
       None \<Rightarrow> st
     | Some v \<Rightarrow> (case ofi_split_and_alloc ok (Some v) (Some '';'') of
                    Some (Some (arr, _)) \<Rightarrow> st\<lparr>hooks := Some arr\<rparr>
                  | _ \<Rightarrow> st\<lparr>hooks := None\<rparr>))"

text \<open>\<open>fi_ini\<close>: \<open>hook_val\<close> and \<open>param_val\<close> are the environment's values of the parameters \<open>hook\<close> and
  \<open>provider\<close>, \<open>provs\<close> the dynamically loaded and built-in providers in the order in which they are
  registered.  The initialisation of logging, memory and monitors is not part of the state.\<close>

definition fi_ini ::
    "(nat \<Rightarrow> nat \<Rightarrow> bool) \<Rightarrow> (nat \<Rightarrow> bool) \<Rightarrow> (nat \<Rightarrow> nat \<Rightarrow> bool) \<Rightarrow> (nat \<Rightarrow> nat \<Rightarrow> bool) \<Rightarrow> fabric_state \<Rightarrow>
      string option \<Rightarrow> string option \<Rightarrow> (fi_provider option \<times> fid option) list \<Rightarrow> (fabric_state \<times> nat list) option" where
  "fi_ini ok_ord ok_hook ok_flt ok_reg st hook_val param_val provs =
    (if ofi_init st then Some (st, [])
     else let st1 = ofi_hook_init ok_hook (ofi_ordered_provs_init ok_ord st) hook_val
          in case ofi_create_filter ok_flt param_val of
               None \<Rightarrow> None
             | Some flt \<Rightarrow>
                 let (st2, c) = register_all ok_reg 0 (st1\<lparr>prov_filter := flt\<rparr>) provs
                 in Some (st2\<lparr>ofi_init := True\<rparr>, c))"

definition fi_fini :: "fabric_state \<Rightarrow> fabric_state \<times> nat list" where
  "fi_fini st =
    (if \<not> ofi_init st then (st, [])
     else (st\<lparr>prov_list := []\<rparr>, concat (map (\<lambda>p. cleanup_provider (prov_provider p)) (prov_list st))))"

subsection \<open>\<open>fi_getinfo\<close>\<close>

text \<open>What an output pointer holds when a function returns: \<open>NULL\<close>, freed memory, or an object.\<close>

datatype 'a out_ptr = Null_ptr | Freed_ptr | Valid_ptr 'a

text \<open>\<open>ok k\<close> answers the six allocations of the \<open>k\<close>-th entry and, as number 6, the copy of its name.
  On failure the code frees the last entry only.\<close>

fun getprovinfo_loop ::
    "(nat \<Rightarrow> nat \<Rightarrow> bool) \<Rightarrow> nat \<Rightarrow> fi_info list \<Rightarrow> ofi_prov list \<Rightarrow> unit fi_result \<times> fi_info list out_ptr" where
  "getprovinfo_loop ok k acc [] = (if acc = [] then (Inl FI_ENODATA, Null_ptr) else (Inr (), Valid_ptr acc))"
| "getprovinfo_loop ok k acc (p # ps) =
    (case prov_provider p of
       None \<Rightarrow> getprovinfo_loop ok (Suc k) acc ps
     | Some v \<Rightarrow>
         (case ofi_allocinfo_internal (ok k) of
            None \<Rightarrow> (Inl FI_ENOMEM, if acc = [] then Null_ptr else Freed_ptr)
          | Some cur \<Rightarrow>
              let fab = (the (fi_fabric_attr cur))\<lparr>fab_prov_name := (if ok k 6 then pv_name v else None),
                    fab_prov_version := pv_version v\<rparr>
              in getprovinfo_loop ok (Suc k) (acc @ [cur\<lparr>fi_fabric_attr := Some fab\<rparr>]) ps))"

definition ofi_getprovinfo ::
    "(nat \<Rightarrow> nat \<Rightarrow> bool) \<Rightarrow> fabric_state \<Rightarrow> unit fi_result \<times> fi_info list out_ptr" where
  "ofi_getprovinfo ok st = getprovinfo_loop ok 0 [] (prov_list st)"

definition ofi_strdup_append :: "bool \<Rightarrow> string \<Rightarrow> string \<Rightarrow> string option" where
  "ofi_strdup_append malloc_ok head tail = (if malloc_ok then Some (head @ CHR '';'' # tail) else None)"

text \<open>From here to \<open>fi_getinfo\<close>, \<open>None\<close> is a failed assertion or a null pointer dereferenced.\<close>

definition ofi_set_prov_attr :: "bool \<Rightarrow> fi_fabric_attr \<Rightarrow> fi_provider \<Rightarrow> fi_fabric_attr option" where
  "ofi_set_prov_attr malloc_ok attr prov =
    (let named = (\<lambda>name. attr\<lparr>fab_prov_name := name, fab_prov_version := pv_version prov\<rparr>)
     in case fab_prov_name attr of
          Some core_name \<Rightarrow>
            if ofi_is_util_prov prov then Some (named (ofi_strdup_append malloc_ok core_name (the (pv_name prov)))) else None
        | None \<Rightarrow> if ofi_is_core_prov prov then Some (named (if malloc_ok then pv_name prov else None)) else None)"

text \<open>\<open>excluded\<close> are the names at the end that start with a caret.\<close>

definition ofi_layering_ok :: "fi_provider \<Rightarrow> string list \<Rightarrow> u64 \<Rightarrow> bool option" where
  "ofi_layering_ok provider prov_vec flags =
    (let name = the (pv_name provider);
         excluded = takeWhile (\<lambda>n. n \<noteq> [] \<and> hd n = CHR ''^'') (rev prov_vec);
         vec = take (length prov_vec - length excluded) prov_vec;
         count = length vec; core_only = (flags AND OFI_CORE_PROV_ONLY \<noteq> 0)
     in if \<exists>n \<in> set excluded. strcaseeq (tl n) name then Some False
        else if core_only \<and> \<not> (count = 1 \<or> count = 0) then None
        else Some
         (if core_only \<and> \<not> ofi_is_core_prov provider then False
          else if core_only \<and> count = 0 \<and> strcaseeq name ''sockets'' then False
          else if count = 0 then True
          else if count = 1 \<and> ofi_is_util_prov provider \<and> \<not> ofi_has_util_prefix (vec ! 0)
          then if strcaseeq (vec ! 0) ''sockets'' then False
               else if strcaseeq (vec ! 0) ''shm'' then False else True
          else if count = 2 \<and> ofi_has_util_prefix (vec ! 0) \<and> \<not> ofi_has_util_prefix (vec ! 1)
          then strcaseeq name (vec ! 0)
          else strcaseeq name (vec ! (count - 1))))"

text \<open>The entries a provider returned, stamped with its name, its version and the API version:
  \<open>ok j\<close> answers the allocation for the \<open>j\<close>-th entry.\<close>

fun stamp_infos :: "(nat \<Rightarrow> bool) \<Rightarrow> nat \<Rightarrow> u32 \<Rightarrow> fi_provider \<Rightarrow> fi_info list \<Rightarrow> fi_info list option" where
  "stamp_infos ok j version v [] = Some []"
| "stamp_infos ok j version v (i # is) =
    (case Option.bind (fi_fabric_attr i) (\<lambda>attr. ofi_set_prov_attr (ok j) attr v) of
       None \<Rightarrow> None
     | Some attr \<Rightarrow>
         map_option ((#) (i\<lparr>fi_fabric_attr := Some (attr\<lparr>fab_api_version := version\<rparr>)\<rparr>))
           (stamp_infos ok (Suc j) version v is))"

fun getinfo_loop ::
    "(nat \<Rightarrow> nat \<Rightarrow> bool) \<Rightarrow> nat \<Rightarrow> u32 \<Rightarrow> string option \<Rightarrow> string option \<Rightarrow> u64 \<Rightarrow> fi_info option \<Rightarrow>
      string list \<Rightarrow> fi_info list \<Rightarrow> ofi_prov list \<Rightarrow> fi_info list option" where
  "getinfo_loop ok k version node service flags hints prov_vec acc [] = Some acc"
| "getinfo_loop ok k version node service flags hints prov_vec acc (p # ps) =
    (let next = (\<lambda>acc. getinfo_loop ok (Suc k) version node service flags hints prov_vec acc ps)
     in case prov_provider p of
          None \<Rightarrow> next acc
        | Some v \<Rightarrow>
            (case pv_getinfo v of
               None \<Rightarrow> next acc
             | Some getinfo \<Rightarrow>
                 if prov_hidden p \<and> flags AND OFI_GETINFO_HIDDEN = 0 then next acc
                 else case ofi_layering_ok v prov_vec flags of
                        None \<Rightarrow> None
                      | Some layering_ok \<Rightarrow>
                          if \<not> layering_ok then next acc
                          else if FI_VERSION_LT (pv_fi_version v) version then next acc
                          else case getinfo version node service flags hints of
                                 Inl _ \<Rightarrow> next acc
                               | Inr cur \<Rightarrow>
                                   (case stamp_infos (ok k) 0 version v cur of
                                      None \<Rightarrow> None | Some infos \<Rightarrow> next (acc @ infos))))"

text \<open>The state is initialised (\<open>ofi_init\<close>).  \<open>ok_split\<close> answers the allocations of the name list,
  \<open>ok_prov\<close> those of the entries; the second component of the result are the interface objects
  closed with the entries filtered out.\<close>

definition fi_getinfo ::
    "(nat \<Rightarrow> bool) \<Rightarrow> (nat \<Rightarrow> nat \<Rightarrow> bool) \<Rightarrow> (fid \<Rightarrow> bool) \<Rightarrow> fabric_state \<Rightarrow> u32 \<Rightarrow> string option \<Rightarrow>
      string option \<Rightarrow> u64 \<Rightarrow> fi_info option \<Rightarrow> (fi_info list fi_result \<times> fid list) option" where
  "fi_getinfo ok_split ok_prov closable st version node service flags hints =
    (if FI_VERSION_LT fi_version version then Some (Inl FI_ENOSYS, [])
     else if flags = FI_PROV_ATTR_ONLY
     then Some (case ofi_getprovinfo ok_prov st of
                  (Inr _, Valid_ptr is) \<Rightarrow> (Inr is, [])
                | (Inl e, _) \<Rightarrow> (Inl e, [])
                | (Inr _, _) \<Rightarrow> (Inr [], []))
     else
       let names = (case hints of None \<Rightarrow> None
                    | Some h \<Rightarrow> (case fi_fabric_attr h of None \<Rightarrow> None | Some f \<Rightarrow> fab_prov_name f));
           vec = (case names of None \<Rightarrow> Some []
                  | Some n \<Rightarrow> (case ofi_split_and_alloc ok_split (Some n) (Some '';'') of
                                 Some (Some (arr, _)) \<Rightarrow> Some arr | _ \<Rightarrow> None))
       in case vec of
            None \<Rightarrow> Some (Inl FI_ENOMEM, [])
          | Some prov_vec \<Rightarrow>
              (case getinfo_loop ok_prov 0 version node service flags hints prov_vec [] (prov_list st) of
                 None \<Rightarrow> None
               | Some infos \<Rightarrow>
                   let (kept, closed) =
                     (if flags AND (OFI_CORE_PROV_ONLY OR OFI_GETINFO_INTERNAL OR OFI_GETINFO_HIDDEN) = 0 \<and>
                         flt_names (prov_filter st) \<noteq> None
                      then ofi_filter_info (prov_filter st) closable infos else (infos, []))
                   in Some (if kept = [] then Inl FI_ENODATA else Inr kept, closed)))"

subsection \<open>\<open>fi_fabric\<close> and hooks\<close>

fun hook_install_loop ::
    "(nat \<Rightarrow> bool) \<Rightarrow> nat \<Rightarrow> ofi_prov list \<Rightarrow> nat \<Rightarrow> fid_fabric \<Rightarrow> string list \<Rightarrow> fid_fabric" where
  "hook_install_loop ok i provs prov hfabric [] = hfabric"
| "hook_install_loop ok i provs prov hfabric (name # names) =
    (case ofi_get_hook (ok i) provs name of
       None \<Rightarrow> hook_install_loop ok (Suc i) provs prov hfabric names
     | Some hook_prov \<Rightarrow>
         (case the (pv_fabric hook_prov) (fabric_attr0\<lparr>fab_fabric := Some (fabric_fid hfabric)\<rparr>) prov of
            Inl _ \<Rightarrow> hook_install_loop ok (Suc i) provs prov hfabric names
          | Inr fabric \<Rightarrow> hook_install_loop ok (Suc i) provs prov fabric names))"

definition ofi_hook_install :: "(nat \<Rightarrow> bool) \<Rightarrow> fabric_state \<Rightarrow> nat \<Rightarrow> fid_fabric \<Rightarrow> fid_fabric" where
  "ofi_hook_install ok st prov hfabric =
    (case hooks st of None \<Rightarrow> hfabric | Some names \<Rightarrow> hook_install_loop ok 0 (prov_list st) prov hfabric names)"

text \<open>\<open>strrchr(prov_name, ';') + 1\<close>, or the whole name.\<close>

definition top_name :: "string \<Rightarrow> string" where
  "top_name name = rev (takeWhile (\<lambda>c. c \<noteq> CHR '';'') (rev name))"

definition fi_fabric ::
    "(nat \<Rightarrow> bool) \<Rightarrow> fabric_state \<Rightarrow> fi_fabric_attr option \<Rightarrow> nat \<Rightarrow> fid_fabric fi_result" where
  "fi_fabric ok st attr_ptr context =
    (case attr_ptr of
       None \<Rightarrow> Inl FI_EINVAL
     | Some attr \<Rightarrow>
         if fab_prov_name attr = None \<or> fab_name attr = None then Inl FI_EINVAL
         else case ofi_getprov (prov_list st) (top_name (the (fab_prov_name attr))) of
                None \<Rightarrow> Inl FI_ENODEV
              | Some prov \<Rightarrow>
                  (case prov_provider prov of
                     None \<Rightarrow> Inl FI_ENODEV
                   | Some v \<Rightarrow>
                       (case pv_fabric v of
                          None \<Rightarrow> Inl FI_ENODEV
                        | Some fabric \<Rightarrow>
                            (case fabric attr context of
                               Inl e \<Rightarrow> Inl e
                             | Inr fab \<Rightarrow>
                                 let fab1 = (if FI_VERSION_GE (pv_fi_version v) (FI_VERSION 1 5)
                                             then fab\<lparr>fabric_api_version := fab_api_version attr\<rparr> else fab)
                                 in Inr (ofi_hook_install ok st (pv_id v) fab1)))))"

subsection \<open>Layering of utility providers (\<^verbatim>\<open>util_attr.c\<close>)\<close>

definition ofi_exclude_prov_name :: "(nat \<Rightarrow> bool) \<Rightarrow> string option \<Rightarrow> string \<Rightarrow> string fi_result" where
  "ofi_exclude_prov_name ok prov_name_list util_prov_name =
    (if \<not> ok 0 then Inl FI_ENOMEM
     else let exclude = CHR ''^'' # util_prov_name
          in case prov_name_list of
               None \<Rightarrow> Inr exclude
             | Some l \<Rightarrow>
                 if \<not> ok 1 then Inl FI_ENOMEM
                 else let name = (case ofi_rm_substr_delim (ok 2) l util_prov_name (CHR '';'') of
                                    Inr r \<Rightarrow> r | Inl _ \<Rightarrow> l)
                      in if name \<noteq> []
                         then case ofi_strdup_append (ok 3) name exclude of
                                None \<Rightarrow> Inl FI_ENOMEM | Some temp \<Rightarrow> Inr temp
                         else Inr exclude)"

definition ofi_dup_addr :: "(nat \<Rightarrow> bool) \<Rightarrow> fi_info \<Rightarrow> fi_info \<Rightarrow> fi_info fi_result" where
  "ofi_dup_addr ok info dup =
    and_then
      (let dup = dup\<lparr>fi_addr_format := fi_addr_format info\<rparr>
       in case fi_src_addr info of
            None \<Rightarrow> Inr dup
          | Some a \<Rightarrow>
              if ok 0 then Inr (dup\<lparr>fi_src_addrlen := fi_src_addrlen info,
                                     fi_src_addr := Some (mem_dup a (fi_src_addrlen info))\<rparr>)
              else Inl FI_ENOMEM)
      (\<lambda>dup. case fi_dest_addr info of
         None \<Rightarrow> Inr dup
       | Some a \<Rightarrow>
           if ok 1 then Inr (dup\<lparr>fi_dest_addrlen := fi_dest_addrlen info,
                                  fi_dest_addr := Some (mem_dup a (fi_dest_addrlen info))\<rparr>)
           else Inl FI_ENOMEM)"

definition upd_fabric_attr :: "(fi_fabric_attr \<Rightarrow> fi_fabric_attr) \<Rightarrow> fi_info \<Rightarrow> fi_info" where
  "upd_fabric_attr f i = i\<lparr>fi_fabric_attr := Some (f (the (fi_fabric_attr i)))\<rparr>"

definition upd_domain_attr :: "(fi_domain_attr \<Rightarrow> fi_domain_attr) \<Rightarrow> fi_info \<Rightarrow> fi_info" where
  "upd_domain_attr f i = i\<lparr>fi_domain_attr := Some (f (the (fi_domain_attr i)))\<rparr>"

text \<open>The part of \<open>ofi_info_to_core\<close> for the fabric attribute.  \<open>Inl r\<close> is \<open>goto err\<close> with \<open>ret = r\<close>;
  \<open>Inr (r, core)\<close> goes on with \<open>ret = r\<close>, which is \<open>-FI_ENOMEM\<close> from the start until
  \<open>ofi_exclude_prov_name\<close> sets it.\<close>

definition core_fabric_step ::
    "(nat \<Rightarrow> bool) \<Rightarrow> string \<Rightarrow> fi_info \<Rightarrow> fi_info \<Rightarrow> unit fi_result + unit fi_result \<times> fi_info" where
  "core_fabric_step ok prov util_info core =
    (case fi_fabric_attr util_info of
       None \<Rightarrow> Inr (Inl FI_ENOMEM, core)
     | Some f \<Rightarrow>
         and_then
           (case fab_name f of
              None \<Rightarrow> Inr core
            | Some n \<Rightarrow> if ok 8 then Inr (upd_fabric_attr (\<lambda>a. a\<lparr>fab_name := Some n\<rparr>) core) else Inl (Inl FI_ENOMEM))
           (\<lambda>core. case fab_prov_name f of
              None \<Rightarrow> Inr (Inl FI_ENOMEM, core)
            | Some n \<Rightarrow>
                if \<not> ok 9 then Inl (Inl FI_ENOMEM)
                else case ofi_exclude_prov_name (\<lambda>i. ok (10 + i)) (Some n) prov of
                       Inl e \<Rightarrow> Inl (Inl e)
                     | Inr n' \<Rightarrow> Inr (Inr (), upd_fabric_attr (\<lambda>a. a\<lparr>fab_prov_name := Some n'\<rparr>) core)))"

definition ofi_info_to_core ::
    "(nat \<Rightarrow> bool) \<Rightarrow> u32 \<Rightarrow> string \<Rightarrow> fi_info option \<Rightarrow> (u32 \<Rightarrow> fi_info option \<Rightarrow> fi_info \<Rightarrow> fi_info fi_result) \<Rightarrow>
      unit fi_result \<times> fi_info out_ptr" where
  "ofi_info_to_core ok version prov util_info_ptr info_to_core =
    (case ofi_allocinfo_internal ok of
       None \<Rightarrow> (Inl FI_ENOMEM, Null_ptr)
     | Some core0 \<Rightarrow>
         (case info_to_core version util_info_ptr core0 of
            Inl _ \<Rightarrow> (Inl FI_ENOMEM, Freed_ptr)
          | Inr core1 \<Rightarrow>
              (case util_info_ptr of
                 None \<Rightarrow> (Inr (), Valid_ptr core1)
               | Some util_info \<Rightarrow>
                   (case ofi_dup_addr (\<lambda>i. ok (6 + i)) util_info core1 of
                      Inl _ \<Rightarrow> (Inl FI_ENOMEM, Freed_ptr)
                    | Inr core2 \<Rightarrow>
                        (case core_fabric_step ok prov util_info core2 of
                           Inl ret \<Rightarrow> (ret, Freed_ptr)
                         | Inr (ret, core3) \<Rightarrow>
                             (case (case fi_domain_attr util_info of None \<Rightarrow> None | Some d \<Rightarrow> dom_name d) of
                                None \<Rightarrow> (Inr (), Valid_ptr core3)
                              | Some n \<Rightarrow>
                                  if ok 14
                                  then (Inr (), Valid_ptr (upd_domain_attr (\<lambda>a. a\<lparr>dom_name := Some n\<rparr>) core3))
                                  else (ret, Freed_ptr)))))))"

text \<open>\<open>ofi_info_to_util\<close>: the outer \<open>None\<close> is the failed assertion, with the condition as it is
  written in the code.\<close>

definition ofi_info_to_util ::
    "(nat \<Rightarrow> bool) \<Rightarrow> u32 \<Rightarrow> fi_info \<Rightarrow> (u32 \<Rightarrow> fi_info \<Rightarrow> fi_info \<Rightarrow> fi_info fi_result) \<Rightarrow> fi_info fi_result option" where
  "ofi_info_to_util ok version core_info info_to_util =
    (case ofi_allocinfo_internal ok of
       None \<Rightarrow> Some (Inl FI_ENOMEM)
     | Some util0 \<Rightarrow>
         (case info_to_util version core_info util0 of
            Inl _ \<Rightarrow> Some (Inl FI_ENOMEM)
          | Inr util1 \<Rightarrow>
              (case ofi_dup_addr (\<lambda>i. ok (6 + i)) core_info util1 of
                 Inl _ \<Rightarrow> Some (Inl FI_ENOMEM)
               | Inr util2 \<Rightarrow>
                   if \<not> (FI_VERSION_LT 1 4 \<or> dom_name (the (fi_domain_attr core_info)) \<noteq> None) then None
                   else Some
                     (and_then
                       (case dom_name (the (fi_domain_attr core_info)) of
                          None \<Rightarrow> Inr util2
                        | Some n \<Rightarrow> if ok 8 then Inr (upd_domain_attr (\<lambda>a. a\<lparr>dom_name := Some n\<rparr>) util2)
                                    else Inl FI_ENOMEM) (\<lambda>util3.
                      if \<not> ok 9 then Inl FI_ENOMEM
                      else if \<not> ok 10 then Inl FI_ENOMEM
                      else Inr (upd_fabric_attr (\<lambda>a. a\<lparr>fab_name := fab_name (the (fi_fabric_attr core_info)),
                             fab_prov_name := fab_prov_name (the (fi_fabric_attr core_info))\<rparr>) util3))))))"

text \<open>The layered query: \<open>None\<close> is the use of freed hints.  \<open>getinfo\<close> is \<open>fi_getinfo\<close> of the library.\<close>

definition ofi_get_core_info ::
    "(nat \<Rightarrow> bool) \<Rightarrow> (u32 \<Rightarrow> string option \<Rightarrow> string option \<Rightarrow> u64 \<Rightarrow> fi_info option \<Rightarrow> fi_info list fi_result \<times> fid list) \<Rightarrow>
      u32 \<Rightarrow> string option \<Rightarrow> string option \<Rightarrow> u64 \<Rightarrow> string \<Rightarrow> fi_info list \<Rightarrow> fi_info option \<Rightarrow>
      (u32 \<Rightarrow> fi_info option \<Rightarrow> fi_info \<Rightarrow> fi_info fi_result) \<Rightarrow> fi_info list fi_result option" where
  "ofi_get_core_info ok getinfo version node service flags prov prov_infos util_hints info_to_core =
    (case ofi_prov_check_info prov_infos version util_hints of
       Inl e \<Rightarrow> Some (Inl e)
     | Inr _ \<Rightarrow>
         (case ofi_info_to_core ok version prov util_hints info_to_core of
            (Inl e, _) \<Rightarrow> Some (Inl e)
          | (Inr _, Valid_ptr core_hints) \<Rightarrow>
              Some (fst (getinfo version node service (flags OR OFI_CORE_PROV_ONLY) (Some core_hints)))
          | (Inr _, _) \<Rightarrow> None))"

fun ofix_loop ::
    "(nat \<Rightarrow> nat \<Rightarrow> bool) \<Rightarrow> nat \<Rightarrow> u32 \<Rightarrow> fi_info option \<Rightarrow> (u32 \<Rightarrow> fi_info \<Rightarrow> fi_info \<Rightarrow> fi_info fi_result) \<Rightarrow>
      fi_info list \<Rightarrow> fi_info list \<Rightarrow> fi_info list fi_result option" where
  "ofix_loop ok k version hints info_to_util acc [] = Some (Inr acc)"
| "ofix_loop ok k version hints info_to_util acc (cur # rest) =
    (case ofi_info_to_util (ok k) version cur info_to_util of
       None \<Rightarrow> None
     | Some (Inl e) \<Rightarrow> Some (Inl e)
     | Some (Inr util_info) \<Rightarrow>
         ofix_loop ok (Suc k) version hints info_to_util
           (acc @ ofi_alter_info [util_info] hints version) rest)"

definition ofix_getinfo ::
    "(nat \<Rightarrow> bool) \<Rightarrow> (nat \<Rightarrow> nat \<Rightarrow> bool) \<Rightarrow>
      (u32 \<Rightarrow> string option \<Rightarrow> string option \<Rightarrow> u64 \<Rightarrow> fi_info option \<Rightarrow> fi_info list fi_result \<times> fid list) \<Rightarrow>
      u32 \<Rightarrow> string option \<Rightarrow> string option \<Rightarrow> u64 \<Rightarrow> string \<Rightarrow> fi_info list \<Rightarrow> fi_info option \<Rightarrow>
      (u32 \<Rightarrow> fi_info option \<Rightarrow> fi_info \<Rightarrow> fi_info fi_result) \<Rightarrow> (u32 \<Rightarrow> fi_info \<Rightarrow> fi_info \<Rightarrow> fi_info fi_result) \<Rightarrow>
      fi_info list fi_result option" where
  "ofix_getinfo ok_core ok_util getinfo version node service flags prov prov_infos hints info_to_core info_to_util =
    (case ofi_get_core_info ok_core getinfo version node service flags prov prov_infos hints info_to_core of
       None \<Rightarrow> None
     | Some (Inl e) \<Rightarrow> Some (Inl e)
     | Some (Inr core_infos) \<Rightarrow> ofix_loop ok_util 0 version hints info_to_util [] core_infos)"

definition ofi_get_core_info_fabric ::
    "(nat \<Rightarrow> bool) \<Rightarrow> (u32 \<Rightarrow> string option \<Rightarrow> string option \<Rightarrow> u64 \<Rightarrow> fi_info option \<Rightarrow> fi_info list fi_result \<times> fid list) \<Rightarrow>
      string \<Rightarrow> fi_fabric_attr \<Rightarrow> fi_info list fi_result" where
  "ofi_get_core_info_fabric ok getinfo prov util_attr =
    (let util_name = the (fab_prov_name util_attr)
     in if strstr util_name prov = None then Inl FI_ENODATA
        else if \<not> ok 0 then Inl FI_ENOMEM
        else if \<not> ok 1 then Inl FI_ENOMEM
        else case ofi_exclude_prov_name (\<lambda>i. ok (2 + i)) (Some util_name) prov of
               Inl e \<Rightarrow> Inl e
             | Inr n \<Rightarrow>
                 let hints = info0\<lparr>fi_mode := - 1, fi_fabric_attr := Some (fabric_attr0\<lparr>fab_prov_name := Some n,
                       fab_name := fab_name util_attr, fab_api_version := fab_api_version util_attr\<rparr>)\<rparr>
                 in fst (getinfo (fab_api_version util_attr) None None OFI_CORE_PROV_ONLY (Some hints)))"

subsection \<open>Open fabrics and \<open>util_getinfo\<close> (\<^verbatim>\<open>util_main.c\<close>)\<close>

record util_domain =
  ud_fid :: fid
  ud_name :: string
  ud_info_domain_caps :: u64
  ud_info_domain_mode :: u64
  ud_mr_mode :: u32

record util_fabric =
  uf_fid :: fid
  uf_prov :: nat
  uf_name :: string
  uf_domain_list :: "util_domain list"

text \<open>\<open>fabric_list\<close> is the list of open fabrics, in the order of insertion.\<close>

definition ofi_fabric_insert :: "util_fabric \<Rightarrow> util_fabric list \<Rightarrow> util_fabric list" where
  "ofi_fabric_insert fabric fabric_list = fabric_list @ [fabric]"

definition ofi_fabric_remove :: "util_fabric \<Rightarrow> util_fabric list \<Rightarrow> util_fabric list" where
  "ofi_fabric_remove fabric fabric_list = filter (\<lambda>f. uf_fid f \<noteq> uf_fid fabric) fabric_list"

definition util_match_fabric :: "string \<Rightarrow> nat \<Rightarrow> util_fabric \<Rightarrow> bool" where
  "util_match_fabric name prov fabric \<longleftrightarrow> prov = uf_prov fabric \<and> uf_name fabric = name"

definition util_find_domain :: "fi_info \<Rightarrow> util_domain \<Rightarrow> bool" where
  "util_find_domain info domain \<longleftrightarrow>
    (let d = the (fi_domain_attr info)
     in Some (ud_name domain) = dom_name d \<and>
        (fi_caps info OR dom_caps d) AND NOT (ud_info_domain_caps domain) = 0 \<and>
        (fi_mode info OR dom_mode d) AND ud_info_domain_mode domain = ud_info_domain_mode domain \<and>
        dom_mr_mode d AND ud_mr_mode domain = ud_mr_mode domain)"

text \<open>A list of file descriptors; a descriptor in the list already is not inserted again.\<close>

definition fid_list_insert :: "bool \<Rightarrow> fid list \<Rightarrow> fid \<Rightarrow> fid list fi_result" where
  "fid_list_insert calloc_ok fid_list f =
    (if f \<in> set fid_list then Inr fid_list
     else if \<not> calloc_ok then Inl FI_ENOMEM
     else Inr (fid_list @ [f]))"

definition fid_list_remove :: "fid list \<Rightarrow> fid \<Rightarrow> fid list" where
  "fid_list_remove fid_list f = remove1 f fid_list"

text \<open>Attaches the open fabric and domain objects an entry matches.\<close>

definition attach_open :: "util_fabric list \<Rightarrow> nat \<Rightarrow> fi_info \<Rightarrow> fi_info" where
  "attach_open fabric_list prov info =
    (case find (util_match_fabric (the (fab_name (the (fi_fabric_attr info)))) prov) fabric_list of
       None \<Rightarrow> info
     | Some fabric \<Rightarrow>
         let info1 = upd_fabric_attr (\<lambda>a. a\<lparr>fab_fabric := Some (uf_fid fabric)\<rparr>) info
         in case find (util_find_domain info1) (uf_domain_list fabric) of
              None \<Rightarrow> info1
            | Some domain \<Rightarrow> upd_domain_attr (\<lambda>a. a\<lparr>dom_domain := Some (ud_fid domain)\<rparr>) info1)"

text \<open>Address resolution: \<open>get_addr\<close> and \<open>get_src_addr\<close> are \<open>ofi_get_addr\<close> and \<open>ofi_get_src_addr\<close>, which
  ask the resolver of the system; the first one may change the address format.  The function is the
  rest of the loop body of \<open>util_getinfo\<close>.\<close>

definition resolve_addrs ::
    "(nat \<Rightarrow> bool) \<Rightarrow> (u32 \<Rightarrow> u64 \<Rightarrow> string option \<Rightarrow> string option \<Rightarrow> (u32 \<times> u8 list) fi_result) \<Rightarrow>
      (u32 \<Rightarrow> u8 list \<Rightarrow> u8 list fi_result) \<Rightarrow> string option \<Rightarrow> string option \<Rightarrow> u64 \<Rightarrow> fi_info option \<Rightarrow>
      fi_info \<Rightarrow> fi_info fi_result" where
  "resolve_addrs ok get_addr get_src_addr node service flags hints info =
    (let hints_dest = (case hints of None \<Rightarrow> None | Some h \<Rightarrow> fi_dest_addr h);
         hints_src = (case hints of None \<Rightarrow> None | Some h \<Rightarrow> fi_src_addr h)
     in and_then
          (if flags AND FI_SOURCE \<noteq> 0
           then case get_addr (fi_addr_format info) flags node service of
                  Inl e \<Rightarrow> Inl e
                | Inr (fmt, a) \<Rightarrow> Inr (info\<lparr>fi_addr_format := fmt, fi_src_addr := Some a,
                    fi_src_addrlen := of_nat (length a)\<rparr>, hints_dest \<noteq> None)
           else and_then
             (if node \<noteq> None \<or> service \<noteq> None
              then case get_addr (fi_addr_format info) flags node service of
                     Inl e \<Rightarrow> Inl e
                   | Inr (fmt, a) \<Rightarrow> Inr (info\<lparr>fi_addr_format := fmt, fi_dest_addr := Some a,
                       fi_dest_addrlen := of_nat (length a)\<rparr>, False)
              else Inr (info, hints_dest \<noteq> None))
             (\<lambda>(info, copy_dest). case hints_src of
                None \<Rightarrow> Inr (info, copy_dest)
              | Some a \<Rightarrow>
                  if \<not> ok 0 then Inl FI_ENOMEM
                  else Inr (info\<lparr>fi_src_addr := Some (mem_dup a (fi_src_addrlen (the hints))),
                    fi_src_addrlen := fi_src_addrlen (the hints), fi_addr_format := fi_addr_format (the hints)\<rparr>, copy_dest)))
          (\<lambda>(info, copy_dest).
        and_then
          (if copy_dest
           then if \<not> ok 1 then Inl FI_ENOMEM
                else Inr (info\<lparr>fi_dest_addr := Some (mem_dup (the hints_dest) (fi_dest_addrlen (the hints))),
                  fi_dest_addrlen := fi_dest_addrlen (the hints), fi_addr_format := fi_addr_format (the hints)\<rparr>)
           else Inr info)
          (\<lambda>info.
        case (fi_dest_addr info, fi_src_addr info) of
          (Some d, None) \<Rightarrow>
            (case get_src_addr (fi_addr_format info) d of
               Inl _ \<Rightarrow> Inr info
             | Inr a \<Rightarrow> Inr (info\<lparr>fi_src_addr := Some a, fi_src_addrlen := of_nat (length a)\<rparr>))
        | _ \<Rightarrow> Inr info)))"

fun util_getinfo_loop ::
    "(nat \<Rightarrow> nat \<Rightarrow> bool) \<Rightarrow> nat \<Rightarrow> (fid \<Rightarrow> bool) \<Rightarrow> (fi_info \<Rightarrow> fi_info) \<Rightarrow>
      ((nat \<Rightarrow> bool) \<Rightarrow> fi_info \<Rightarrow> fi_info fi_result) \<Rightarrow> fi_info list \<Rightarrow> fi_info list \<Rightarrow> fi_info list fi_result \<times> fid list" where
  "util_getinfo_loop ok k closable attach resolve done [] = (Inr done, [])"
| "util_getinfo_loop ok k closable attach resolve done (info # rest) =
    (case resolve (ok k) (attach info) of
       Inl e \<Rightarrow> (Inl e, fi_freeinfo closable (attach info # rest))
     | Inr info' \<Rightarrow> util_getinfo_loop ok (Suc k) closable attach resolve (done @ [info']) rest)"

definition util_getinfo ::
    "(nat \<Rightarrow> nat \<Rightarrow> bool) \<Rightarrow> (nat \<Rightarrow> nat \<Rightarrow> bool) \<Rightarrow> (fid \<Rightarrow> fid fi_result) \<Rightarrow> (fid \<Rightarrow> bool) \<Rightarrow>
      (u32 \<Rightarrow> u64 \<Rightarrow> string option \<Rightarrow> string option \<Rightarrow> (u32 \<times> u8 list) fi_result) \<Rightarrow>
      (u32 \<Rightarrow> u8 list \<Rightarrow> u8 list fi_result) \<Rightarrow> util_fabric list \<Rightarrow> nat \<Rightarrow> fi_info list \<Rightarrow> u32 \<Rightarrow> string option \<Rightarrow>
      string option \<Rightarrow> u64 \<Rightarrow> fi_info option \<Rightarrow> fi_info list fi_result \<times> fid list" where
  "util_getinfo ok_dup ok_addr nic_dup closable get_addr get_src_addr fabric_list prov prov_infos version
      node service flags hints =
    (if flags AND FI_SOURCE \<noteq> 0 \<and> node = None \<and> service = None then (Inl FI_EINVAL, [])
     else case ofi_prov_check_dup_info ok_dup nic_dup closable prov_infos version hints True of
            (Inl e, closed) \<Rightarrow> (Inl e, closed)
          | (Inr infos, closed) \<Rightarrow>
              util_getinfo_loop ok_addr 0 closable (attach_open fabric_list prov)
                (\<lambda>ok. resolve_addrs ok get_addr get_src_addr node service flags hints) []
                (ofi_alter_info infos hints version))"

subsection \<open>Lemmas\<close>

lemma strsep_none: "c \<notin> set a \<Longrightarrow> strsep a [c] = (a, None)"
  by (induction a) (auto simp: strsep_def)

lemma strsep_some: "c \<notin> set a \<Longrightarrow> strsep (a @ c # r) [c] = (a, Some r)"
  by (induction a) (auto simp: strsep_def)

lemma strsep_loop_single: "c \<notin> set u \<Longrightarrow> strsep_loop (Some u) [c] = [u]"
  by (simp add: strsep_none)

lemma strsep_loop_snoc:
  assumes "c \<notin> set u"
  shows "strsep_loop (Some (a @ c # u)) [c] = strsep_loop (Some a) [c] @ [u]"
proof (induction a rule: measure_induct_rule [of length])
  case (less a)
  show ?case
  proof (cases "c \<in> set a")
    case True
    then obtain x r where "a = x @ c # r" "c \<notin> set x" by (meson split_list_first)
    then show ?thesis using less [of r] by (simp add: strsep_some)
  qed (simp add: strsep_some strsep_none assms)
qed

lemma split_and_alloc_Some:
  "ofi_split_and_alloc ok (Some s) (Some d) = Some (Some (arr, n)) \<Longrightarrow> arr = strsep_loop (Some s) d"
  by (auto simp: ofi_split_and_alloc_def Let_def split: if_splits)

lemma exclude_prov_name_last:
  assumes "ofi_exclude_prov_name ok l u = Inr l'" and "CHR '';'' \<notin> set u"
  shows "\<exists>xs. strsep_loop (Some l') '';'' = xs @ [CHR ''^'' # u]"
proof -
  have "l' = CHR ''^'' # u \<or> (\<exists>a. l' = a @ CHR '';'' # CHR ''^'' # u)"
    using assms(1) by (auto simp: ofi_exclude_prov_name_def ofi_strdup_append_def Let_def
        split: if_splits option.splits)
  moreover have "CHR '';'' \<notin> set (CHR ''^'' # u)" using assms(2) by simp
  ultimately show ?thesis using strsep_loop_snoc strsep_loop_single by (metis append_Nil)
qed

lemma layering_excluded:
  assumes "pv_name v = Some u"
  shows "ofi_layering_ok v (xs @ [CHR ''^'' # u]) flags = Some False"
  using assms by (simp add: ofi_layering_ok_def Let_def strcaseeq_def)

subsection \<open>The registry\<close>

definition registered :: "ofi_prov list \<Rightarrow> string \<Rightarrow> fi_provider option" where
  "registered provs name = (case ofi_getprov provs name of None \<Rightarrow> None | Some p \<Rightarrow> prov_provider p)"

definition registry_inv :: "ofi_prov list \<Rightarrow> bool" where
  "registry_inv provs \<longleftrightarrow> distinct (map prov_name provs) \<and>
    (\<forall>p \<in> set provs. \<forall>v. prov_provider p = Some v \<longrightarrow>
      pv_name v = Some (prov_name p) \<and> pv_fabric v \<noteq> None \<and> FI_VERSION 1 3 \<le> pv_fi_version v)"

lemma getprov_Some: "ofi_getprov provs name = Some p \<Longrightarrow> p \<in> set provs \<and> prov_name p = name"
  by (auto simp: ofi_getprov_def find_Some_iff)

lemma getprov_None: "ofi_getprov provs name = None \<longleftrightarrow> name \<notin> prov_name ` set provs"
  by (auto simp: ofi_getprov_def find_None_iff)

lemma getprov_append:
  "ofi_getprov (xs @ ys) name = (case ofi_getprov xs name of None \<Rightarrow> ofi_getprov ys name | Some p \<Rightarrow> Some p)"
  by (induction xs) (auto simp: ofi_getprov_def)

lemma getprov_single: "ofi_getprov [p] name = (if prov_name p = name then Some p else None)"
  by (simp add: ofi_getprov_def)

lemma getprov_update:
  assumes "\<And>p. prov_name (f p) = prov_name p"
  shows "ofi_getprov (update_prov name f provs) n =
    (if n = name then map_option f (ofi_getprov provs n) else ofi_getprov provs n)"
  using assms by (induction provs) (auto simp: ofi_getprov_def)

lemma map_prov_name_update:
  "(\<And>p. prov_name (f p) = prov_name p) \<Longrightarrow> map prov_name (update_prov name f provs) = map prov_name provs"
  by (induction provs) auto

lemma set_update_prov: "set (update_prov name f provs) \<subseteq> {f p |p. p \<in> set provs \<and> prov_name p = name} \<union> set provs"
  by (induction provs) auto

lemma registry_inv_update:
  assumes "registry_inv provs" and "\<And>p. prov_name (f p) = prov_name p" and "\<And>p. prov_provider (f p) = Some v"
    and "pv_name v = Some name" "pv_fabric v \<noteq> None" "FI_VERSION 1 3 \<le> pv_fi_version v"
  shows "registry_inv (update_prov name f provs)"
  using assms set_update_prov [of name f provs] unfolding registry_inv_def
  by (force simp: map_prov_name_update)

lemma set_prov_type_simps [simp]:
  "pv_name (ofi_set_prov_type v) = pv_name v" "pv_fabric (ofi_set_prov_type v) = pv_fabric v"
  "pv_fi_version (ofi_set_prov_type v) = pv_fi_version v" "pv_version (ofi_set_prov_type v) = pv_version v"
  by (simp_all add: ofi_set_prov_type_def)

lemma reg_provider_simps [simp]:
  "pv_name (reg_provider st v) = pv_name v" "pv_fabric (reg_provider st v) = pv_fabric v"
  "pv_fi_version (reg_provider st v) = pv_fi_version v" "pv_version (reg_provider st v) = pv_version v"
  by (simp_all add: reg_provider_def)

lemma reg_entry_simps [simp]:
  "prov_name (reg_entry hide dl v p) = prov_name p" "prov_provider (reg_entry hide dl v p) = Some v"
  by (simp_all add: reg_entry_def)

abbreviation "empty_entry n \<equiv> \<lparr>prov_name = n, prov_provider = None, prov_dlhandle = None, prov_hidden = False\<rparr>"

text \<open>\<open>new\<close> is one of the providers \<open>provs\<close>, with its context set up.\<close>

definition offered :: "(fi_provider option \<times> fid option) list \<Rightarrow> fi_provider \<Rightarrow> bool" where
  "offered provs new \<longleftrightarrow> (\<exists>v dl st. (Some v, dl) \<in> set provs \<and> new = reg_provider st v)"

text \<open>The three ways in which \<open>ofi_register_provider\<close> ends: it leaves the state alone, it fills or
  replaces an entry, or it appends a new entry and fills it.\<close>

lemma register_cases:
  assumes "ofi_register_provider ok st v dl = (r, st', c)"
  obtains (same) "st' = st"
  | (set) name v' hide where "st' = st\<lparr>prov_list := update_prov name (reg_entry hide dl v') (prov_list st)\<rparr>"
      "pv_name v' = Some name" "pv_fabric v' \<noteq> None" "FI_VERSION 1 3 \<le> pv_fi_version v'"
      "\<And>old. registered (prov_list st) name = Some old \<Longrightarrow> pv_version old < pv_version v'"
      "\<exists>v0. v = Some v0 \<and> v' = reg_provider st v0"
  | (new) name v' hide where
      "st' = st\<lparr>prov_list := update_prov name (reg_entry hide dl v') (prov_list st @ [empty_entry name])\<rparr>"
      "pv_name v' = Some name" "pv_fabric v' \<noteq> None" "FI_VERSION 1 3 \<le> pv_fi_version v'"
      "name \<notin> prov_name ` set (prov_list st)"
proof (cases v)
  case (Some v0)
  note v = Some
  show thesis
  proof (cases "pv_name v0 = None \<or> pv_fabric v0 = None \<or> pv_fi_version v0 < FI_VERSION 1 3")
    case True
    then show thesis using assms Some by (intro same) (auto simp: ofi_register_provider_def split: if_splits)
  next
    case False
    then obtain name where n: "pv_name v0 = Some name" "pv_fabric v0 \<noteq> None" "FI_VERSION 1 3 \<le> pv_fi_version v0"
      by (auto simp: not_less)
    have reg: "(case ofi_getprov (prov_list st) name of
        Some p \<Rightarrow>
          (case prov_provider p of
             None \<Rightarrow> (Inr (), st\<lparr>prov_list := update_prov name (reg_entry False dl (reg_provider st v0)) (prov_list st)\<rparr>, [])
           | Some old \<Rightarrow>
               if FI_VERSION_GE (pv_version old) (pv_version (reg_provider st v0))
               then (Inl FI_EALREADY, st, cleanup_provider (Some (reg_provider st v0)))
               else (Inr (), st\<lparr>prov_list := update_prov name (reg_entry (ofi_getinfo_filter (prov_filter st)
                   (ofi_set_prov_type v0)) dl (reg_provider st v0)) (prov_list st)\<rparr>, cleanup_provider (Some old)))
      | None \<Rightarrow>
          (case ofi_create_prov_entry ok (prov_list st) name of
             None \<Rightarrow> (Inl FI_EOTHER, st, cleanup_provider (Some (reg_provider st v0)))
           | Some provs \<Rightarrow> (Inr (), st\<lparr>prov_list := update_prov name (reg_entry (ofi_getinfo_filter (prov_filter st)
                   (ofi_set_prov_type v0)) dl (reg_provider st v0)) provs\<rparr>, []))) = (r, st', c)"
      using assms n leD [OF n(3)] by (cases "pv_fabric v0") (simp_all add: ofi_register_provider_def Some Let_def)
    show thesis
    proof (cases "ofi_getprov (prov_list st) name")
      case None
      show thesis
      proof (cases "ofi_create_prov_entry ok (prov_list st) name")
        case ce: None
        then show thesis using reg None by (intro same) auto
      next
        case (Some provs)
        then have "provs = prov_list st @ [empty_entry name]"
          by (auto simp: ofi_create_prov_entry_def split: if_splits)
        then show thesis using reg n None Some
          by (intro new [of name _ "reg_provider st v0"]) (auto simp: getprov_None)
      qed
    next
      case (Some p)
      show thesis
      proof (cases "prov_provider p")
        case None
        then show thesis using reg n Some v
          by (intro set [of name False "reg_provider st v0"]) (auto simp: registered_def)
      next
        case (Some old)
        then show thesis using reg n v \<open>ofi_getprov (prov_list st) name = Some p\<close>
          by (cases "FI_VERSION_GE (pv_version old) (pv_version v0)")
            (auto simp: registered_def version_ge_le intro: same set [of name _ "reg_provider st v0"])
      qed
    qed
  qed
qed (use assms in \<open>auto simp: ofi_register_provider_def intro: same\<close>)

lemma registry_inv_empty_entry:
  "registry_inv provs \<Longrightarrow> name \<notin> prov_name ` set provs \<Longrightarrow> registry_inv (provs @ [empty_entry name])"
  by (auto simp: registry_inv_def)

lemma register_preserves_inv:
  assumes "ofi_register_provider ok st v dl = (r, st', c)" and "registry_inv (prov_list st)"
  shows "registry_inv (prov_list st')"
  using assms(1)
proof (cases rule: register_cases)
  case (set name v' hide)
  then show ?thesis using registry_inv_update [OF assms(2), of "reg_entry hide dl v'" v' name] by simp
next
  case (new name v' hide)
  then show ?thesis
    using registry_inv_update [OF registry_inv_empty_entry [OF assms(2) new(5)], of "reg_entry hide dl v'" v' name]
    by simp
qed (simp add: assms(2))

lemma registered_update:
  "registered (update_prov name (reg_entry hide dl v) provs) n =
    (if n = name \<and> n \<in> prov_name ` set provs then Some v else registered provs n)"
proof (cases "ofi_getprov provs n")
  case None
  then have "n \<notin> prov_name ` set provs" by (simp add: getprov_None)
  then show ?thesis using None by (auto simp: registered_def getprov_update)
next
  case (Some p)
  then have "n \<in> prov_name ` set provs" using getprov_Some [OF Some] by auto
  then show ?thesis using Some by (auto simp: registered_def getprov_update)
qed

lemma registered_snoc:
  "name \<notin> prov_name ` set provs \<Longrightarrow> registered (provs @ [empty_entry name]) n = registered provs n"
  by (cases "ofi_getprov provs n") (simp_all add: registered_def getprov_append getprov_single)

lemma register_keeps_newest:
  assumes "ofi_register_provider ok st v dl = (r, st', c)" and "registered (prov_list st) n = Some old"
  shows "\<exists>new. registered (prov_list st') n = Some new \<and>
    (new = old \<or> pv_version old < pv_version new \<and> offered [(v, dl)] new)"
  using assms(1)
proof (cases rule: register_cases)
  case (set name v' hide)
  then show ?thesis using assms(2) by (auto simp: registered_update offered_def)
next
  case (new name v' hide)
  moreover have "n \<noteq> name" using assms(2) new(5) by (auto simp: registered_def getprov_None [symmetric])
  ultimately show ?thesis using assms(2) by (auto simp: registered_update registered_snoc)
qed (use assms in auto)

lemma register_all_inv:
  "register_all ok k st provs = (st', c) \<Longrightarrow> registry_inv (prov_list st) \<Longrightarrow> registry_inv (prov_list st')"
  by (induction ok k st provs arbitrary: st' c rule: register_all.induct)
    (auto simp: Let_def split: prod.splits dest: register_preserves_inv)

lemma register_all_newest:
  "register_all ok k st provs = (st', c) \<Longrightarrow> registered (prov_list st) n = Some old \<Longrightarrow>
    \<exists>new. registered (prov_list st') n = Some new \<and> (new = old \<or> pv_version old < pv_version new \<and> offered provs new)"
proof (induction ok k st provs arbitrary: st' c old rule: register_all.induct)
  case (2 ok k st v dl rest)
  obtain r st1 c1 where r: "ofi_register_provider (ok k) st v dl = (r, st1, c1)" by (metis prod_cases3)
  obtain c2 where r2: "register_all ok (Suc k) st1 rest = (st', c2)"
    using 2(2) by (auto simp: Let_def r split: prod.splits)
  obtain mid where m: "registered (prov_list st1) n = Some mid"
      "mid = old \<or> pv_version old < pv_version mid \<and> offered [(v, dl)] mid"
    using register_keeps_newest [OF r 2(3)] by blast
  obtain new where "registered (prov_list st') n = Some new"
      "new = mid \<or> pv_version mid < pv_version new \<and> offered rest new"
    using 2(1) [OF r [symmetric] refl refl r2 m(1)] by blast
  then show ?case using m(2) by (auto simp: offered_def)
qed auto

lemma create_entries_inv:
  "registry_inv provs \<Longrightarrow> distinct names \<Longrightarrow> set names \<inter> prov_name ` set provs = {} \<Longrightarrow>
    registry_inv (create_entries ok k provs names)"
proof (induction ok k provs names rule: create_entries.induct)
  case (2 ok k provs n names)
  show ?case
  proof (cases "ofi_create_prov_entry (ok k) provs n")
    case (Some provs')
    then have "provs' = provs @ [empty_entry n]" by (auto simp: ofi_create_prov_entry_def split: if_splits)
    then show ?thesis using 2 Some by (auto intro: registry_inv_empty_entry)
  qed (use 2 in auto)
qed auto

lemma hook_init_prov_list [simp]: "prov_list (ofi_hook_init ok st v) = prov_list st"
  by (auto simp: ofi_hook_init_def split: option.splits)

subsection \<open>Entries of \<open>fi_getinfo\<close>\<close>

text \<open>\<open>i\<close> is the entry \<open>i0\<close> of provider \<open>v\<close>, changed only in the name, the version and the API version.  A core
  provider leaves the name open and gets its own; a utility provider gives the name of the provider
  below it and gets its own appended.  The name is missing only if its allocation failed.\<close>

definition stamped :: "(nat \<Rightarrow> bool) \<Rightarrow> u32 \<Rightarrow> fi_provider \<Rightarrow> fi_info \<Rightarrow> fi_info \<Rightarrow> bool" where
  "stamped ok version v i0 i \<longleftrightarrow> (\<exists>f name. fi_fabric_attr i0 = Some f \<and>
    i = i0\<lparr>fi_fabric_attr := Some (f\<lparr>fab_prov_name := name, fab_prov_version := pv_version v, fab_api_version := version\<rparr>)\<rparr> \<and>
    (if fab_prov_name f = None then ofi_is_core_prov v else ofi_is_util_prov v) \<and>
    (name = (case fab_prov_name f of None \<Rightarrow> pv_name v | Some core \<Rightarrow> Some (core @ '';'' @ the (pv_name v))) \<or>
     name = None \<and> (\<exists>j. \<not> ok j)))"

lemma set_prov_attr_stamped:
  "fi_fabric_attr i0 = Some f \<Longrightarrow> ofi_set_prov_attr (ok j) f v = Some f' \<Longrightarrow>
    stamped ok version v i0 (i0\<lparr>fi_fabric_attr := Some (f'\<lparr>fab_api_version := version\<rparr>)\<rparr>)"
  by (cases "ok j"; cases "fab_prov_name f")
    (force simp: ofi_set_prov_attr_def ofi_strdup_append_def stamped_def Let_def split: if_splits)+

lemma stamp_infos_stamped:
  "stamp_infos ok j version v is0 = Some is \<Longrightarrow> i \<in> set is \<Longrightarrow> \<exists>i0 \<in> set is0. stamped ok version v i0 i"
proof (induction is0 arbitrary: j "is")
  case (Cons i0 is0)
  then obtain f f' js where f: "fi_fabric_attr i0 = Some f" "ofi_set_prov_attr (ok j) f v = Some f'"
      "stamp_infos ok (Suc j) version v is0 = Some js"
      "is = i0\<lparr>fi_fabric_attr := Some (f'\<lparr>fab_api_version := version\<rparr>)\<rparr> # js"
    by (auto split: option.splits bind_splits)
  then show ?case using Cons.IH [OF f(3)] Cons.prems(2) set_prov_attr_stamped [where ok = ok, OF f(1,2)] by auto
qed simp

text \<open>When an entry of the result of \<open>fi_getinfo\<close> comes from a provider: it is the stamped version of an entry
  that this provider's own \<open>getinfo\<close> returned for the same query.\<close>

definition entry_from ::
    "(nat \<Rightarrow> nat \<Rightarrow> bool) \<Rightarrow> fabric_state \<Rightarrow> u32 \<Rightarrow> string option \<Rightarrow> string option \<Rightarrow> u64 \<Rightarrow> fi_info option \<Rightarrow>
      string list \<Rightarrow> fi_info \<Rightarrow> bool" where
  "entry_from ok st version node service flags hints vec i \<longleftrightarrow>
    (\<exists>p v getinfo cur i0 k. p \<in> set (prov_list st) \<and> prov_provider p = Some v \<and>
      (prov_hidden p \<longrightarrow> flags AND OFI_GETINFO_HIDDEN \<noteq> 0) \<and> ofi_layering_ok v vec flags = Some True \<and>
      version \<le> pv_fi_version v \<and> pv_getinfo v = Some getinfo \<and>
      getinfo version node service flags hints = Inr cur \<and> i0 \<in> set cur \<and> stamped (ok k) version v i0 i)"

lemma getinfo_loop_entries:
  "getinfo_loop ok k version node service flags hints vec acc ps = Some is \<Longrightarrow> i \<in> set is \<Longrightarrow>
    set ps \<subseteq> set (prov_list st) \<Longrightarrow> i \<in> set acc \<or> entry_from ok st version node service flags hints vec i"
proof (induction ps arbitrary: k acc)
  case (Cons p ps)
  note ps = Cons.prems(3)
  show ?case
  proof (cases "getinfo_loop ok (Suc k) version node service flags hints vec acc ps = Some is")
    case True
    then show ?thesis using Cons.IH [OF True Cons.prems(2)] ps by auto
  next
    case False
    then obtain v g cur js where v: "prov_provider p = Some v" "pv_getinfo v = Some g"
      "prov_hidden p \<longrightarrow> flags AND OFI_GETINFO_HIDDEN \<noteq> 0" "ofi_layering_ok v vec flags = Some True"
      "\<not> FI_VERSION_LT (pv_fi_version v) version" "g version node service flags hints = Inr cur"
      and st: "stamp_infos (ok k) 0 version v cur = Some js"
      and l: "getinfo_loop ok (Suc k) version node service flags hints vec (acc @ js) ps = Some is"
      using Cons.prems(1) by (auto simp: Let_def split: option.splits if_splits sum.splits)
    have "entry_from ok st version node service flags hints vec i" if js: "i \<in> set js"
    proof -
      obtain i0 where "i0 \<in> set cur" "stamped (ok k) version v i0 i" using stamp_infos_stamped [OF st js] by blast
      moreover have "p \<in> set (prov_list st)" "version \<le> pv_fi_version v"
        using ps v(5) by (simp_all add: version_lt_less not_less)
      ultimately show ?thesis using v unfolding entry_from_def by blast
    qed
    then show ?thesis using Cons.IH [OF l Cons.prems(2)] ps by auto
  qed
qed auto

text \<open>An entry returned for \<open>FI_PROV_ATTR_ONLY\<close> describes a registered provider, hidden or not.\<close>

definition describes_provider :: "(nat \<Rightarrow> nat \<Rightarrow> bool) \<Rightarrow> fabric_state \<Rightarrow> fi_info \<Rightarrow> bool" where
  "describes_provider ok st i \<longleftrightarrow> (\<exists>p v f. p \<in> set (prov_list st) \<and> prov_provider p = Some v \<and>
    fi_fabric_attr i = Some f \<and> fab_prov_version f = pv_version v \<and>
    (fab_prov_name f = pv_name v \<or> fab_prov_name f = None \<and> (\<exists>k. \<not> ok k 6)))"

lemma getprovinfo_loop_entries:
  "getprovinfo_loop ok k acc ps = (Inr (), Valid_ptr is) \<Longrightarrow> i \<in> set is \<Longrightarrow> set ps \<subseteq> set (prov_list st) \<Longrightarrow>
    \<forall>i \<in> set acc. describes_provider ok st i \<Longrightarrow> describes_provider ok st i"
proof (induction ps arbitrary: k acc)
  case (Cons p ps)
  show ?case
  proof (cases "prov_provider p")
    case None
    then show ?thesis using Cons by auto
  next
    case (Some v)
    then obtain cur where c: "ofi_allocinfo_internal (ok k) = Some cur"
      using Cons.prems(1) by (auto split: option.splits)
    define new where "new = cur\<lparr>fi_fabric_attr := Some ((the (fi_fabric_attr cur))
      \<lparr>fab_prov_name := (if ok k 6 then pv_name v else None), fab_prov_version := pv_version v\<rparr>)\<rparr>"
    have l: "getprovinfo_loop ok (Suc k) (acc @ [new]) ps = (Inr (), Valid_ptr is)"
      using Cons.prems(1) Some c by (simp add: Let_def new_def)
    have "describes_provider ok st new"
      using Some Cons.prems(3) unfolding describes_provider_def new_def by (cases "ok k 6") force+
    then show ?thesis using Cons.IH [OF l Cons.prems(2)] Cons.prems(3,4) by auto
  qed
qed (auto split: if_splits)

text \<open>The list of provider names the hints give.\<close>

definition hint_vec :: "fi_info option \<Rightarrow> string list" where
  "hint_vec hints =
    (case hints of None \<Rightarrow> []
     | Some h \<Rightarrow> (case fi_fabric_attr h of None \<Rightarrow> []
                  | Some f \<Rightarrow> (case fab_prov_name f of None \<Rightarrow> [] | Some n \<Rightarrow> strsep_loop (Some n) '';'')))"

lemma filter_info_kept:
  "i \<in> set (fst (ofi_filter_info flt closable is)) \<Longrightarrow>
    i \<in> set is \<and> \<not> ofi_apply_prov_post_filter flt (the (fab_prov_name (the (fi_fabric_attr i))))"
  by (induction "is") (auto simp: Let_def split: prod.splits if_splits)

lemma info_to_core_domain_copy_fails:
  assumes "\<And>i. i < 14 \<Longrightarrow> ok i" and "\<not> ok 14"
    and "\<And>core. info_to_core version (Some u) core = Inr core"
    and "fi_fabric_attr u = Some f" "fab_prov_name f = Some n" "fi_domain_attr u = Some d" "dom_name d = Some m"
  shows "ofi_info_to_core ok version prov (Some u) info_to_core = (Inr (), Freed_ptr)"
proof -
  have "ofi_allocinfo_internal ok \<noteq> None" using assms(1) by (simp add: ofi_allocinfo_internal_def)
  then obtain c0 where c0: "ofi_allocinfo_internal ok = Some c0" by auto
  have "ofi_dup_addr (\<lambda>i. ok (6 + i)) u c0 \<noteq> Inl e" for e
    using assms(1) by (auto simp: ofi_dup_addr_def Let_def split: option.splits)
  then obtain c2 where c2: "ofi_dup_addr (\<lambda>i. ok (6 + i)) u c0 = Inr c2" by (metis sum.exhaust)
  have "\<exists>n'. ofi_exclude_prov_name (\<lambda>i. ok (10 + i)) (Some n) prov = Inr n'"
    using assms(1) by (simp add: ofi_exclude_prov_name_def ofi_strdup_append_def Let_def)
  then have "\<exists>c3. core_fabric_step ok prov u c2 = Inr (Inr (), c3)"
    using assms(1,4,5) by (cases "fab_name f") (auto simp: core_fabric_step_def)
  then show ?thesis using assms(2,3,6,7) c0 c2 by (auto simp: ofi_info_to_core_def)
qed

lemma info_to_core_valid:
  assumes "ok 14" and "ofi_info_to_core ok version prov u info_to_core = (r, ptr)"
  shows "r = Inr () \<longleftrightarrow> (\<exists>core. ptr = Valid_ptr core)"
proof -
  have "ret \<noteq> Inr ()" if "core_fabric_step ok prov ui c = Inl ret" for ret ui c
    using that by (auto simp: core_fabric_step_def split: option.splits if_splits sum.splits)
  then show ?thesis using assms
    by (auto simp: ofi_info_to_core_def split: option.splits sum.splits prod.splits if_splits)
qed

lemma check_dup_loop_ok:
  assumes "\<forall>k i. ok k i" and "\<forall>p \<in> set ps. info_sized p \<and> (\<forall>n. fi_nic p = Some n \<longrightarrow> nic_dup n = Inr (f n))"
  shows "check_dup_loop ok nic_dup closable api u k acc ps =
    (let r = acc @ map (\<lambda>p. p\<lparr>fi_nic := map_option f (fi_nic p)\<rparr>) (filter (\<lambda>p. ofi_check_info p api u = Inr ()) ps)
     in (if r = [] then Inl FI_ENODATA else Inr r, []))"
  using assms(2)
proof (induction ps arbitrary: k acc)
  case (Cons p ps)
  have "fi_dupinfo (ok k) nic_dup closable (Some p) = (Some (p\<lparr>fi_nic := map_option f (fi_nic p)\<rparr>), [])"
    using assms(1) Cons(2) by (intro dupinfo_ok) auto
  then show ?case using Cons by (cases "ofi_check_info p api u = Inr ()") (simp_all add: Let_def)
qed (simp add: Let_def)

lemma count_success_filter:
  "length ps < 2 ^ 64 \<Longrightarrow>
    unat (count_success api u ps) = length (filter (\<lambda>p. ofi_check_info p api u = Inr ()) ps)"
proof (induction ps)
  case (Cons p ps)
  then have "length (filter (\<lambda>p. ofi_check_info p api u = Inr ()) ps) + 1 < 2 ^ 64"
    using length_filter_le [of "\<lambda>p. ofi_check_info p api u = Inr ()" ps] by (simp del: length_filter_le)
  then show ?case using Cons by (simp add: unat_word_ariths unat_of_nat)
qed simp

subsection \<open>Properties\<close>

text \<open>C22. Layering terminates: a utility provider excludes its own name from the hints it passes on, and
  no provider of that name passes \<open>ofi_layering_ok\<close> for the list that \<open>fi_getinfo\<close> splits from these
  hints, whatever list the application gave and whatever the flags are.\<close>

theorem excluded_provider_never_layers:
  assumes "ofi_exclude_prov_name ok l u = Inr l'" and "CHR '';'' \<notin> set u"
    and "ofi_split_and_alloc ok' (Some l') (Some '';'') = Some (Some (vec, n))" and "pv_name v = Some u"
  shows "ofi_layering_ok v vec flags = Some False"
  using exclude_prov_name_last [OF assms(1,2)] layering_excluded [OF assms(4)] split_and_alloc_Some [OF assms(3)]
  by auto

theorem excluded_provider_never_layers_witness:
  "ofi_layering_ok \<lparr>pv_id = 1, pv_version = 0, pv_fi_version = 0, pv_name = Some ''ofi_rxm'', pv_getinfo = None,
      pv_fabric = None, pv_type = OFI_PROV_UTIL, pv_disable_logging = False\<rparr> [''verbs'', ''^ofi_rxm''] 0 = Some False"
proof (rule excluded_provider_never_layers [of "\<lambda>_. True" "Some ''verbs;ofi_rxm''" "''ofi_rxm''" "''verbs;^ofi_rxm''"])
  show "ofi_exclude_prov_name (\<lambda>_. True) (Some ''verbs;ofi_rxm'') ''ofi_rxm'' = Inr ''verbs;^ofi_rxm''" by code_simp
  show "CHR '';'' \<notin> set ''ofi_rxm''" by code_simp
  show "ofi_split_and_alloc (\<lambda>_. True) (Some ''verbs;^ofi_rxm'') (Some '';'') =
    Some (Some ([''verbs'', ''^ofi_rxm''], 2))" by code_simp
qed simp

text \<open>C14. The registry after initialisation: starting from no providers, \<open>fi_ini\<close> ends with one entry per
  name, every registered provider stands under its own name, has a \<open>fabric\<close> entry point and supports
  API version 1.3 or later.\<close>

theorem registry_invariant:
  assumes "fi_ini ok_ord ok_hook ok_flt ok_reg st hook_val param_val provs = Some (st', c)"
    and "\<not> ofi_init st" and "prov_list st = []"
  shows "registry_inv (prov_list st')"
proof -
  have "registry_inv (prov_list (ofi_ordered_provs_init ok_ord st))"
    unfolding ofi_ordered_provs_init_def assms(3)
    by (simp del: create_entries.simps) (intro create_entries_inv, simp_all add: registry_inv_def)
  then show ?thesis using assms(1,2) register_all_inv
    by (fastforce simp: fi_ini_def Let_def split: option.splits prod.splits)
qed

definition ex_provider :: fi_provider where
  "ex_provider = \<lparr>pv_id = 7, pv_version = FI_VERSION 1 0, pv_fi_version = FI_VERSION 1 9, pv_name = Some ''sstmac'',
    pv_getinfo = Some (\<lambda>_ _ _ _ _. Inr [info0\<lparr>fi_fabric_attr := Some fabric_attr0\<rparr>]),
    pv_fabric = Some (\<lambda>_ _. Inl FI_ENOSYS), pv_type = OFI_PROV_CORE, pv_disable_logging = False\<rparr>"

definition ex_state :: fabric_state where
  "ex_state = \<lparr>prov_list = [], prov_filter = \<lparr>flt_names = None, flt_negated = False\<rparr>,
    prov_log_filter = \<lparr>flt_names = None, flt_negated = False\<rparr>, ofi_init = False, hooks = None\<rparr>"

definition ex_filtered :: fabric_state where
  "ex_filtered = \<lparr>prov_list = [empty_entry ''sstmac''],
    prov_filter = \<lparr>flt_names = Some [''sstmac''], flt_negated = True\<rparr>,
    prov_log_filter = \<lparr>flt_names = None, flt_negated = False\<rparr>, ofi_init = True, hooks = None\<rparr>"

theorem registry_invariant_witness:
  "\<exists>st' c. fi_ini (\<lambda>_ _. True) (\<lambda>_. True) (\<lambda>_ _. True) (\<lambda>_ _. True) ex_state None None [(Some ex_provider, None)] =
    Some (st', c) \<and> registry_inv (prov_list st')"
proof -
  obtain st' c where "fi_ini (\<lambda>_ _. True) (\<lambda>_. True) (\<lambda>_ _. True) (\<lambda>_ _. True) ex_state None None
      [(Some ex_provider, None)] = Some (st', c)"
    by (simp del: register_all.simps add: fi_ini_def ex_state_def ofi_create_filter_def Let_def case_prod_unfold)
  then show ?thesis using registry_invariant [of "\<lambda>_ _. True" "\<lambda>_. True" "\<lambda>_ _. True" "\<lambda>_ _. True" ex_state]
    by (simp add: ex_state_def)
qed

text \<open>C28. A provider is only ever replaced by a newer one: whatever is registered afterwards, the name of a
  registered provider stays registered, either with the same provider, unchanged, or with one of the
  providers registered since whose version is strictly greater.\<close>

theorem registry_keeps_newest:
  assumes "register_all ok k st provs = (st', c)" and "registered (prov_list st) name = Some old"
  shows "\<exists>new. registered (prov_list st') name = Some new \<and>
    (new = old \<or> FI_VERSION_LT (pv_version old) (pv_version new) \<and> offered provs new)"
  using register_all_newest [OF assms] by (simp add: version_lt_less)

theorem registry_keeps_newest_witness:
  "\<exists>st' c new. register_all (\<lambda>_ _. True) 0 (ex_filtered\<lparr>prov_list := [(empty_entry ''sstmac'')\<lparr>prov_provider := Some ex_provider\<rparr>]\<rparr>)
      [(Some (ex_provider\<lparr>pv_version := 5\<rparr>), None)] = (st', c) \<and>
    registered (prov_list st') ''sstmac'' = Some new \<and> (new = ex_provider \<or> FI_VERSION_LT (FI_VERSION 1 0) (pv_version new))"
proof -
  let ?st = "ex_filtered\<lparr>prov_list := [(empty_entry ''sstmac'')\<lparr>prov_provider := Some ex_provider\<rparr>]\<rparr>"
  obtain st' c where r: "register_all (\<lambda>_ _. True) 0 ?st [(Some (ex_provider\<lparr>pv_version := 5\<rparr>), None)] = (st', c)"
    by (metis prod.exhaust)
  have "registered (prov_list ?st) ''sstmac'' = Some ex_provider"
    by (simp add: registered_def getprov_single)
  from registry_keeps_newest [OF r this] r show ?thesis by (auto simp: ex_provider_def)
qed

text \<open>A provider of the built-in order escapes the filter: when the entry of its name exists but is not
  filled yet, \<open>ofi_register_provider\<close> fills it without hiding it, although the provider is filtered out
  by the include/exclude list.\<close>

theorem preregistered_provider_escapes_filter:
  assumes "ofi_getprov (prov_list st) name = Some p" and "prov_provider p = None" and "\<not> prov_hidden p"
    and "pv_name v = Some name" and "pv_fabric v \<noteq> None" and "\<not> pv_fi_version v < FI_VERSION 1 3"
    and "ofi_getinfo_filter (prov_filter st) (ofi_set_prov_type v)"
  shows "\<exists>st' p'. ofi_register_provider ok st (Some v) dl = (Inr (), st', []) \<and>
    ofi_getprov (prov_list st') name = Some p' \<and> prov_provider p' \<noteq> None \<and> \<not> prov_hidden p'"
proof -
  let ?st = "st\<lparr>prov_list := update_prov name (reg_entry False dl (reg_provider st v)) (prov_list st)\<rparr>"
  have "ofi_register_provider ok st (Some v) dl = (Inr (), ?st, [])"
    using assms by (auto simp: ofi_register_provider_def Let_def)
  moreover have "ofi_getprov (prov_list ?st) name = Some (reg_entry False dl (reg_provider st v) p)"
    using assms(1) by (simp add: getprov_update)
  ultimately show ?thesis using assms(3) by (auto simp: reg_entry_def)
qed

theorem preregistered_provider_escapes_filter_witness:
  "\<exists>st' p'. ofi_register_provider (\<lambda>_. True) ex_filtered (Some ex_provider) None = (Inr (), st', []) \<and>
    ofi_getprov (prov_list st') ''sstmac'' = Some p' \<and> prov_provider p' \<noteq> None \<and> \<not> prov_hidden p'"
proof (rule preregistered_provider_escapes_filter)
  show "ofi_getprov (prov_list ex_filtered) ''sstmac'' = Some (empty_entry ''sstmac'')"
    by (simp add: ex_filtered_def getprov_single)
  show "ofi_getinfo_filter (prov_filter ex_filtered) (ofi_set_prov_type ex_provider)"
    by (simp add: ofi_getinfo_filter_def ofi_apply_prov_init_filter_def ex_filtered_def ex_provider_def strcaseeq_def)
qed (simp_all add: ex_provider_def FI_VERSION_def)

text \<open>C29. Every entry \<open>fi_getinfo\<close> returns is one that the \<open>getinfo\<close> of a registered provider returned for this
  query, changed only by stamping it with the provider's name and version and the requested API
  version.  The provider passed the layering rules and supports the requested version, it is hidden
  only if hidden providers were asked for, and the stamped name passes the include/exclude filter
  unless an internal flag turns the filter off.  The query with exactly the flag \<open>FI_PROV_ATTR_ONLY\<close> is
  different: it returns, for registered providers, hidden or not, an entry with name and version.\<close>

theorem getinfo_entries:
  assumes "fi_getinfo ok_split ok_prov closable st version node service flags hints = Some (Inr is, closed)"
    and "i \<in> set is"
  shows "if flags = FI_PROV_ATTR_ONLY then describes_provider ok_prov st i
    else entry_from ok_prov st version node service flags hints (hint_vec hints) i \<and>
      (flags AND (OFI_CORE_PROV_ONLY OR OFI_GETINFO_INTERNAL OR OFI_GETINFO_HIDDEN) = 0 \<longrightarrow>
        \<not> ofi_apply_prov_post_filter (prov_filter st) (the (fab_prov_name (the (fi_fabric_attr i)))))"
proof (cases "flags = FI_PROV_ATTR_ONLY")
  case True
  then have "ofi_getprovinfo ok_prov st = (Inr (), Valid_ptr is)"
    using assms by (cases "ofi_getprovinfo ok_prov st" rule: prod.exhaust)
      (auto simp: fi_getinfo_def split: if_splits sum.splits out_ptr.splits)
  then show ?thesis using True getprovinfo_loop_entries [of ok_prov 0 "[]" "prov_list st" "is" i st] assms(2)
    by (simp add: ofi_getprovinfo_def)
next
  case False
  then obtain infos where
    infos: "getinfo_loop ok_prov 0 version node service flags hints (hint_vec hints) [] (prov_list st) = Some infos"
    and sel: "(if flags AND (OFI_CORE_PROV_ONLY OR OFI_GETINFO_INTERNAL OR OFI_GETINFO_HIDDEN) = 0 \<and>
        flt_names (prov_filter st) \<noteq> None then ofi_filter_info (prov_filter st) closable infos else (infos, [])) = (is, closed)"
    using assms(1) by (auto simp: fi_getinfo_def hint_vec_def Let_def dest!: split_and_alloc_Some
        split: option.splits if_splits prod.splits)
  have "i \<in> set infos" using sel assms(2) filter_info_kept [of i "prov_filter st" closable infos]
    by (auto split: if_splits)
  then have "entry_from ok_prov st version node service flags hints (hint_vec hints) i"
    using getinfo_loop_entries [OF infos, of i st] by auto
  moreover have "\<not> ofi_apply_prov_post_filter (prov_filter st) (the (fab_prov_name (the (fi_fabric_attr i))))"
    if "flags AND (OFI_CORE_PROV_ONLY OR OFI_GETINFO_INTERNAL OR OFI_GETINFO_HIDDEN) = 0"
  proof (cases "flt_names (prov_filter st)")
    case None
    then show ?thesis by (simp add: ofi_apply_prov_post_filter_def)
  next
    case (Some names)
    then show ?thesis using sel that assms(2) filter_info_kept [of i "prov_filter st" closable infos] by simp
  qed
  ultimately show ?thesis using False by simp
qed

theorem getinfo_entries_witness:
  "\<exists>i. fi_getinfo (\<lambda>_. True) (\<lambda>_ _. True) (\<lambda>_. True)
      (ex_state\<lparr>prov_list := [(empty_entry ''sstmac'')\<lparr>prov_provider := Some ex_provider\<rparr>]\<rparr>)
      (FI_VERSION 1 5) None None 0 None = Some (Inr [i], []) \<and>
    entry_from (\<lambda>_ _. True) (ex_state\<lparr>prov_list := [(empty_entry ''sstmac'')\<lparr>prov_provider := Some ex_provider\<rparr>]\<rparr>)
      (FI_VERSION 1 5) None None 0 None [] i"
proof -
  let ?st = "ex_state\<lparr>prov_list := [(empty_entry ''sstmac'')\<lparr>prov_provider := Some ex_provider\<rparr>]\<rparr>"
  have "ofi_layering_ok ex_provider [] 0 = Some True" by (simp add: ofi_layering_ok_def Let_def)
  then obtain i where i: "fi_getinfo (\<lambda>_. True) (\<lambda>_ _. True) (\<lambda>_. True) ?st (FI_VERSION 1 5) None None 0 None = Some (Inr [i], [])"
    by (simp add: fi_getinfo_def ex_state_def ex_provider_def FI_PROV_ATTR_ONLY_def fi_version_def FI_VERSION_def
        version_lt_less Let_def ofi_set_prov_attr_def ofi_is_core_prov_def fabric_attr0_def)
  then show ?thesis using getinfo_entries [OF i, of i] by (auto simp: hint_vec_def FI_PROV_ATTR_ONLY_def)
qed

text \<open>C30. When the copy of the domain name does not fail, \<open>ofi_info_to_core\<close> reports success exactly when it
  hands out hints that are allocated.\<close>

theorem info_to_core_success_valid:
  assumes "ok 14" and "ofi_info_to_core ok version prov u info_to_core = (r, ptr)"
  shows "r = Inr () \<longleftrightarrow> (\<exists>core. ptr = Valid_ptr core)"
  by (rule info_to_core_valid [OF assms])

theorem info_to_core_success_valid_witness:
  "\<exists>core. snd (ofi_info_to_core (\<lambda>_. True) 0 ''ofi_rxm'' None (\<lambda>_ _ c. Inr c)) = Valid_ptr core"
  using info_to_core_success_valid [of "\<lambda>_. True" 0 "''ofi_rxm''" None "\<lambda>_ _ c. Inr c"
      "fst (ofi_info_to_core (\<lambda>_. True) 0 ''ofi_rxm'' None (\<lambda>_ _ c. Inr c))"
      "snd (ofi_info_to_core (\<lambda>_. True) 0 ''ofi_rxm'' None (\<lambda>_ _ c. Inr c))"]
  by (simp add: ofi_info_to_core_def ofi_allocinfo_internal_def)

text \<open>When it does fail, after the provider name has been rewritten, \<open>ofi_info_to_core\<close> returns success with
  freed hints, and \<open>ofi_get_core_info\<close> then passes freed memory to \<open>fi_getinfo\<close>.\<close>

theorem core_info_uses_freed_hints:
  assumes "\<And>i. i < 14 \<Longrightarrow> ok i" and "\<not> ok 14"
    and "\<And>core. info_to_core version (Some u) core = Inr core"
    and "fi_fabric_attr u = Some f" and "fab_prov_name f = Some n"
    and "fi_domain_attr u = Some d" and "dom_name d = Some m"
    and "ofi_prov_check_info prov_infos version (Some u) = Inr ()"
  shows "ofi_info_to_core ok version prov (Some u) info_to_core = (Inr (), Freed_ptr) \<and>
    ofi_get_core_info ok getinfo version node service flags prov prov_infos (Some u) info_to_core = None"
proof -
  have "ofi_info_to_core ok version prov (Some u) info_to_core = (Inr (), Freed_ptr)"
    by (rule info_to_core_domain_copy_fails) (use assms in auto)
  then show ?thesis using assms(8) by (simp add: ofi_get_core_info_def)
qed

definition ex_named :: fi_info where
  "ex_named = info0\<lparr>fi_fabric_attr := Some (fabric_attr0\<lparr>fab_prov_name := Some ''verbs;ofi_rxm''\<rparr>),
    fi_domain_attr := Some (domain_attr0\<lparr>dom_name := Some ''ib0'',
      dom_mr_mode := FI_MR_LOCAL OR FI_MR_VIRT_ADDR\<rparr>)\<rparr>"

lemma ex_named_ok: "ofi_prov_check_info [ex_prov] (FI_VERSION 1 9) (Some ex_named) = Inr ()"
proof -
  have "ofi_check_info ex_prov (FI_VERSION 1 9) (Some ex_named) = Inr ()"
    by (simp add: check_info_iff check_domain_attr_iff ex_prov_def ex_named_def attr0_defs
        fi_valid_addr_format_def ofi_check_mr_mode_def ofi_cap_mr_mode_def ofi_mr_get_prov_mode_def
        ofi_rma_target_allowed_def FI_VERSION_def version_lt_less fi_consts Let_def ofi_check_fabric_attr_def)
  then show ?thesis by (simp add: ofi_prov_check_info_def)
qed

theorem core_info_uses_freed_hints_witness:
  "ofi_get_core_info (\<lambda>i. i \<noteq> 14) (\<lambda>_ _ _ _ _. (Inr [], [])) (FI_VERSION 1 9) None None 0 ''ofi_rxm'' [ex_prov]
    (Some ex_named) (\<lambda>_ _ c. Inr c) = None"
  using core_info_uses_freed_hints [of "\<lambda>i. i \<noteq> 14" "\<lambda>_ _ c. Inr c" "FI_VERSION 1 9" ex_named
      "fabric_attr0\<lparr>fab_prov_name := Some ''verbs;ofi_rxm''\<rparr>" "''verbs;ofi_rxm''"
      "domain_attr0\<lparr>dom_name := Some ''ib0'', dom_mr_mode := FI_MR_LOCAL OR FI_MR_VIRT_ADDR\<rparr>" "''ib0''", OF _ _ _ _ _ _ _ ex_named_ok]
  by (simp add: ex_named_def)

text \<open>\<open>ofi_prov_check_dup_info\<close> returns copies of exactly the provider's entries that support the hints, in
  the provider's order, and \<open>-FI_ENODATA\<close> when there is none; \<open>ofi_prov_check_info\<close> succeeds exactly when
  it would return one.\<close>

theorem check_dup_info_filters:
  assumes "\<forall>k i. ok k i" and "\<forall>p \<in> set ps. info_sized p \<and> (\<forall>n. fi_nic p = Some n \<longrightarrow> nic_dup n = Inr (f n))"
    and "length ps < 2 ^ 64"
  shows "let sel = filter (\<lambda>p. ofi_check_info p api (Some u) = Inr ()) ps in
    ofi_prov_check_dup_info ok nic_dup closable ps api (Some u) True =
      (if sel = [] then Inl FI_ENODATA else Inr (map (\<lambda>p. p\<lparr>fi_nic := map_option f (fi_nic p)\<rparr>) sel), []) \<and>
    (ofi_prov_check_info ps api (Some u) = Inr () \<longleftrightarrow> sel \<noteq> [])"
proof -
  have "count_success api (Some u) ps = 0 \<longleftrightarrow> filter (\<lambda>p. ofi_check_info p api (Some u) = Inr ()) ps = []"
    using count_success_filter [OF assms(3), of api "Some u"] by (metis length_0_conv unat_eq_zero)
  then show ?thesis
    using check_dup_loop_ok [OF assms(1,2), of closable api "Some u" 0 "[]"]
    by (auto simp: ofi_prov_check_dup_info_def ofi_prov_check_info_def Let_def)
qed

theorem check_dup_info_filters_witness:
  "ofi_prov_check_dup_info (\<lambda>_ _. True) (\<lambda>n. Inr n) (\<lambda>_. True) [info0, ex_prov] (FI_VERSION 1 9) (Some ex_hints) True =
    (Inr [ex_prov], [])"
proof -
  have "ofi_check_info info0 (FI_VERSION 1 9) (Some ex_hints) \<noteq> Inr ()"
    by (simp add: check_info_iff ex_hints_def info0_def fi_consts)
  moreover have "info_sized info0" "fi_nic info0 = None" "info_sized ex_prov" "fi_nic ex_prov = None"
    "ex_prov\<lparr>fi_nic := None\<rparr> = ex_prov"
    by (simp_all add: info_sized_def ex_prov_def attr0_defs)
  ultimately show ?thesis
    using check_dup_info_filters [of "\<lambda>_ _. True" "[info0, ex_prov]" "\<lambda>n. Inr n" id "FI_VERSION 1 9" ex_hints "\<lambda>_. True"]
    by (simp add: ex_check Let_def)
qed

end
