(* ===== verification/Ofi_Wait.thy ===== *)
theory Ofi_Wait
  imports Ofi_Fabric "HOL-Library.Multiset"
begin

unbundle bit_operations_syntax

section \<open>Deadlines, blocking loops and event sources\<close>

text \<open>
  What the blocking calls of the completion queue, the event queue and the counter share: the wait
  object kinds of \<^verbatim>\<open>include/rdma/fi_eq.h\<close>, the deadline arithmetic of \<^verbatim>\<open>include/ofi.h\<close>, a locale
  for loops that poll until they return, and the contract of an object that takes events from a
  provider and hands them to the application.  A C \<open>int\<close> timeout is a 32-bit word read with \<open>sint\<close>; the
  clock \<open>fi_gettime_ms\<close> is an argument.
\<close>


datatype (plugins only: code size) fi_wait_obj =
    FI_WAIT_NONE | FI_WAIT_UNSPEC | FI_WAIT_SET | FI_WAIT_FD | FI_WAIT_MUTEX_COND | FI_WAIT_YIELD
  | Other_wait_obj int

definition ofi_timeout_time :: "u64 \<Rightarrow> c_int \<Rightarrow> u64" where
  "ofi_timeout_time now timeout = (if 0 \<le> sint timeout then now + scast timeout else 0)"

text \<open>The new value of \<open>*timeout\<close> and the result.\<close>

definition ofi_adjust_timeout :: "u64 \<Rightarrow> u64 \<Rightarrow> c_int \<Rightarrow> c_int \<times> unit fi_result" where
  "ofi_adjust_timeout now timeout_time timeout =
    (if 0 \<le> sint timeout
     then let t = ucast (timeout_time - now) in (t, if sint t \<le> 0 then Inl FI_ETIMEDOUT else Inr ())
     else (timeout, Inr ()))"

subsection \<open>Loops that poll until they return\<close>

text \<open>A blocking call is a loop over a round \<open>poll k s\<close> that returns \<open>Inl r\<close> or goes on in a new state.
  \<open>loop fuel k s\<close> runs at most \<open>fuel\<close> rounds from round \<open>k\<close> on; \<open>None\<close> is a loop that has not
  returned yet.\<close>

locale polling_loop =
  fixes loop :: "nat \<Rightarrow> nat \<Rightarrow> 's \<Rightarrow> 'r option" and poll :: "nat \<Rightarrow> 's \<Rightarrow> 'r + 's"
  assumes loop_0: "loop 0 k s = None"
    and loop_Suc: "loop (Suc f) k s = (case poll k s of Inl r \<Rightarrow> Some r | Inr s' \<Rightarrow> loop f (Suc k) s')"
begin

lemma more_fuel: "loop f k s = Some r \<Longrightarrow> f \<le> g \<Longrightarrow> loop g k s = Some r"
proof (induction f arbitrary: g k s)
  case (Suc f)
  from Suc.prems(2) obtain h where h: "g = Suc h" "f \<le> h" by (cases g) auto
  show ?case
  proof (cases "poll k s")
    case (Inr s')
    then have "loop f (Suc k) s' = Some r" using Suc.prems(1) by (simp add: loop_Suc)
    then show ?thesis using Suc.IH [OF _ h(2)] Inr h(1) by (simp add: loop_Suc)
  qed (use Suc.prems(1) h in \<open>simp add: loop_Suc\<close>)
qed (simp add: loop_0)

text \<open>A loop returns no later than a round that returns in every state its invariant allows, and what
  it returns was returned by a round.\<close>

lemma returns_by:
  assumes step: "\<And>k s s'. I k s \<Longrightarrow> poll k s = Inr s' \<Longrightarrow> I (Suc k) s'"
    and stop: "\<And>s s'. I n s \<Longrightarrow> poll n s \<noteq> Inr s'"
    and "I k s" and "k \<le> n"
  shows "\<exists>r j t. loop (Suc n - k) k s = Some r \<and> j \<le> n \<and> I j t \<and> poll j t = Inl r"
  using assms(3,4)
proof (induction "n - k" arbitrary: k s)
  case 0
  then have "k = n" by simp
  then obtain r where "poll n s = Inl r" using stop 0(2) by (cases "poll n s") auto
  then show ?case using 0(2) \<open>k = n\<close> by (auto simp: loop_Suc)
next
  case (Suc m)
  then have k: "k < n" "Suc n - k = Suc (Suc n - Suc k)" by auto
  show ?case
  proof (cases "poll k s")
    case (Inl r)
    then show ?thesis using k Suc(3) by (auto simp: loop_Suc intro: less_imp_le)
  next
    case (Inr s')
    then have "\<exists>r j t. loop (Suc n - Suc k) (Suc k) s' = Some r \<and> j \<le> n \<and> I j t \<and> poll j t = Inl r"
      using Suc(1) [of "Suc k" s'] Suc(2) step [OF Suc(3)] k by auto
    then show ?thesis using Inr k(2) by (simp add: loop_Suc)
  qed
qed

end

subsection \<open>Event sources\<close>

text \<open>A provider posts items; the application takes what is there, at most \<open>n\<close> at a time, and sees
  \<open>view s i\<close> of an item.  An item that the object cannot take at the moment is not posted.  The
  contract of an event source is that nothing is lost, invented or doubled; that of an ordered source
  adds that the items come out in the order they were posted.\<close>

datatype 'i source_op = Post 'i | Take size_t

locale event_source =
  fixes inv :: "'s \<Rightarrow> bool" and content :: "'s \<Rightarrow> 'o list" and view :: "'s \<Rightarrow> 'i \<Rightarrow> 'o"
    and allowed :: "'s \<Rightarrow> 'i \<Rightarrow> bool" and post :: "'s \<Rightarrow> 'i \<Rightarrow> 's"
    and take_some :: "'s \<Rightarrow> size_t \<Rightarrow> ('o list \<times> 's) option"
  assumes post_law: "inv s \<Longrightarrow> allowed s i \<Longrightarrow>
      inv (post s i) \<and> view (post s i) = view s \<and> mset (content (post s i)) = add_mset (view s i) (mset (content s))"
    and take_law: "inv s \<Longrightarrow>
      \<exists>os s'. take_some s n = Some (os, s') \<and> inv s' \<and> view s' = view s \<and> content s = os @ content s' \<and>
        (n \<noteq> 0 \<longrightarrow> content s \<noteq> [] \<longrightarrow> os \<noteq> [])"
begin

fun run :: "'s \<Rightarrow> 'i source_op list \<Rightarrow> ('o list \<times> 's) option" where
  "run s [] = Some ([], s)"
| "run s (Post i # ops) = run (if allowed s i then post s i else s) ops"
| "run s (Take n # ops) =
    (case take_some s n of
       None \<Rightarrow> None
     | Some (os, s') \<Rightarrow> map_option (\<lambda>(os', s''). (os @ os', s'')) (run s' ops))"

text \<open>The items that were posted, as the application would see them.\<close>

fun accepted :: "'s \<Rightarrow> 'i source_op list \<Rightarrow> 'o list" where
  "accepted s [] = []"
| "accepted s (Post i # ops) = (if allowed s i then view s i # accepted (post s i) ops else accepted s ops)"
| "accepted s (Take n # ops) = (case take_some s n of None \<Rightarrow> [] | Some (os, s') \<Rightarrow> accepted s' ops)"

lemma run_conserves:
  assumes "inv s"
  shows "\<exists>os s'. run s ops = Some (os, s') \<and> inv s' \<and>
    mset os + mset (content s') = mset (content s) + mset (accepted s ops)"
  using assms
proof (induction s ops rule: run.induct)
  case (2 s i ops)
  then show ?case using post_law [OF 2(2), of i] by (cases "allowed s i") simp_all
next
  case (3 s n ops)
  obtain os s1 where t: "take_some s n = Some (os, s1)" "inv s1" "content s = os @ content s1"
    using take_law [OF 3(2)] by blast
  then obtain os' s' where r: "run s1 ops = Some (os', s')" "inv s'"
    "mset os' + mset (content s') = mset (content s1) + mset (accepted s1 ops)"
    using 3(1) [OF t(1) refl] by blast
  have "mset (os @ os') + mset (content s') = mset (content s) + mset (accepted s1 ops)"
    using r(3) t(3) by (simp add: add.assoc)
  then show ?case using t(1) r(1,2) by simp
qed auto

text \<open>An application that keeps taking gets everything.\<close>

lemma run_drains:
  assumes "inv s" and "n \<noteq> 0"
  shows "\<exists>k s'. run s (replicate k (Take n)) = Some (content s, s') \<and> inv s' \<and> content s' = []"
  using assms(1)
proof (induction "length (content s)" arbitrary: s rule: less_induct)
  case less
  show ?case
  proof (cases "content s = []")
    case True
    then show ?thesis using less.prems by (intro exI [of _ 0] exI [of _ s]) simp
  next
    case False
    obtain os s1 where t: "take_some s n = Some (os, s1)" "inv s1" "content s = os @ content s1"
        "n \<noteq> 0 \<longrightarrow> content s \<noteq> [] \<longrightarrow> os \<noteq> []"
      using take_law [OF less.prems] by blast
    then have "length (content s1) < length (content s)" using False assms(2) by simp
    then obtain k s' where "run s1 (replicate k (Take n)) = Some (content s1, s')" "inv s'" "content s' = []"
      using less.hyps t(2) by blast
    then show ?thesis using t by (intro exI [of _ "Suc k"] exI [of _ s']) simp
  qed
qed

end

locale ordered_source = event_source +
  assumes post_order: "inv s \<Longrightarrow> allowed s i \<Longrightarrow> content (post s i) = content s @ [view s i]"
begin

lemma run_ordered:
  assumes "inv s"
  shows "\<exists>os s'. run s ops = Some (os, s') \<and> inv s' \<and> os @ content s' = content s @ accepted s ops"
  using assms
proof (induction s ops rule: run.induct)
  case (2 s i ops)
  then show ?case using post_law [OF 2(2), of i] post_order [OF 2(2), of i] by (cases "allowed s i") simp_all
next
  case (3 s n ops)
  obtain os s1 where t: "take_some s n = Some (os, s1)" "inv s1" "content s = os @ content s1"
    using take_law [OF 3(2)] by blast
  then obtain os' s' where "run s1 ops = Some (os', s')" "inv s'"
    "os' @ content s' = content s1 @ accepted s1 ops" using 3(1) [OF t(1) refl] by blast
  then show ?case using t by simp
qed auto

end

subsection \<open>Deadlines\<close>

lemma adjust_timeout_keeps_sign:
  "ofi_adjust_timeout now endtime t = (t', Inr ()) \<Longrightarrow> 0 \<le> sint t \<longleftrightarrow> 0 \<le> sint t'"
  by (auto simp: ofi_adjust_timeout_def Let_def split: if_splits)

lemma ucast_word_of_int: "(ucast (word_of_int i :: u64) :: u32) = word_of_int i"
  by (rule bit_word_eqI) (simp add: bit_unsigned_iff bit_of_int_iff)

lemma sint_word_of_int32:
  assumes "- (2 ^ 31) \<le> i" and "i < 2 ^ 31"
  shows "sint (word_of_int i :: c_int) = i"
proof -
  have "sint (word_of_int i :: c_int) = signed_take_bit 31 i" by (subst sint_sbintrunc') simp
  then show ?thesis using signed_take_bit_int_eq_self [OF assms] by simp
qed

lemma remaining_time:
  assumes "0 \<le> sint (timeout :: c_int)" and "e < 2 ^ 31"
  shows "sint (ucast (start + scast timeout - (start + of_nat e) :: u64) :: c_int) = sint timeout - int e"
proof -
  have "(start + scast timeout - (start + of_nat e) :: u64) = word_of_int (sint timeout - int e)"
    by (simp only: scast_eq of_int_diff of_int_of_nat_eq add_diff_cancel_left)
  then have "(ucast (start + scast timeout - (start + of_nat e) :: u64) :: c_int) =
      word_of_int (sint timeout - int e)" by (simp only: ucast_word_of_int)
  moreover have "sint timeout < 2 ^ 31" using sint_lt [of timeout] by simp
  ultimately show ?thesis using sint_word_of_int32 [of "sint timeout - int e"] assms by simp
qed

text \<open>C31. A deadline fires exactly when the time has elapsed.  Let a call with a non-negative timeout of
  \<open>t\<close> milliseconds start at \<open>start\<close> and look at the clock \<open>e\<close> milliseconds later, the clock being a
  64-bit word that may wrap around.  As long as \<open>e\<close> stays below \<open>2 ^ 31\<close>, the check reports a
  timeout if and only if \<open>e\<close> has reached \<open>t\<close>, and the remaining time it stores is \<open>t - e\<close>.\<close>

theorem deadline_exact:
  assumes "0 \<le> sint timeout" and "e < 2 ^ 31"
  shows "\<exists>t'. ofi_adjust_timeout (start + of_nat e) (ofi_timeout_time start timeout) timeout =
      (t', if sint timeout \<le> int e then Inl FI_ETIMEDOUT else Inr ()) \<and> sint t' = sint timeout - int e"
  using assms remaining_time [OF assms, of start]
  by (simp add: ofi_adjust_timeout_def ofi_timeout_time_def Let_def)

theorem deadline_exact_witness:
  "\<exists>t'. ofi_adjust_timeout (- 1 + of_nat 5) (ofi_timeout_time (- 1) 5) 5 =
      (t', if sint (5 :: c_int) \<le> int 5 then Inl FI_ETIMEDOUT else Inr ()) \<and> sint t' = sint (5 :: c_int) - int 5"
  using deadline_exact [of 5 5 "- 1"] by simp

end
