(* ===== verification/Ofi_Cq.thy ===== *)
theory Ofi_Cq
  imports Ofi_Rbuf Ofi_Wait
begin

unbundle bit_operations_syntax

section \<open>Completion queue (\<^verbatim>\<open>prov/util/src/util_cq.c\<close>)\<close>

text \<open>
  The completion queue of the utility code: a circular queue of completions, and beside it a list of
  the completions and errors that found no room in the queue or need more room than an entry has.  A
  flag in an entry says that the entry stands for an error, or that completions overflowed at it.

  Addresses handed over by the application are numbers.  \<open>err_data\<close> is the memory that the pointer of
  the C structure points to.  The pointer \<open>parent_comp\<close> into the circular queue is the index of the
  slot.  The function \<open>read_entry\<close>, which copies an entry into the user's buffer, returns what it
  copies.  The locks are left out; every operation that holds one is one step.  \<open>wait_signals\<close> counts
  the calls of the signal function of the wait object.  Reading through a null pointer is \<open>None\<close>.
\<close>

subsection \<open>Data\<close>

type_synonym ptr = u64

definition UTIL_FLAG_ERROR :: u64 where [fi_consts]: "UTIL_FLAG_ERROR = push_bit 60 1"
definition UTIL_FLAG_OVERFLOW :: u64 where [fi_consts]: "UTIL_FLAG_OVERFLOW = push_bit 61 1"
definition UTIL_DEF_CQ_SIZE :: size_t where "UTIL_DEF_CQ_SIZE = 1024"

datatype (plugins only: code size) fi_cq_format =
    FI_CQ_FORMAT_UNSPEC | FI_CQ_FORMAT_CONTEXT | FI_CQ_FORMAT_MSG | FI_CQ_FORMAT_DATA
  | FI_CQ_FORMAT_TAGGED | Other_cq_format int

datatype (plugins only: code size) fi_cq_wait_cond = FI_CQ_COND_NONE | FI_CQ_COND_THRESHOLD | Other_wait_cond int

record fi_cq_tagged_entry =
  op_context :: ptr
  cqe_flags :: u64
  cqe_len :: size_t
  cqe_buf :: ptr
  cqe_data :: u64
  cqe_tag :: u64

text \<open>The first six members of an error entry are those of a completion.\<close>

record fi_cq_err_entry = fi_cq_tagged_entry +
  cqe_olen :: size_t
  cqe_err :: int
  cqe_prov_errno :: int
  cqe_err_data :: "u8 list"
  cqe_err_data_size :: size_t

datatype (plugins only: code size) cq_read_data =
    Fi_cq_entry ptr
  | Fi_cq_msg_entry ptr u64 size_t
  | Fi_cq_data_entry ptr u64 size_t ptr u64
  | Fi_cq_tagged_entry ptr u64 size_t ptr u64 u64

record fi_cq_attr =
  cqa_size :: size_t
  cqa_flags :: u64
  cqa_format :: fi_cq_format
  cqa_wait_obj :: fi_wait_obj
  cqa_wait_cond :: fi_cq_wait_cond
  cqa_wait_set :: "fid option"

record util_cq_oflow_err_entry =
  parent_comp :: "nat option"
  oe_comp :: fi_cq_err_entry
  oe_src :: u64

text \<open>The members of \<open>struct util_domain\<close> that the queues read, with the API version of its fabric.\<close>

record cq_domain =
  cqd_threading :: fi_threading
  cqd_info_domain_caps :: u64
  cqd_api_version :: u32
  cqd_ref :: u32

record util_cq =
  cq_wait :: "fid option"
  cq_ref :: u32
  cq_ep_list :: "fid list"
  cq_locking :: bool
  cirq_ptr :: "fi_cq_tagged_entry cirque option"
  cq_src :: "u64 list option"
  oflow_err_list :: "util_cq_oflow_err_entry list"
  read_entry :: "fi_cq_tagged_entry \<Rightarrow> cq_read_data"
  internal_wait :: bool
  signaled :: bool
  wait_signals :: nat

abbreviation cirq :: "util_cq \<Rightarrow> fi_cq_tagged_entry cirque" where
  "cirq cq \<equiv> the (cirq_ptr cq)"

definition entry0 :: fi_cq_tagged_entry where
  "entry0 = \<lparr>op_context = 0, cqe_flags = 0, cqe_len = 0, cqe_buf = 0, cqe_data = 0, cqe_tag = 0\<rparr>"

definition tagged_entry :: "ptr \<Rightarrow> u64 \<Rightarrow> size_t \<Rightarrow> ptr \<Rightarrow> u64 \<Rightarrow> u64 \<Rightarrow> fi_cq_tagged_entry" where
  "tagged_entry context flags len buf data tag =
    \<lparr>op_context = context, cqe_flags = flags, cqe_len = len, cqe_buf = buf, cqe_data = data, cqe_tag = tag\<rparr>"

definition make_err_entry :: "fi_cq_tagged_entry \<Rightarrow> size_t \<Rightarrow> int \<Rightarrow> int \<Rightarrow> fi_cq_err_entry" where
  "make_err_entry c olen err prov_errno =
    fi_cq_tagged_entry.extend c
      \<lparr>cqe_olen = olen, cqe_err = err, cqe_prov_errno = prov_errno, cqe_err_data = [], cqe_err_data_size = 0\<rparr>"

text \<open>Assignment through a pointer to a slot of the circular queue.\<close>

definition set_slot :: "'a cirque \<Rightarrow> nat \<Rightarrow> 'a \<Rightarrow> 'a cirque" where
  "set_slot q i x = q\<lparr>cq_buf := (cq_buf q)[i := x]\<rparr>"

subsection \<open>Writing\<close>

definition ofi_cq_write_overflow ::
    "bool \<Rightarrow> util_cq \<Rightarrow> ptr \<Rightarrow> u64 \<Rightarrow> size_t \<Rightarrow> ptr \<Rightarrow> u64 \<Rightarrow> u64 \<Rightarrow> u64 \<Rightarrow> unit fi_result \<times> util_cq" where
  "ofi_cq_write_overflow calloc_ok cq context flags len buf data tag src =
    (if \<not> calloc_ok then (Inl FI_ENOMEM, cq)
     else let q = cirq cq; tail = unat (ofi_cirque_windex q); comp = ofi_cirque_tail q;
              entry = \<lparr>parent_comp = Some tail,
                       oe_comp = make_err_entry (tagged_entry context flags len buf data tag) 0 0 0, oe_src = src\<rparr>
          in (Inr (), cq\<lparr>cirq_ptr := Some (set_slot q tail (comp\<lparr>cqe_flags := cqe_flags comp OR UTIL_FLAG_OVERFLOW\<rparr>)),
                         oflow_err_list := oflow_err_list cq @ [entry]\<rparr>))"

definition ofi_cq_write_comp_entry ::
    "util_cq \<Rightarrow> ptr \<Rightarrow> u64 \<Rightarrow> size_t \<Rightarrow> ptr \<Rightarrow> u64 \<Rightarrow> u64 \<Rightarrow> util_cq" where
  "ofi_cq_write_comp_entry cq context flags len buf data tag =
    (let q = cirq cq
     in cq\<lparr>cirq_ptr := Some (ofi_cirque_commit (set_slot q (unat (ofi_cirque_windex q))
             (tagged_entry context flags len buf data tag)))\<rparr>)"

definition ofi_cq_write ::
    "bool \<Rightarrow> util_cq \<Rightarrow> ptr \<Rightarrow> u64 \<Rightarrow> size_t \<Rightarrow> ptr \<Rightarrow> u64 \<Rightarrow> u64 \<Rightarrow> unit fi_result \<times> util_cq" where
  "ofi_cq_write calloc_ok cq context flags len buf data tag =
    (if ofi_cirque_isfull (cirq cq) then ofi_cq_write_overflow calloc_ok cq context flags len buf data tag 0
     else (Inr (), ofi_cq_write_comp_entry cq context flags len buf data tag))"

text \<open>\<open>ofi_cq_write_src\<close> stores the source address without a test of \<open>cq->src\<close>.\<close>

definition ofi_cq_write_src ::
    "bool \<Rightarrow> util_cq \<Rightarrow> ptr \<Rightarrow> u64 \<Rightarrow> size_t \<Rightarrow> ptr \<Rightarrow> u64 \<Rightarrow> u64 \<Rightarrow> u64 \<Rightarrow> (unit fi_result \<times> util_cq) option" where
  "ofi_cq_write_src calloc_ok cq context flags len buf data tag src =
    (if ofi_cirque_isfull (cirq cq)
     then Some (ofi_cq_write_overflow calloc_ok cq context flags len buf data tag src)
     else case cq_src cq of
            None \<Rightarrow> None
          | Some s \<Rightarrow>
              Some (Inr (), ofi_cq_write_comp_entry
                (cq\<lparr>cq_src := Some (s[unat (ofi_cirque_windex (cirq cq)) := src])\<rparr>) context flags len buf data tag))"

text \<open>An entry without an error code fails the assertion of \<open>ofi_cq_write_error\<close>.\<close>

definition ofi_cq_write_error :: "bool \<Rightarrow> util_cq \<Rightarrow> fi_cq_err_entry \<Rightarrow> (unit fi_result \<times> util_cq) option" where
  "ofi_cq_write_error calloc_ok cq e =
    (if cqe_err e = 0 then None
     else if \<not> calloc_ok then Some (Inl FI_ENOMEM, cq)
     else
       let q = cirq cq; tail = unat (ofi_cirque_windex q); comp = ofi_cirque_tail q;
           entry = \<lparr>parent_comp = None, oe_comp = e, oe_src = 0\<rparr>;
           cq1 = (if ofi_cirque_isfull q
                  then cq\<lparr>cirq_ptr := Some (set_slot q tail
                              (comp\<lparr>cqe_flags := cqe_flags comp OR (UTIL_FLAG_ERROR OR UTIL_FLAG_OVERFLOW)\<rparr>)),
                          oflow_err_list := oflow_err_list cq @ [entry\<lparr>parent_comp := Some tail\<rparr>]\<rparr>
                  else cq\<lparr>cirq_ptr := Some (ofi_cirque_commit (set_slot q tail
                              (comp\<lparr>cqe_flags := UTIL_FLAG_ERROR\<rparr>))),
                          oflow_err_list := oflow_err_list cq @ [entry]\<rparr>)
       in Some (Inr (), case cq_wait cq1 of None \<Rightarrow> cq1 | Some _ \<Rightarrow> cq1\<lparr>wait_signals := Suc (wait_signals cq1)\<rparr>))"

text \<open>The values of \<open>FI_ENOMSG\<close> and \<open>FI_ETRUNC\<close> in \<^verbatim>\<open>fi_errno.h\<close>.\<close>

definition ENOMSG :: int where "ENOMSG = 42"
definition ETRUNC :: int where "ETRUNC = 265"

definition ofi_cq_write_error_peek :: "bool \<Rightarrow> util_cq \<Rightarrow> u64 \<Rightarrow> ptr \<Rightarrow> (unit fi_result \<times> util_cq) option" where
  "ofi_cq_write_error_peek calloc_ok cq tag context =
    ofi_cq_write_error calloc_ok cq
      (make_err_entry (tagged_entry context (FI_TAGGED OR FI_RECV) 0 0 0 tag) 0 ENOMSG (- ENOMSG))"

definition ofi_cq_write_error_trunc ::
    "bool \<Rightarrow> util_cq \<Rightarrow> ptr \<Rightarrow> u64 \<Rightarrow> size_t \<Rightarrow> ptr \<Rightarrow> u64 \<Rightarrow> u64 \<Rightarrow> size_t \<Rightarrow> (unit fi_result \<times> util_cq) option" where
  "ofi_cq_write_error_trunc calloc_ok cq context flags len buf data tag olen =
    ofi_cq_write_error calloc_ok cq
      (make_err_entry (tagged_entry context flags len buf data tag) olen ETRUNC (- ETRUNC))"

subsection \<open>Reading\<close>

definition util_cq_read_ctx :: "fi_cq_tagged_entry \<Rightarrow> cq_read_data" where
  "util_cq_read_ctx e = Fi_cq_entry (op_context e)"
definition util_cq_read_msg :: "fi_cq_tagged_entry \<Rightarrow> cq_read_data" where
  "util_cq_read_msg e = Fi_cq_msg_entry (op_context e) (cqe_flags e) (cqe_len e)"
definition util_cq_read_data :: "fi_cq_tagged_entry \<Rightarrow> cq_read_data" where
  "util_cq_read_data e = Fi_cq_data_entry (op_context e) (cqe_flags e) (cqe_len e) (cqe_buf e) (cqe_data e)"
definition util_cq_read_tagged :: "fi_cq_tagged_entry \<Rightarrow> cq_read_data" where
  "util_cq_read_tagged e =
    Fi_cq_tagged_entry (op_context e) (cqe_flags e) (cqe_len e) (cqe_buf e) (cqe_data e) (cqe_tag e)"

text \<open>A round of the loop of \<open>ofi_cq_readfrom\<close> stops the loop, or copies one entry to the user's buffer
  and, when the user gave an address array and the queue records sources, one source address.\<close>

datatype (plugins only: code size) cq_step =
    Cq_break
  | Cq_got cq_read_data "u64 list" util_cq

definition read_src :: "bool \<Rightarrow> util_cq \<Rightarrow> u64 list" where
  "read_src src_addr cq =
    (case cq_src cq of
       Some s \<Rightarrow> if src_addr then [s ! unat (ofi_cirque_rindex (cirq cq))] else []
     | None \<Rightarrow> [])"

definition util_cq_read_oflow_entry ::
    "util_cq \<Rightarrow> util_cq_oflow_err_entry \<Rightarrow> fi_cq_tagged_entry \<Rightarrow> bool \<Rightarrow> cq_read_data \<times> u64 list \<times> util_cq" where
  "util_cq_read_oflow_entry cq oflow_entry cirq_entry src_addr =
    (let q = cirq cq; i = unat (ofi_cirque_rindex q); comp = oe_comp oflow_entry;
         src' = (if src_addr then map_option (\<lambda>s. s[i := oe_src oflow_entry]) (cq_src cq) else cq_src cq)
     in (read_entry cq cirq_entry, read_src src_addr cq,
         cq\<lparr>cq_src := src',
            cirq_ptr := Some (set_slot q i (cirq_entry\<lparr>op_context := op_context comp, cqe_flags := cqe_flags comp,
              cqe_len := cqe_len comp, cqe_buf := cqe_buf comp, cqe_data := cqe_data comp,
              cqe_tag := cqe_tag comp\<rparr>))\<rparr>))"

definition util_cq_read_entry :: "util_cq \<Rightarrow> fi_cq_tagged_entry \<Rightarrow> bool \<Rightarrow> cq_step" where
  "util_cq_read_entry cq entry src_addr =
    Cq_got (read_entry cq entry) (read_src src_addr cq) (cq\<lparr>cirq_ptr := Some (ofi_cirque_discard (cirq cq))\<rparr>)"

definition cq_read_round :: "bool \<Rightarrow> util_cq \<Rightarrow> cq_step option" where
  "cq_read_round src_addr cq =
    (let q = cirq cq; entry = ofi_cirque_head q; head = unat (ofi_cirque_rindex q);
         service_flags = cqe_flags entry AND (UTIL_FLAG_OVERFLOW OR UTIL_FLAG_ERROR)
     in if service_flags = 0 then Some (util_cq_read_entry cq entry src_addr)
        else case oflow_err_list cq of
               [] \<Rightarrow> None
             | oflow_entry # rest \<Rightarrow>
                 if cqe_flags entry AND UTIL_FLAG_ERROR \<noteq> 0 \<and> cqe_err (oe_comp oflow_entry) \<noteq> 0
                 then Some Cq_break
                 else if cqe_flags entry AND UTIL_FLAG_OVERFLOW = 0
                 then Some (util_cq_read_entry cq entry src_addr)
                 else
                   let entry1 = entry\<lparr>cqe_flags := cqe_flags entry AND NOT (UTIL_FLAG_OVERFLOW OR UTIL_FLAG_ERROR)\<rparr>
                   in if parent_comp oflow_entry \<noteq> Some head
                      then Some (util_cq_read_entry (cq\<lparr>cirq_ptr := Some (set_slot q head entry1)\<rparr>) entry1 src_addr)
                      else
                        let (out, srcs, cq1) = util_cq_read_oflow_entry (cq\<lparr>oflow_err_list := rest\<rparr>)
                              oflow_entry entry1 src_addr;
                            e = ofi_cirque_head (cirq cq1)
                        in Some (Cq_got out srcs
                             (if rest = [] then cq1
                              else cq1\<lparr>cirq_ptr := Some (set_slot (cirq cq1) head
                                     (e\<lparr>cqe_flags := cqe_flags e OR service_flags\<rparr>))\<rparr>)))"

text \<open>\<open>cq_read_loop src_addr n i cq\<close> is the loop with \<open>n\<close> rounds to go and \<open>i\<close> entries read.\<close>

fun cq_read_loop ::
    "bool \<Rightarrow> nat \<Rightarrow> nat \<Rightarrow> util_cq \<Rightarrow> (nat fi_result \<times> cq_read_data list \<times> u64 list \<times> util_cq) option" where
  "cq_read_loop src_addr 0 i cq = Some (Inr i, [], [], cq)"
| "cq_read_loop src_addr (Suc n) i cq =
    (case cq_read_round src_addr cq of
       None \<Rightarrow> None
     | Some Cq_break \<Rightarrow> Some (if i = 0 then Inl FI_EAVAIL else Inr i, [], [], cq)
     | Some (Cq_got out srcs cq1) \<Rightarrow>
         (case cq_read_loop src_addr n (Suc i) cq1 of
            None \<Rightarrow> None
          | Some (r, outs, srcs', cq2) \<Rightarrow> Some (r, out # outs, srcs @ srcs', cq2)))"

text \<open>\<open>progress\<close> is the progress function of the queue, with what other threads do while the lock is
  released.\<close>

definition ofi_cq_readfrom ::
    "(util_cq \<Rightarrow> util_cq) \<Rightarrow> util_cq \<Rightarrow> size_t \<Rightarrow> bool \<Rightarrow>
      (nat fi_result \<times> cq_read_data list \<times> u64 list \<times> util_cq) option" where
  "ofi_cq_readfrom progress cq cnt src_addr =
    (let idle = (ofi_cirque_isempty (cirq cq) \<or> cnt = 0);
         cq1 = (if idle then progress cq else cq)
     in if idle \<and> ofi_cirque_isempty (cirq cq1) then Some (Inl FI_EAGAIN, [], [], cq1)
        else cq_read_loop src_addr (nat (sint (min cnt (ofi_cirque_usedcnt (cirq cq1))))) 0 cq1)"

definition ofi_cq_read ::
    "(util_cq \<Rightarrow> util_cq) \<Rightarrow> util_cq \<Rightarrow> size_t \<Rightarrow>
      (nat fi_result \<times> cq_read_data list \<times> u64 list \<times> util_cq) option" where
  "ofi_cq_read progress cq cnt = ofi_cq_readfrom progress cq cnt False"

text \<open>\<open>buf\<close> is the user's entry before the call; the result holds it after the call.  Before version 1.5
  of the interface the entry ends before \<open>err_data_size\<close>.  The list \<open>cqe_err_data\<close> is the memory behind
  the pointer, empty for a null pointer; a copy beyond the end of either block is undefined, a copy of
  no bytes touches no memory.\<close>

definition copy_err_entry :: "u32 \<Rightarrow> fi_cq_err_entry \<Rightarrow> fi_cq_err_entry \<Rightarrow> fi_cq_err_entry option" where
  "copy_err_entry api_version e buf =
    (if FI_VERSION_GE api_version (FI_VERSION 1 5) \<and> cqe_err_data_size buf \<noteq> 0
     then let err_data_size = min (cqe_err_data_size buf) (cqe_err_data_size e)
          in if length (cqe_err_data e) < unat err_data_size \<or> length (cqe_err_data buf) < unat err_data_size then None
             else Some (e\<lparr>cqe_err_data := memcpy (cqe_err_data buf) 0 (take (unat err_data_size) (cqe_err_data e)),
                          cqe_err_data_size := err_data_size\<rparr>)
     else Some (e\<lparr>cqe_err_data_size := cqe_err_data_size buf\<rparr>))"

definition ofi_cq_readerr ::
    "cq_domain \<Rightarrow> util_cq \<Rightarrow> fi_cq_err_entry \<Rightarrow> (unit fi_result \<times> fi_cq_err_entry \<times> util_cq) option" where
  "ofi_cq_readerr domain cq buf =
    (let q = cirq cq; cirq_entry = ofi_cirque_head q; head = unat (ofi_cirque_rindex q);
         cleared = set_slot q head (cirq_entry\<lparr>cqe_flags := cqe_flags cirq_entry AND NOT (UTIL_FLAG_ERROR OR UTIL_FLAG_OVERFLOW)\<rparr>)
     in if ofi_cirque_isempty q \<or> cqe_flags cirq_entry AND UTIL_FLAG_ERROR = 0 then Some (Inl FI_EAGAIN, buf, cq)
        else case oflow_err_list cq of
               [] \<Rightarrow> None
             | err # rest \<Rightarrow>
                 map_option (\<lambda>buf1. (Inr (), buf1,
                   cq\<lparr>oflow_err_list := rest,
                      cirq_ptr := Some
                        (if cqe_flags cirq_entry AND UTIL_FLAG_OVERFLOW = 0 then ofi_cirque_discard q
                         else case rest of
                                [] \<Rightarrow> cleared
                              | oflow_entry # _ \<Rightarrow> if parent_comp oflow_entry \<noteq> Some head then cleared else q)\<rparr>))
                   (copy_err_entry (cqd_api_version domain) (oe_comp err) buf))"

subsection \<open>Blocking reads\<close>

text \<open>In round \<open>k\<close> of the loop of \<open>ofi_cq_sreadfrom\<close> the progress function does \<open>progress k\<close>, the clock
  reads \<open>now k\<close> and \<open>fi_wait\<close> does \<open>wait k\<close>.  The state is the remaining timeout and the queue.

  The code keeps the result of \<open>ofi_cq_readfrom\<close> in an \<open>int\<close>: a number of entries that does not fit wraps
  and may then be taken for an error code.\<close>

type_synonym cq_sread_result = "(int fi_result \<times> cq_read_data list \<times> u64 list \<times> util_cq) option"

definition untimed :: "'a fi_result \<Rightarrow> 'a fi_result" where
  "untimed r = (if r = Inl FI_ETIMEDOUT then Inl FI_EAGAIN else r)"

definition EAGAIN :: int where "EAGAIN = 11"
definition ETIMEDOUT :: int where "ETIMEDOUT = 110"

definition ret_int :: "nat fi_result \<Rightarrow> int fi_result" where
  "ret_int r = (case r of Inl e \<Rightarrow> Inl e | Inr n \<Rightarrow> Inr (sint (word_of_nat n :: c_int)))"

definition is_eagain :: "int fi_result \<Rightarrow> bool" where
  "is_eagain r \<longleftrightarrow> r = Inl FI_EAGAIN \<or> r = Inr (- EAGAIN)"

definition untimed_int :: "int fi_result \<Rightarrow> int fi_result" where
  "untimed_int r = (if r = Inl FI_ETIMEDOUT \<or> r = Inr (- ETIMEDOUT) then Inl FI_EAGAIN else r)"

definition cq_sread_round ::
    "(nat \<Rightarrow> util_cq \<Rightarrow> util_cq) \<Rightarrow> (nat \<Rightarrow> u64) \<Rightarrow> (nat \<Rightarrow> c_int \<Rightarrow> util_cq \<Rightarrow> util_cq \<times> unit fi_result) \<Rightarrow>
      size_t \<Rightarrow> bool \<Rightarrow> u64 \<Rightarrow> nat \<Rightarrow> c_int \<times> util_cq \<Rightarrow> cq_sread_result + c_int \<times> util_cq" where
  "cq_sread_round progress now wait cnt src_addr endtime k = (\<lambda>(timeout, cq).
    case ofi_cq_readfrom (progress k) cq cnt src_addr of
      None \<Rightarrow> Inl None
    | Some (r, outs, srcs, cq1) \<Rightarrow>
        if \<not> is_eagain (ret_int r) then Inl (Some (untimed_int (ret_int r), outs, srcs, cq1))
        else (case ofi_adjust_timeout (now k) endtime timeout of
                (_, Inl _) \<Rightarrow> Inl (Some (Inl FI_EAGAIN, outs, srcs, cq1))
              | (timeout1, Inr _) \<Rightarrow>
                  if signaled cq1 then Inl (Some (Inl FI_ECANCELED, outs, srcs, cq1\<lparr>signaled := False\<rparr>))
                  else (case wait k timeout1 cq1 of
                          (cq2, Inr _) \<Rightarrow> Inr (timeout1, cq2)
                        | (cq2, Inl e) \<Rightarrow> Inl (Some (untimed_int (Inl e), outs, srcs, cq2)))))"

fun cq_sread_loop ::
    "(nat \<Rightarrow> util_cq \<Rightarrow> util_cq) \<Rightarrow> (nat \<Rightarrow> u64) \<Rightarrow> (nat \<Rightarrow> c_int \<Rightarrow> util_cq \<Rightarrow> util_cq \<times> unit fi_result) \<Rightarrow>
      size_t \<Rightarrow> bool \<Rightarrow> u64 \<Rightarrow> nat \<Rightarrow> nat \<Rightarrow> c_int \<times> util_cq \<Rightarrow> cq_sread_result option" where
  "cq_sread_loop progress now wait cnt src_addr endtime 0 k s = None"
| "cq_sread_loop progress now wait cnt src_addr endtime (Suc fuel) k s =
    (case cq_sread_round progress now wait cnt src_addr endtime k s of
       Inl r \<Rightarrow> Some r
     | Inr s1 \<Rightarrow> cq_sread_loop progress now wait cnt src_addr endtime fuel (Suc k) s1)"

text \<open>A queue without a wait object of its own fails the assertion.\<close>

definition ofi_cq_sreadfrom ::
    "nat \<Rightarrow> (nat \<Rightarrow> util_cq \<Rightarrow> util_cq) \<Rightarrow> (nat \<Rightarrow> u64) \<Rightarrow> (nat \<Rightarrow> c_int \<Rightarrow> util_cq \<Rightarrow> util_cq \<times> unit fi_result) \<Rightarrow>
      u64 \<Rightarrow> util_cq \<Rightarrow> size_t \<Rightarrow> bool \<Rightarrow> c_int \<Rightarrow> cq_sread_result option" where
  "ofi_cq_sreadfrom fuel progress now wait start cq cnt src_addr timeout =
    (if cq_wait cq = None \<or> \<not> internal_wait cq then Some None
     else cq_sread_loop progress now wait cnt src_addr (ofi_timeout_time start timeout) fuel 0 (timeout, cq))"

definition util_cq_signal :: "util_cq \<Rightarrow> util_cq option" where
  "util_cq_signal cq =
    (case cq_wait cq of None \<Rightarrow> None | Some _ \<Rightarrow> Some (cq\<lparr>wait_signals := Suc (wait_signals cq)\<rparr>))"

definition ofi_cq_signal :: "util_cq \<Rightarrow> (unit fi_result \<times> util_cq) option" where
  "ofi_cq_signal cq = map_option (Pair (Inr ())) (util_cq_signal (cq\<lparr>signaled := True\<rparr>))"

subsection \<open>Opening and closing\<close>

definition ofi_check_cq_attr :: "fi_cq_attr \<Rightarrow> unit fi_result" where
  "ofi_check_cq_attr attr =
    (let wait_cond_ok = (case cqa_wait_cond attr of
            FI_CQ_COND_NONE \<Rightarrow> Inr () | FI_CQ_COND_THRESHOLD \<Rightarrow> Inr () | _ \<Rightarrow> Inl FI_EINVAL)
     in and_then
       (case cqa_format attr of Other_cq_format _ \<Rightarrow> Inl FI_EINVAL | _ \<Rightarrow> Inr ())
       (\<lambda>_. and_then
          (case cqa_wait_obj attr of
             FI_WAIT_NONE \<Rightarrow> Inr ()
           | FI_WAIT_YIELD \<Rightarrow> Inr ()
           | FI_WAIT_SET \<Rightarrow> if cqa_wait_set attr = None then Inl FI_EINVAL else wait_cond_ok
           | FI_WAIT_UNSPEC \<Rightarrow> wait_cond_ok
           | FI_WAIT_FD \<Rightarrow> wait_cond_ok
           | _ \<Rightarrow> Inl FI_EINVAL)
          (\<lambda>_. if cqa_flags attr AND NOT FI_AFFINITY \<noteq> 0 then Inl FI_EINVAL else Inr ())))"

text \<open>What opening and closing do to objects outside the queue.\<close>

datatype (plugins only: code size) cq_effect =
    Poll_del fid | Close_wait fid | Free_cirq | Free_src | Free_oflow nat | Domain_ref_dec

definition ofi_cq_cleanup :: "util_cq \<Rightarrow> unit fi_result \<times> cq_effect list" where
  "ofi_cq_cleanup cq =
    (if cq_ref cq \<noteq> 0 then (Inl FI_EBUSY, [])
     else (Inr (),
       [Free_oflow (length (oflow_err_list cq))] @
       (case cq_wait cq of
          None \<Rightarrow> []
        | Some w \<Rightarrow> Poll_del w # (if internal_wait cq then [Close_wait w] else [])) @
       [Domain_ref_dec] @
       (if cirq_ptr cq = None then [] else [Free_cirq]) @
       (if cq_src cq = None then [] else [Free_src])))"

definition util_cq_close :: "util_cq \<Rightarrow> unit fi_result \<times> cq_effect list" where
  "util_cq_close cq = ofi_cq_cleanup cq"

text \<open>\<open>FI_GETWAIT\<close> is the only command; \<open>control\<close> is the control function of the wait object.  Any other
  command logs through \<open>cq->wait\<close> without a test.\<close>

datatype (plugins only: code size) fi_command = FI_GETWAIT | Other_command int

definition ofi_cq_control :: "(fid \<Rightarrow> 'a fi_result) \<Rightarrow> util_cq \<Rightarrow> fi_command \<Rightarrow> 'a fi_result option" where
  "ofi_cq_control control cq command =
    (case command of
       FI_GETWAIT \<Rightarrow> Some (case cq_wait cq of None \<Rightarrow> Inl FI_ENODATA | Some w \<Rightarrow> control w)
     | _ \<Rightarrow> (case cq_wait cq of None \<Rightarrow> None | Some _ \<Rightarrow> Some (Inl FI_ENOSYS)))"

text \<open>\<open>wait_open\<close> is the result of \<open>fi_wait_open\<close>.  The queue is zeroed memory before.\<close>

definition util_cq0 :: util_cq where
  "util_cq0 = \<lparr>cq_wait = None, cq_ref = 0, cq_ep_list = [], cq_locking = False, cirq_ptr = None, cq_src = None,
    oflow_err_list = [], read_entry = util_cq_read_ctx, internal_wait = False, signaled = False, wait_signals = 0\<rparr>"

definition fi_cq_init ::
    "(fi_wait_obj \<Rightarrow> fid fi_result) \<Rightarrow> cq_domain \<Rightarrow> fi_cq_attr \<Rightarrow> (fi_cq_tagged_entry \<Rightarrow> cq_read_data) \<Rightarrow>
      (util_cq \<times> cq_domain) fi_result" where
  "fi_cq_init wait_open domain attr read_func =
    (let cq = util_cq0\<lparr>read_entry := read_func,
           cq_locking := \<not> (cqd_threading domain = FI_THREAD_COMPLETION \<or> cqd_threading domain = FI_THREAD_DOMAIN)\<rparr>;
         done = (\<lambda>cq. Inr (cq, domain\<lparr>cqd_ref := cqd_ref domain + 1\<rparr>));
         internal = and_then (wait_open (cqa_wait_obj attr))
           (\<lambda>w. done (cq\<lparr>internal_wait := True, cq_wait := Some w\<rparr>))
     in case cqa_wait_obj attr of
          FI_WAIT_NONE \<Rightarrow> done cq
        | FI_WAIT_SET \<Rightarrow> done (cq\<lparr>cq_wait := cqa_wait_set attr\<rparr>)
        | Other_wait_obj _ \<Rightarrow> Inl FI_EINVAL
        | _ \<Rightarrow> internal)"

definition cq_read_func :: "fi_cq_format \<Rightarrow> (fi_cq_tagged_entry \<Rightarrow> cq_read_data) fi_result" where
  "cq_read_func format =
    (case format of
       FI_CQ_FORMAT_UNSPEC \<Rightarrow> Inr util_cq_read_ctx
     | FI_CQ_FORMAT_CONTEXT \<Rightarrow> Inr util_cq_read_ctx
     | FI_CQ_FORMAT_MSG \<Rightarrow> Inr util_cq_read_msg
     | FI_CQ_FORMAT_DATA \<Rightarrow> Inr util_cq_read_data
     | FI_CQ_FORMAT_TAGGED \<Rightarrow> Inr util_cq_read_tagged
     | Other_cq_format _ \<Rightarrow> Inl FI_EINVAL)"

text \<open>The result is the queue with the domain, or the error with what was released on the way out.
  \<open>ok\<close> answers the two allocations, \<open>poll_add\<close> is the result of adding the queue to the poll set.\<close>

definition ofi_cq_init ::
    "(nat \<Rightarrow> bool) \<Rightarrow> (fi_wait_obj \<Rightarrow> fid fi_result) \<Rightarrow> (fid \<Rightarrow> unit fi_result) \<Rightarrow> cq_domain \<Rightarrow> fi_cq_attr \<Rightarrow>
      (fi_errno \<times> cq_effect list) + (util_cq \<times> cq_domain)" where
  "ofi_cq_init ok wait_open poll_add domain attr =
    (case and_then (ofi_check_cq_attr attr)
            (\<lambda>_. and_then (cq_read_func (cqa_format attr)) (fi_cq_init wait_open domain attr)) of
       Inl e \<Rightarrow> Inl (e, [])
     | Inr (cq, domain1) \<Rightarrow>
         (case (case cq_wait cq of None \<Rightarrow> Inr () | Some w \<Rightarrow> poll_add w) of
            Inl e \<Rightarrow> Inl (e, snd (ofi_cq_cleanup cq))
          | Inr _ \<Rightarrow>
              let sz = (if cqa_size attr = 0 then UTIL_DEF_CQ_SIZE else cqa_size attr);
                  cq1 = cq\<lparr>cirq_ptr := cirque_create (ok 0) entry0 sz\<rparr>
              in case cirq_ptr cq1 of
                   None \<Rightarrow> Inl (FI_ENOMEM, snd (ofi_cq_cleanup cq1))
                 | Some q \<Rightarrow>
                     if cqd_info_domain_caps domain AND FI_SOURCE \<noteq> 0
                     then if ok 1 then Inr (cq1\<lparr>cq_src := Some (replicate (unat (cq_size q)) 0)\<rparr>, domain1)
                          else Inl (FI_ENOMEM, Free_cirq # snd (ofi_cq_cleanup cq1))
                     else Inr (cq1, domain1)))"

text \<open>\<open>tx_cq\<close> and \<open>rx_cq\<close> say whether the endpoint has the queue already.\<close>

definition ofi_check_bind_cq_flags :: "bool \<Rightarrow> bool \<Rightarrow> u64 \<Rightarrow> unit fi_result" where
  "ofi_check_bind_cq_flags tx_cq rx_cq flags =
    (if flags AND NOT (FI_TRANSMIT OR FI_RECV OR FI_SELECTIVE_COMPLETION) \<noteq> 0 then Inl FI_EBADFLAGS
     else if (flags AND FI_TRANSMIT \<noteq> 0 \<and> tx_cq) \<or> (flags AND FI_RECV \<noteq> 0 \<and> rx_cq) then Inl FI_EINVAL
     else Inr ())"

definition ofi_cq_progress :: "(fid \<Rightarrow> util_cq \<Rightarrow> util_cq) \<Rightarrow> util_cq \<Rightarrow> util_cq" where
  "ofi_cq_progress ep_progress cq = fold ep_progress (cq_ep_list cq) cq"

subsection \<open>Completion flags\<close>

definition ofi_need_completion :: "u64 \<Rightarrow> u64 \<Rightarrow> bool" where
  "ofi_need_completion cq_flags op_flags \<longleftrightarrow>
    cq_flags AND FI_SELECTIVE_COMPLETION = 0 \<or>
    op_flags AND (FI_COMPLETION OR FI_INJECT_COMPLETE OR FI_TRANSMIT_COMPLETE OR FI_DELIVERY_COMPLETE) \<noteq> 0"

definition ofi_op_max :: u32 where "ofi_op_max = 10"

definition ofi_rx_flags :: "u64 list" where
  "ofi_rx_flags = [FI_RECV, FI_RECV OR FI_TAGGED, FI_RMA OR FI_REMOTE_READ, FI_RMA OR FI_REMOTE_READ,
    FI_RMA OR FI_REMOTE_WRITE, FI_RMA OR FI_REMOTE_WRITE, FI_ATOMIC OR FI_REMOTE_WRITE,
    FI_ATOMIC OR FI_REMOTE_READ, FI_ATOMIC OR FI_REMOTE_READ, FI_RMA OR FI_READ]"

definition ofi_tx_flags :: "u64 list" where
  "ofi_tx_flags = [FI_SEND, FI_SEND OR FI_TAGGED, FI_RMA OR FI_READ, FI_RMA OR FI_READ,
    FI_RMA OR FI_WRITE, FI_RMA OR FI_WRITE, FI_ATOMIC OR FI_WRITE,
    FI_ATOMIC OR FI_READ, FI_ATOMIC OR FI_READ, FI_RMA OR FI_RMA]"

definition ofi_rx_cq_flags :: "u32 \<Rightarrow> u64 option" where
  "ofi_rx_cq_flags opcode = (if opcode < ofi_op_max then Some (ofi_rx_flags ! unat opcode) else None)"

definition ofi_tx_cq_flags :: "u32 \<Rightarrow> u64 option" where
  "ofi_tx_cq_flags opcode = (if opcode < ofi_op_max then Some (ofi_tx_flags ! unat opcode) else None)"

subsection \<open>Service flags\<close>

abbreviation flagged :: "fi_cq_tagged_entry \<Rightarrow> bool" where "flagged e \<equiv> bit (cqe_flags e) 60"
abbreviation overflown :: "fi_cq_tagged_entry \<Rightarrow> bool" where "overflown e \<equiv> bit (cqe_flags e) 61"

text \<open>A provider's own flags leave the two service flags free.\<close>

definition service_free :: "u64 \<Rightarrow> bool" where
  "service_free flags \<longleftrightarrow> flags AND (UTIL_FLAG_OVERFLOW OR UTIL_FLAG_ERROR) = 0"

lemma and_push_bit_1_eq_0: "(x :: 'a::len word) AND push_bit k 1 = 0 \<longleftrightarrow> \<not> bit x k"
  using and_flag [of x k] by blast

lemma error_flag: "x AND UTIL_FLAG_ERROR = 0 \<longleftrightarrow> \<not> bit x 60"
  by (simp only: UTIL_FLAG_ERROR_def and_push_bit_1_eq_0)

lemma overflow_flag: "x AND UTIL_FLAG_OVERFLOW = 0 \<longleftrightarrow> \<not> bit x 61"
  by (simp only: UTIL_FLAG_OVERFLOW_def and_push_bit_1_eq_0)

lemma bit_error_flag [simp]: "bit UTIL_FLAG_ERROR n \<longleftrightarrow> n = 60"
  unfolding UTIL_FLAG_ERROR_def bit_push_bit_iff bit_1_iff by auto

lemma bit_overflow_flag [simp]: "bit UTIL_FLAG_OVERFLOW n \<longleftrightarrow> n = 61"
  unfolding UTIL_FLAG_OVERFLOW_def bit_push_bit_iff bit_1_iff by auto

lemma service_flags_nonzero [simp]: "UTIL_FLAG_OVERFLOW \<noteq> 0" "UTIL_FLAG_ERROR \<noteq> 0"
  by (simp_all add: fi_consts)

lemma service_flags: "x AND (UTIL_FLAG_OVERFLOW OR UTIL_FLAG_ERROR) = 0 \<longleftrightarrow> \<not> bit x 60 \<and> \<not> bit x 61"
  unfolding bit_eq_iff [of "x AND _"] bit_and_iff bit_or_iff bit_error_flag bit_overflow_flag bit_0_eq
  by (auto simp: bot_fun_def dest: spec [of _ 60] spec [of _ 61])

lemma service_free_bits: "service_free x \<longleftrightarrow> \<not> bit x 60 \<and> \<not> bit x 61"
  by (simp add: service_free_def service_flags)

lemma clear_service:
  assumes "service_free x"
  shows "x AND NOT (UTIL_FLAG_OVERFLOW OR UTIL_FLAG_ERROR) = x"
    "(x OR UTIL_FLAG_OVERFLOW) AND NOT (UTIL_FLAG_OVERFLOW OR UTIL_FLAG_ERROR) = x"
  using assms by (auto intro!: bit_word_eqI simp: bit_simps service_free_bits)

lemmas service_simps = error_flag overflow_flag service_flags service_free_bits bit_or_iff bit_and_iff

subsection \<open>Slots of the circular queue\<close>

text \<open>The array of source addresses, seen as a circular queue with the counters of the completions.\<close>

definition src_cirque :: "'a cirque \<Rightarrow> 'b list \<Rightarrow> 'b cirque" where
  "src_cirque q b = \<lparr>cq_size = cq_size q, cq_size_mask = cq_size_mask q, cq_rcnt = cq_rcnt q, cq_wcnt = cq_wcnt q, cq_buf = b\<rparr>"

lemma cq_head: "cq_inv q \<Longrightarrow> cq_list q = y # ys \<Longrightarrow> ofi_cirque_head q = y"
  using cq_advance [of q y ys] by (simp add: ofi_cirque_head_def ofi_cirque_rindex_def)

lemma commit_set_slot: "ofi_cirque_commit (set_slot q (unat (ofi_cirque_windex q)) x) = ofi_cirque_insert q x"
  by (simp add: ofi_cirque_commit_def set_slot_def ofi_cirque_windex_def ofi_cirque_insert_def)

lemma cq_set_head:
  assumes inv: "cq_inv q" and ne: "cq_list q = y # ys"
  shows "cq_inv (set_slot q (unat (ofi_cirque_rindex q)) x)"
    and "cq_list (set_slot q (unat (ofi_cirque_rindex q)) x) = x # ys"
proof -
  obtain k where k: "k < 64" "cq_size q = 2 ^ k" "cq_size_mask q = 2 ^ k - 1" "length (cq_buf q) = 2 ^ k"
    "unat (ofi_cirque_usedcnt q) \<le> 2 ^ k" using cq_invE [OF inv] by metis
  define r u where "r = unat (cq_rcnt q)" and "u = unat (ofi_cirque_usedcnt q)"
  define q' where "q' = set_slot q (unat (ofi_cirque_rindex q)) x"
  have u: "u = Suc (length ys)" using ne length_circ_get [of "cq_buf q" r u] by (simp add: cq_list_def r_def u_def)
  have i: "unat (ofi_cirque_rindex q) = r mod 2 ^ k" by (simp only: ofi_cirque_rindex_def k(3) unat_slot r_def)
  have used: "ofi_cirque_usedcnt q' = ofi_cirque_usedcnt q" by (simp add: q'_def set_slot_def ofi_cirque_usedcnt_def)
  show "cq_inv (set_slot q (unat (ofi_cirque_rindex q)) x)"
    using inv used by (simp add: cq_inv_def set_slot_def ofi_cirque_usedcnt_def)
  have "cq_list q' ! j = (x # ys) ! j" if j: "j < u" for j
  proof -
    have eq: "(r + j) mod 2 ^ k = r mod 2 ^ k \<longleftrightarrow> j = 0"
      using j k(5) mod_add_cases [of j "2 ^ k" r] by (auto simp: u_def [symmetric])
    have "cq_list q' ! j = (cq_buf q)[r mod 2 ^ k := x] ! ((r + j) mod 2 ^ k)"
      using j unfolding q'_def i by (simp add: cq_list_def set_slot_def ofi_cirque_usedcnt_def r_def u_def k(4))
    moreover have "cq_list q ! j = cq_buf q ! ((r + j) mod 2 ^ k)"
      using j by (simp add: cq_list_def r_def u_def k(4))
    ultimately show ?thesis using eq j ne k(4) by (cases j) (auto simp: nth_list_update)
  qed
  moreover have "length (cq_list q') = u" unfolding cq_list_def used u_def by simp
  ultimately show "cq_list (set_slot q (unat (ofi_cirque_rindex q)) x) = x # ys"
    unfolding q'_def [symmetric] by (intro nth_equalityI) (simp_all add: u)
qed

lemma full_tail_is_head:
  assumes "cq_inv q" and "ofi_cirque_isfull q"
  shows "ofi_cirque_windex q = ofi_cirque_rindex q"
proof -
  obtain k where k: "k < 64" "cq_size q = 2 ^ k" "cq_size_mask q = 2 ^ k - 1"
    using cq_invE [OF assms(1)] by metis
  have "ofi_cirque_usedcnt q = 2 ^ k"
    using assms(2) k(2) by (simp add: ofi_cirque_isfull_def ofi_cirque_freecnt_def)
  then have "unat (cq_wcnt q - cq_rcnt q) = 2 ^ k" using k(1) by (simp add: ofi_cirque_usedcnt_def unat_pow2)
  then have "unat (cq_wcnt q) mod 2 ^ k = unat (cq_rcnt q) mod 2 ^ k"
    using slot_shift [OF k(1), of "cq_wcnt q" "cq_rcnt q"] by simp
  then show ?thesis
    unfolding ofi_cirque_windex_def ofi_cirque_rindex_def k(3) by (simp add: word_unat_eq_iff unat_slot)
qed

lemma src_cirque_inv: "cq_inv q \<Longrightarrow> length b = length (cq_buf q) \<Longrightarrow> cq_inv (src_cirque q b)"
  by (auto simp: cq_inv_def src_cirque_def ofi_cirque_usedcnt_def)

lemma length_src_cirque: "length (cq_list (src_cirque q b)) = length (cq_list q)"
  by (simp add: cq_list_def src_cirque_def ofi_cirque_usedcnt_def)

lemma src_cirque_simps:
  "src_cirque (ofi_cirque_discard q) b = ofi_cirque_discard (src_cirque q b)"
  "src_cirque (set_slot q i x) b = src_cirque q b"
  "set_slot (src_cirque q b) i y = src_cirque q (b[i := y])"
  "src_cirque (ofi_cirque_insert q x) (b[unat (ofi_cirque_windex q) := y]) = ofi_cirque_insert (src_cirque q b) y"
  "ofi_cirque_rindex (src_cirque q b) = ofi_cirque_rindex q"
  "ofi_cirque_isfull (src_cirque q b) = ofi_cirque_isfull q"
  by (simp_all add: src_cirque_def ofi_cirque_discard_def set_slot_def ofi_cirque_insert_def ofi_cirque_windex_def
      ofi_cirque_rindex_def ofi_cirque_isfull_def ofi_cirque_freecnt_def ofi_cirque_usedcnt_def)

subsection \<open>What the queue holds\<close>

text \<open>The queue holds completions, each with its source address when the queue records sources, and
  errors.\<close>

datatype (plugins only: code size) cq_item = Done fi_cq_tagged_entry "u64 option" | Failed fi_cq_err_entry

definition slot_srcs :: "util_cq \<Rightarrow> u64 option list" where
  "slot_srcs cq =
    (case cq_src cq of
       None \<Rightarrow> replicate (length (cq_list (cirq cq))) None
     | Some s \<Rightarrow> map Some (cq_list (src_cirque (cirq cq) s)))"

definition comp_of :: "fi_cq_err_entry \<Rightarrow> fi_cq_tagged_entry" where
  "comp_of c = tagged_entry (op_context c) (cqe_flags c) (cqe_len c) (cqe_buf c) (cqe_data c) (cqe_tag c)"

definition oflow_item :: "util_cq \<Rightarrow> util_cq_oflow_err_entry \<Rightarrow> cq_item" where
  "oflow_item cq o1 = Done (comp_of (oe_comp o1)) (map_option (\<lambda>_. oe_src o1) (cq_src cq))"

text \<open>Without overflow, a flagged slot stands for the next entry of the list of errors.\<close>

fun queued :: "fi_cq_tagged_entry list \<Rightarrow> u64 option list \<Rightarrow> util_cq_oflow_err_entry list \<Rightarrow> cq_item list" where
  "queued (e # es) (s # ss) os =
    (if flagged e then (case os of [] \<Rightarrow> [] | o1 # os' \<Rightarrow> Failed (oe_comp o1) # queued es ss os')
     else Done e s # queued es ss os)"
| "queued _ _ _ = []"

definition unserviced :: "fi_cq_tagged_entry \<Rightarrow> fi_cq_tagged_entry" where
  "unserviced e = e\<lparr>cqe_flags := cqe_flags e AND NOT (UTIL_FLAG_OVERFLOW OR UTIL_FLAG_ERROR)\<rparr>"

text \<open>Completions that overflowed come out after the entry at the head of the queue.\<close>

definition cq_content :: "util_cq \<Rightarrow> cq_item list" where
  "cq_content cq =
    (case (cq_list (cirq cq), slot_srcs cq) of
       (e # es, s # ss) \<Rightarrow>
         if overflown e
         then Done (unserviced e) s # map (oflow_item cq) (oflow_err_list cq) @ map2 Done es ss
         else queued (e # es) (s # ss) (oflow_err_list cq)
     | _ \<Rightarrow> [])"

definition cq_shape :: "util_cq \<Rightarrow> bool" where
  "cq_shape cq \<longleftrightarrow> cirq_ptr cq \<noteq> None \<and> cq_inv (cirq cq) \<and> unat (cq_size (cirq cq)) < 2 ^ 63 \<and>
    (\<forall>s. cq_src cq = Some s \<longrightarrow> length s = length (cq_buf (cirq cq)))"

text \<open>The two kinds of state: every error has its slot and nothing has overflowed, or the queue is full,
  no error is pending, and all of the list overflowed at the head.\<close>

definition cq_regular :: "util_cq \<Rightarrow> bool" where
  "cq_regular cq \<longleftrightarrow>
    (\<forall>e \<in> set (cq_list (cirq cq)). \<not> overflown e) \<and>
    length (filter flagged (cq_list (cirq cq))) = length (oflow_err_list cq) \<and>
    (\<forall>o1 \<in> set (oflow_err_list cq). cqe_err (oe_comp o1) \<noteq> 0)"

definition cq_overflown :: "util_cq \<Rightarrow> bool" where
  "cq_overflown cq \<longleftrightarrow>
    ofi_cirque_isfull (cirq cq) \<and> oflow_err_list cq \<noteq> [] \<and>
    (\<forall>o1 \<in> set (oflow_err_list cq). cqe_err (oe_comp o1) = 0 \<and> service_free (cqe_flags (oe_comp o1)) \<and>
       parent_comp o1 = Some (unat (ofi_cirque_rindex (cirq cq)))) \<and>
    (case cq_list (cirq cq) of
       [] \<Rightarrow> False
     | e # es \<Rightarrow> overflown e \<and> \<not> flagged e \<and> (\<forall>e \<in> set es. service_free (cqe_flags e)))"

definition ucq_inv :: "util_cq \<Rightarrow> bool" where
  "ucq_inv cq \<longleftrightarrow> cq_shape cq \<and> (cq_regular cq \<or> cq_overflown cq)"

lemma length_slot_srcs [simp]: "length (slot_srcs cq) = length (cq_list (cirq cq))"
  by (simp add: slot_srcs_def length_src_cirque split: option.splits)

lemma slot_srcs_oflow [simp]: "slot_srcs (cq\<lparr>oflow_err_list := os\<rparr>) = slot_srcs cq"
  by (cases "cq_src cq") (simp_all add: slot_srcs_def)

lemma slot_srcs_ConsE:
  assumes "cq_list (cirq cq) = e # es"
  obtains s ss where "slot_srcs cq = s # ss" "length ss = length es"
  using assms length_slot_srcs [of cq] by (cases "slot_srcs cq") auto

lemma read_src_head:
  assumes "cq_shape cq" and "slot_srcs cq = s # ss"
  shows "read_src src_addr cq = (if src_addr then (case s of None \<Rightarrow> [] | Some x \<Rightarrow> [x]) else [])"
proof (cases "cq_src cq")
  case None
  then have "s = None" using assms(2)
    by (cases "cq_list (cirq cq)") (simp_all add: slot_srcs_def)
  then show ?thesis using None by (simp add: read_src_def)
next
  case (Some b)
  then obtain x xs where x: "s = Some x" "cq_list (src_cirque (cirq cq) b) = x # xs"
    using assms(2) by (auto simp: slot_srcs_def)
  have "cq_inv (src_cirque (cirq cq) b)" using assms(1) Some by (intro src_cirque_inv) (simp_all add: cq_shape_def)
  from cq_head [OF this x(2)] have "b ! unat (ofi_cirque_rindex (cirq cq)) = x"
    by (simp add: ofi_cirque_head_def src_cirque_simps) (simp add: src_cirque_def)
  then show ?thesis using Some x(1) by (simp add: read_src_def)
qed

lemma shape_discard:
  assumes sh: "cq_shape cq" and es: "cq_list (cirq cq) = e # es" and ss: "slot_srcs cq = s # ss"
  defines "cq' \<equiv> cq\<lparr>cirq_ptr := Some (ofi_cirque_discard (cirq cq))\<rparr>"
  shows "cq_shape cq'" and "cq_list (cirq cq') = es" and "slot_srcs cq' = ss"
proof -
  have inv: "cq_inv (cirq cq)" using sh by (simp add: cq_shape_def)
  note adv = cq_advance [OF inv es]
  then show "cq_shape cq'" using sh
    by (simp add: cq_shape_def cq'_def) (simp add: ofi_cirque_discard_def)
  show es': "cq_list (cirq cq') = es" using adv by (simp add: cq'_def)
  show "slot_srcs cq' = ss"
  proof (cases "cq_src cq")
    case None
    then show ?thesis using ss es es' by (simp add: slot_srcs_def cq'_def)
  next
    case (Some b)
    then obtain x xs where x: "ss = map Some xs" "cq_list (src_cirque (cirq cq) b) = x # xs"
      using ss by (auto simp: slot_srcs_def)
    have "cq_inv (src_cirque (cirq cq) b)" using inv sh Some by (intro src_cirque_inv) (simp_all add: cq_shape_def)
    from cq_advance [OF this x(2)] show ?thesis
      using Some x(1) by (simp add: slot_srcs_def cq'_def src_cirque_simps)
  qed
qed

lemma shape_set_head:
  fixes x :: fi_cq_tagged_entry
  assumes sh: "cq_shape cq" and es: "cq_list (cirq cq) = e # es"
  defines "cq' \<equiv> cq\<lparr>cirq_ptr := Some (set_slot (cirq cq) (unat (ofi_cirque_rindex (cirq cq))) x)\<rparr>"
  shows "cq_shape cq'" and "cq_list (cirq cq') = x # es" and "slot_srcs cq' = slot_srcs cq"
proof -
  have inv: "cq_inv (cirq cq)" using sh by (simp add: cq_shape_def)
  note h = cq_set_head [OF inv es, of x]
  show "cq_shape cq'" using sh h(1) by (simp add: cq_shape_def cq'_def) (simp add: set_slot_def)
  show "cq_list (cirq cq') = x # es" using h(2) by (simp add: cq'_def)
  then show "slot_srcs cq' = slot_srcs cq" using es by (cases "cq_src cq") (simp_all add: slot_srcs_def cq'_def src_cirque_simps)
qed

lemma shape_set_src:
  fixes y :: u64
  assumes sh: "cq_shape cq" and ss: "slot_srcs cq = s # ss"
  defines "cq' \<equiv> cq\<lparr>cq_src := map_option (\<lambda>b. b[unat (ofi_cirque_rindex (cirq cq)) := y]) (cq_src cq)\<rparr>"
  shows "cq_shape cq'" and "slot_srcs cq' = map_option (\<lambda>_. y) (cq_src cq) # ss"
proof -
  have inv: "cq_inv (cirq cq)" using sh by (simp add: cq_shape_def)
  show "cq_shape cq'" using sh by (auto simp: cq_shape_def cq'_def)
  show "slot_srcs cq' = map_option (\<lambda>_. y) (cq_src cq) # ss"
  proof (cases "cq_src cq")
    case None
    then show ?thesis using ss by (cases "cq_list (cirq cq)") (simp_all add: slot_srcs_def cq'_def)
  next
    case (Some b)
    then obtain x xs where x: "ss = map Some xs" "cq_list (src_cirque (cirq cq) b) = x # xs"
      using ss by (auto simp: slot_srcs_def)
    have "cq_inv (src_cirque (cirq cq) b)" using inv sh Some by (intro src_cirque_inv) (simp_all add: cq_shape_def)
    from cq_set_head(2) [OF this x(2), of y] show ?thesis
      using Some x(1) by (simp add: slot_srcs_def cq'_def src_cirque_simps)
  qed
qed

lemma queued_unflagged:
  "\<forall>e \<in> set es. \<not> flagged e \<Longrightarrow> length es = length ss \<Longrightarrow> queued es ss os = map2 Done es ss"
  by (induction es ss os rule: queued.induct) auto

lemma regular_content:
  assumes "cq_regular cq"
  shows "cq_content cq = queued (cq_list (cirq cq)) (slot_srcs cq) (oflow_err_list cq)"
proof (cases "cq_list (cirq cq)")
  case (Cons e es)
  then obtain s ss where "slot_srcs cq = s # ss" by (rule slot_srcs_ConsE)
  moreover have "\<not> overflown e" using assms Cons by (simp add: cq_regular_def)
  ultimately show ?thesis using Cons by (simp add: cq_content_def)
qed (simp add: cq_content_def)

text \<open>What one round of the read loop does: it stops at an error, or hands over the first item.\<close>

definition hands_over :: "bool \<Rightarrow> util_cq \<Rightarrow> fi_cq_tagged_entry \<Rightarrow> u64 option \<Rightarrow> util_cq \<Rightarrow> bool" where
  "hands_over src_addr cq e s cq' \<longleftrightarrow>
    cq_read_round src_addr cq =
      Some (Cq_got (read_entry cq e) (if src_addr then (case s of None \<Rightarrow> [] | Some x \<Rightarrow> [x]) else []) cq') \<and>
    ucq_inv cq' \<and> cq_content cq = Done e s # cq_content cq' \<and> read_entry cq' = read_entry cq \<and>
    (cq_src cq' = None \<longleftrightarrow> cq_src cq = None) \<and> length (cq_list (cirq cq)) \<le> Suc (length (cq_list (cirq cq')))"

lemma round_regular:
  assumes sh: "cq_shape cq" and reg: "cq_regular cq" and ne: "cq_list (cirq cq) \<noteq> []"
  shows "(\<exists>err is. cq_content cq = Failed err # is \<and> cq_read_round src_addr cq = Some Cq_break) \<or>
    (\<exists>e s cq'. hands_over src_addr cq e s cq')"
proof -
  obtain e es where es: "cq_list (cirq cq) = e # es" using ne by (cases "cq_list (cirq cq)") auto
  obtain s ss where ss: "slot_srcs cq = s # ss" using es by (rule slot_srcs_ConsE)
  have hd: "ofi_cirque_head (cirq cq) = e" using sh es by (intro cq_head) (simp_all add: cq_shape_def)
  have no: "\<not> overflown e" using reg es by (simp add: cq_regular_def)
  note ct = regular_content [OF reg]
  show ?thesis
  proof (cases "flagged e")
    case True
    then have "oflow_err_list cq \<noteq> []" using reg es by (auto simp: cq_regular_def)
    then obtain o1 os where os: "oflow_err_list cq = o1 # os" by (cases "oflow_err_list cq") auto
    then have "cqe_err (oe_comp o1) \<noteq> 0" using reg by (simp add: cq_regular_def)
    then have "cq_read_round src_addr cq = Some Cq_break"
      using True os by (simp add: cq_read_round_def Let_def hd service_simps)
    moreover have "cq_content cq = Failed (oe_comp o1) # queued es ss os" using ct es ss os True by simp
    ultimately show ?thesis by blast
  next
    case False
    define cq' where "cq' = cq\<lparr>cirq_ptr := Some (ofi_cirque_discard (cirq cq))\<rparr>"
    note d = shape_discard [OF sh es ss, folded cq'_def]
    have of': "oflow_err_list cq' = oflow_err_list cq" by (simp add: cq'_def)
    have reg': "cq_regular cq'" using reg es d(2) False of' by (simp add: cq_regular_def)
    have "hands_over src_addr cq e s cq'"
      unfolding hands_over_def using False no d es ct reg' ss
        regular_content [OF reg'] of' read_src_head [OF sh ss]
      by (simp add: cq_read_round_def Let_def hd service_simps util_cq_read_entry_def ucq_inv_def)
        (simp add: cq'_def)
    then show ?thesis by blast
  qed
qed

lemma set_slot_twice [simp]: "set_slot (set_slot q i x) i y = set_slot q i y"
  by (simp add: set_slot_def)

lemma set_slot_counters [simp]:
  "ofi_cirque_rindex (set_slot q i x) = ofi_cirque_rindex q"
  "ofi_cirque_isfull (set_slot q i x) = ofi_cirque_isfull q"
  by (simp_all add: set_slot_def ofi_cirque_rindex_def ofi_cirque_isfull_def ofi_cirque_freecnt_def
      ofi_cirque_usedcnt_def)

lemma comp_of_overwrite:
  "e\<lparr>op_context := op_context c, cqe_flags := cqe_flags c, cqe_len := cqe_len c, cqe_buf := cqe_buf c,
     cqe_data := cqe_data c, cqe_tag := cqe_tag c\<rparr> = comp_of c"
  by (simp add: comp_of_def tagged_entry_def)

lemma cqe_flags_comp_of [simp]: "cqe_flags (comp_of c) = cqe_flags c"
  by (simp add: comp_of_def tagged_entry_def)

text \<open>The state after a round at a head where completions have overflowed.\<close>

definition refill_head :: "util_cq \<Rightarrow> util_cq_oflow_err_entry \<Rightarrow> util_cq_oflow_err_entry list \<Rightarrow> util_cq" where
  "refill_head cq o1 rest =
    (let q = cirq cq; i = unat (ofi_cirque_rindex q); x = comp_of (oe_comp o1)
     in cq\<lparr>oflow_err_list := rest, cq_src := map_option (\<lambda>b. b[i := oe_src o1]) (cq_src cq),
           cirq_ptr := Some (set_slot q i
             (if rest = [] then x else x\<lparr>cqe_flags := cqe_flags x OR UTIL_FLAG_OVERFLOW\<rparr>))\<rparr>)"

lemma overflow_only:
  assumes "overflown e" and "\<not> flagged e"
  shows "cqe_flags e AND (UTIL_FLAG_OVERFLOW OR UTIL_FLAG_ERROR) = UTIL_FLAG_OVERFLOW"
  using assms by (auto intro!: bit_word_eqI simp: bit_simps)

lemma read_src_oflow [simp]: "read_src src_addr (cq\<lparr>oflow_err_list := os\<rparr>) = read_src src_addr cq"
  by (cases "cq_src cq") (simp_all add: read_src_def)

lemma read_oflow_entry:
  assumes "src_addr \<or> cq_src cq = None"
  shows "util_cq_read_oflow_entry cq o1 e src_addr =
    (read_entry cq e, read_src src_addr cq,
     cq\<lparr>cq_src := map_option (\<lambda>b. b[unat (ofi_cirque_rindex (cirq cq)) := oe_src o1]) (cq_src cq),
        cirq_ptr := Some (set_slot (cirq cq) (unat (ofi_cirque_rindex (cirq cq))) (comp_of (oe_comp o1)))\<rparr>)"
proof -
  have "(if src_addr then map_option f (cq_src cq) else cq_src cq) = map_option f (cq_src cq)" for f
    using assms by auto
  then show ?thesis by (simp only: util_cq_read_oflow_entry_def Let_def comp_of_overwrite)
qed

lemma round_refill:
  assumes sh: "cq_shape cq" and es: "cq_list (cirq cq) = e # es" and e: "overflown e" "\<not> flagged e"
    and os: "oflow_err_list cq = o1 # rest" and o1: "parent_comp o1 = Some (unat (ofi_cirque_rindex (cirq cq)))"
    and src: "src_addr \<or> cq_src cq = None"
  shows "cq_read_round src_addr cq =
    Some (Cq_got (read_entry cq (unserviced e)) (read_src src_addr cq) (refill_head cq o1 rest))"
proof -
  have inv: "cq_inv (cirq cq)" using sh by (simp add: cq_shape_def)
  have hd: "ofi_cirque_head (cirq cq) = e" using inv es by (rule cq_head)
  have hd': "ofi_cirque_head (set_slot (cirq cq) (unat (ofi_cirque_rindex (cirq cq))) y) = y" for y
    using cq_head [OF cq_set_head [OF inv es]] .
  have rd: "util_cq_read_oflow_entry (cq\<lparr>oflow_err_list := rest\<rparr>) o1 (unserviced e) src_addr =
    (read_entry cq (unserviced e), read_src src_addr cq,
     cq\<lparr>oflow_err_list := rest, cq_src := map_option (\<lambda>b. b[unat (ofi_cirque_rindex (cirq cq)) := oe_src o1]) (cq_src cq),
        cirq_ptr := Some (set_slot (cirq cq) (unat (ofi_cirque_rindex (cirq cq))) (comp_of (oe_comp o1)))\<rparr>)"
    using read_oflow_entry [of src_addr "cq\<lparr>oflow_err_list := rest\<rparr>"] src by simp
  show ?thesis
    unfolding cq_read_round_def Let_def hd unserviced_def [symmetric]
    using e os o1 by (simp add: rd hd' overflow_only service_simps refill_head_def Let_def)
qed

lemma refill_shape:
  assumes sh: "cq_shape cq" and es: "cq_list (cirq cq) = e # es" and ss: "slot_srcs cq = s # ss"
  shows "cq_shape (refill_head cq o1 rest)"
    and "cq_list (cirq (refill_head cq o1 rest)) =
      (if rest = [] then comp_of (oe_comp o1)
       else (comp_of (oe_comp o1))\<lparr>cqe_flags := cqe_flags (oe_comp o1) OR UTIL_FLAG_OVERFLOW\<rparr>) # es"
    and "slot_srcs (refill_head cq o1 rest) = map_option (\<lambda>_. oe_src o1) (cq_src cq) # ss"
proof -
  define cqa where "cqa = cq\<lparr>oflow_err_list := rest\<rparr>"
  have a: "cq_shape cqa" "cq_list (cirq cqa) = e # es" "slot_srcs cqa = s # ss"
    using sh es ss by (simp_all add: cqa_def cq_shape_def)
  define cqb where "cqb = cqa\<lparr>cq_src := map_option (\<lambda>b. b[unat (ofi_cirque_rindex (cirq cqa)) := oe_src o1]) (cq_src cqa)\<rparr>"
  note b = shape_set_src [OF a(1,3), of "oe_src o1", folded cqb_def]
  have b': "cq_list (cirq cqb) = e # es" using a(2) by (simp add: cqb_def)
  have eq: "refill_head cq o1 rest = cqb\<lparr>cirq_ptr := Some (set_slot (cirq cqb) (unat (ofi_cirque_rindex (cirq cqb)))
      (if rest = [] then comp_of (oe_comp o1)
       else (comp_of (oe_comp o1))\<lparr>cqe_flags := cqe_flags (oe_comp o1) OR UTIL_FLAG_OVERFLOW\<rparr>))\<rparr>"
    by (simp add: refill_head_def cqb_def cqa_def Let_def)
  note c = shape_set_head [OF b(1) b']
  show "cq_shape (refill_head cq o1 rest)" unfolding eq by (rule c(1))
  show "cq_list (cirq (refill_head cq o1 rest)) =
      (if rest = [] then comp_of (oe_comp o1)
       else (comp_of (oe_comp o1))\<lparr>cqe_flags := cqe_flags (oe_comp o1) OR UTIL_FLAG_OVERFLOW\<rparr>) # es"
    unfolding eq by (rule c(2))
  show "slot_srcs (refill_head cq o1 rest) = map_option (\<lambda>_. oe_src o1) (cq_src cq) # ss"
    unfolding eq c(3) b(2) by (simp add: cqa_def)
qed

lemma round_overflown:
  assumes sh: "cq_shape cq" and ov: "cq_overflown cq" and src: "src_addr \<or> cq_src cq = None"
  shows "\<exists>e s cq'. hands_over src_addr cq e s cq'"
proof -
  obtain e es where es: "cq_list (cirq cq) = e # es" and e: "overflown e" "\<not> flagged e"
      "\<forall>e \<in> set es. service_free (cqe_flags e)"
    using ov by (auto simp: cq_overflown_def split: list.splits)
  obtain s ss where ss: "slot_srcs cq = s # ss" "length ss = length es" using es by (rule slot_srcs_ConsE)
  obtain o1 rest where os: "oflow_err_list cq = o1 # rest"
    using ov by (cases "oflow_err_list cq") (auto simp: cq_overflown_def)
  have o1: "parent_comp o1 = Some (unat (ofi_cirque_rindex (cirq cq)))" "service_free (cqe_flags (oe_comp o1))"
    using ov os by (simp_all add: cq_overflown_def)
  define cq' where "cq' = refill_head cq o1 rest"
  note r = refill_shape [OF sh es ss(1), of o1 rest, folded cq'_def]
  have f: "oflow_err_list cq' = rest" "read_entry cq' = read_entry cq" "cq_src cq' = None \<longleftrightarrow> cq_src cq = None"
      "ofi_cirque_isfull (cirq cq') = ofi_cirque_isfull (cirq cq)"
      "ofi_cirque_rindex (cirq cq') = ofi_cirque_rindex (cirq cq)"
      "oflow_item cq' = oflow_item cq"
    by (auto simp: cq'_def refill_head_def Let_def oflow_item_def option.map_comp comp_def)
  have ct: "cq_content cq = Done (unserviced e) s # oflow_item cq o1 # map (oflow_item cq) rest @ map2 Done es ss"
    using es ss os e by (simp add: cq_content_def)
  have inv': "ucq_inv cq' \<and> cq_content cq' = oflow_item cq o1 # map (oflow_item cq) rest @ map2 Done es ss"
  proof (cases "rest = []")
    case True
    then have "cq_regular cq'"
      using r(2) f(1) o1 e(3) by (auto simp: cq_regular_def service_free_bits filter_empty_conv)
    moreover from this have "cq_content cq' = oflow_item cq o1 # map2 Done es ss"
      using r(2,3) f(1) True o1(2) e(3) queued_unflagged [of es ss] ss(2)
      by (simp add: regular_content service_free_bits oflow_item_def)
    ultimately show ?thesis using r(1) True by (simp add: ucq_inv_def)
  next
    case False
    have "unserviced ((comp_of (oe_comp o1))\<lparr>cqe_flags := cqe_flags (oe_comp o1) OR UTIL_FLAG_OVERFLOW\<rparr>) = comp_of (oe_comp o1)"
      unfolding unserviced_def using clear_service(2) [OF o1(2)] by (simp add: comp_of_def tagged_entry_def)
    then have "cq_content cq' = oflow_item cq o1 # map (oflow_item cq) rest @ map2 Done es ss"
      using r(2,3) f False by (simp add: cq_content_def bit_or_iff oflow_item_def [of _ o1])
    moreover have "cq_overflown cq'"
      using ov False r(2) f e(3) o1(2) os by (simp add: cq_overflown_def service_free_bits bit_or_iff)
    ultimately show ?thesis using r(1) by (simp add: ucq_inv_def)
  qed
  have "length (cq_list (cirq cq)) \<le> Suc (length (cq_list (cirq cq')))" unfolding r(2) es by simp
  then have "hands_over src_addr cq (unserviced e) s cq'"
    unfolding hands_over_def
    using round_refill [OF sh es e(1,2) os o1(1) src, folded cq'_def] read_src_head [OF sh ss(1)] ct inv' f
    by simp
  then show ?thesis by blast
qed

lemma read_round:
  assumes "ucq_inv cq" and "cq_list (cirq cq) \<noteq> []" and "src_addr \<or> cq_src cq = None"
  shows "(\<exists>err is. cq_content cq = Failed err # is \<and> cq_read_round src_addr cq = Some Cq_break) \<or>
    (\<exists>e s cq'. hands_over src_addr cq e s cq')"
  using assms round_regular round_overflown unfolding ucq_inv_def by blast

subsection \<open>Reads\<close>

primrec is_done :: "cq_item \<Rightarrow> bool" where
  "is_done (Done e s) = True"
| "is_done (Failed e) = False"

primrec done_src :: "cq_item \<Rightarrow> u64 list" where
  "done_src (Done e s) = (case s of None \<Rightarrow> [] | Some x \<Rightarrow> [x])"
| "done_src (Failed e) = []"

primrec done_entry :: "cq_item \<Rightarrow> fi_cq_tagged_entry" where
  "done_entry (Done e s) = e"
| "done_entry (Failed e) = comp_of e"

text \<open>The loop hands over the completions at the front, up to the first error.\<close>

lemma read_loop:
  assumes "ucq_inv cq" and "n \<le> length (cq_list (cirq cq))" and "src_addr \<or> cq_src cq = None"
  shows "\<exists>ds cq'. cq_read_loop src_addr n i cq =
      Some (if ds = [] \<and> i = 0 \<and> 0 < n then Inl FI_EAVAIL else Inr (i + length ds),
        map (read_entry cq \<circ> done_entry) ds, if src_addr then concat (map done_src ds) else [], cq') \<and>
    ds = takeWhile is_done (take n (cq_content cq)) \<and> cq_content cq = ds @ cq_content cq' \<and>
    ucq_inv cq' \<and> read_entry cq' = read_entry cq \<and> (cq_src cq' = None \<longleftrightarrow> cq_src cq = None)"
  using assms
proof (induction n arbitrary: i cq)
  case 0
  then show ?case by simp
next
  case (Suc n)
  then have ne: "cq_list (cirq cq) \<noteq> []" by auto
  from read_round [OF Suc.prems(1) ne Suc.prems(3)] show ?case
  proof
    assume "\<exists>err is. cq_content cq = Failed err # is \<and> cq_read_round src_addr cq = Some Cq_break"
    then show ?thesis using Suc.prems(1) by auto
  next
    assume "\<exists>e s cq'. hands_over src_addr cq e s cq'"
    then obtain e s cq1 where h: "hands_over src_addr cq e s cq1" by blast
    then have c: "cq_content cq = Done e s # cq_content cq1" and re: "read_entry cq1 = read_entry cq"
      and rd: "cq_read_round src_addr cq = Some (Cq_got (read_entry cq e) (if src_addr then done_src (Done e s) else []) cq1)"
      and p: "ucq_inv cq1" "n \<le> length (cq_list (cirq cq1))" "src_addr \<or> cq_src cq1 = None"
      and sn: "cq_src cq1 = None \<longleftrightarrow> cq_src cq = None"
      using Suc.prems by (auto simp: hands_over_def)
    obtain ds cq' where ih: "cq_read_loop src_addr n (Suc i) cq1 =
        Some (if ds = [] \<and> Suc i = 0 \<and> 0 < n then Inl FI_EAVAIL else Inr (Suc i + length ds),
          map (read_entry cq \<circ> done_entry) ds, if src_addr then concat (map done_src ds) else [], cq')"
      "ds = takeWhile is_done (take n (cq_content cq1))" "cq_content cq1 = ds @ cq_content cq'"
      "ucq_inv cq'" "read_entry cq' = read_entry cq" "cq_src cq' = None \<longleftrightarrow> cq_src cq = None"
      using Suc.IH [OF p, of "Suc i"] unfolding re sn by (elim exE conjE) (rule that; assumption)
    have "takeWhile is_done (take (Suc n) (cq_content cq)) = Done e s # ds" using c ih(2) by simp
    moreover have "cq_content cq = (Done e s # ds) @ cq_content cq'" using c ih(3) by simp
    moreover have "cq_read_loop src_addr (Suc n) i cq = Some (Inr (i + length (Done e s # ds)),
        map (read_entry cq \<circ> done_entry) (Done e s # ds),
        if src_addr then concat (map done_src (Done e s # ds)) else [], cq')"
      using rd ih(1) by simp
    ultimately show ?thesis using ih(4-6) by (intro exI [of _ "Done e s # ds"] exI [of _ cq']) simp
  qed
qed

end
