(* ===== verification/Ofi_Cq_Laws.thy ===== *)
theory Ofi_Cq_Laws
  imports Ofi_Cq
begin

unbundle bit_operations_syntax

section \<open>The completion queue as an event source\<close>

text \<open>
  What the operations of the completion queue do to its content, and the two contracts it meets: an
  ordered source as long as nothing is written into a full queue, and a source that loses nothing
  when completions overflow while no error is pending.  The examples at the end show what happens
  outside of these conditions.
\<close>

subsection \<open>Writes\<close>

lemma queued_append:
  assumes "length es = length ss" and "length (filter flagged es) = length os"
  shows "queued (es @ es') (ss @ ss') (os @ os') = queued es ss os @ queued es' ss' os'"
  using assms by (induction es ss os rule: queued.induct) (auto split: list.splits)

lemma not_full_regular: "ucq_inv cq \<Longrightarrow> \<not> ofi_cirque_isfull (cirq cq) \<Longrightarrow> cq_regular cq"
  by (auto simp: ucq_inv_def cq_overflown_def)

text \<open>Committing an entry to a queue with room.\<close>

definition commit_slot :: "util_cq \<Rightarrow> fi_cq_tagged_entry \<Rightarrow> util_cq_oflow_err_entry list \<Rightarrow> u64 list option \<Rightarrow> util_cq" where
  "commit_slot cq x os src' =
    cq\<lparr>cirq_ptr := Some (ofi_cirque_insert (cirq cq) x), oflow_err_list := oflow_err_list cq @ os, cq_src := src'\<rparr>"

lemma commit_slot_shape:
  fixes x :: fi_cq_tagged_entry and os :: "util_cq_oflow_err_entry list"
  assumes sh: "cq_shape cq" and nf: "\<not> ofi_cirque_isfull (cirq cq)"
    and src: "src' = map_option (\<lambda>b. b[unat (ofi_cirque_windex (cirq cq)) := y b]) (cq_src cq)"
  defines "cq' \<equiv> commit_slot cq x os src'"
  shows "cq_shape cq'" and "cq_list (cirq cq') = cq_list (cirq cq) @ [x]"
    and "slot_srcs cq' = slot_srcs cq @ [map_option y (cq_src cq)]"
proof -
  have inv: "cq_inv (cirq cq)" using sh by (simp add: cq_shape_def)
  note ins = cq_insert_refines [OF inv nf, of x]
  show "cq_shape cq'" using sh ins src
    by (auto simp: cq_shape_def cq'_def commit_slot_def) (simp_all add: ofi_cirque_insert_def)
  show l: "cq_list (cirq cq') = cq_list (cirq cq) @ [x]" using ins by (simp add: cq'_def commit_slot_def)
  show "slot_srcs cq' = slot_srcs cq @ [map_option y (cq_src cq)]"
  proof (cases "cq_src cq")
    case None
    then show ?thesis using l src by (simp add: slot_srcs_def cq'_def commit_slot_def replicate_append_same)
  next
    case (Some b)
    have "cq_inv (src_cirque (cirq cq) b)" using inv sh Some by (intro src_cirque_inv) (simp_all add: cq_shape_def)
    then have "cq_list (ofi_cirque_insert (src_cirque (cirq cq) b) (y b)) = cq_list (src_cirque (cirq cq) b) @ [y b]"
      using cq_insert_refines nf by (metis src_cirque_simps(6))
    then show ?thesis using Some src by (simp add: slot_srcs_def cq'_def commit_slot_def src_cirque_simps(4))
  qed
qed

lemma commit_done:
  assumes inv: "ucq_inv cq" and nf: "\<not> ofi_cirque_isfull (cirq cq)" and x: "service_free (cqe_flags x)"
    and src: "src' = map_option (\<lambda>b. b[unat (ofi_cirque_windex (cirq cq)) := y b]) (cq_src cq)"
  shows "ucq_inv (commit_slot cq x [] src')"
    and "cq_content (commit_slot cq x [] src') = cq_content cq @ [Done x (map_option y (cq_src cq))]"
proof -
  have sh: "cq_shape cq" using inv by (simp add: ucq_inv_def)
  have reg: "cq_regular cq" using inv nf by (rule not_full_regular)
  define cq' where "cq' = commit_slot cq x [] src'"
  note c = commit_slot_shape [OF sh nf src, of x "[]", folded cq'_def]
  have os: "oflow_err_list cq' = oflow_err_list cq" by (simp add: cq'_def commit_slot_def)
  have reg': "cq_regular cq'" using reg c(2) os x by (auto simp: cq_regular_def service_free_bits)
  then show "ucq_inv (commit_slot cq x [] src')" using c(1) by (simp add: ucq_inv_def cq'_def)
  have "cq_content cq' = queued (cq_list (cirq cq) @ [x]) (slot_srcs cq @ [map_option y (cq_src cq)]) (oflow_err_list cq @ [])"
    using regular_content [OF reg'] c(2,3) os by simp
  also have "\<dots> = cq_content cq @ [Done x (map_option y (cq_src cq))]"
    using reg x by (subst queued_append) (simp_all add: cq_regular_def regular_content service_free_bits)
  finally show "cq_content (commit_slot cq x [] src') = cq_content cq @ [Done x (map_option y (cq_src cq))]"
    by (simp add: cq'_def)
qed

lemma commit_failed:
  assumes inv: "ucq_inv cq" and nf: "\<not> ofi_cirque_isfull (cirq cq)" and x: "cqe_flags x = UTIL_FLAG_ERROR"
    and e: "cqe_err (oe_comp o1) \<noteq> 0"
  shows "ucq_inv (commit_slot cq x [o1] (cq_src cq))"
    and "cq_content (commit_slot cq x [o1] (cq_src cq)) = cq_content cq @ [Failed (oe_comp o1)]"
proof -
  have sh: "cq_shape cq" using inv by (simp add: ucq_inv_def)
  have reg: "cq_regular cq" using inv nf by (rule not_full_regular)
  define i where "i = unat (ofi_cirque_windex (cirq cq))"
  have src: "cq_src cq = map_option (\<lambda>b. b[i := b ! i]) (cq_src cq)" by (cases "cq_src cq") simp_all
  define cq' where "cq' = commit_slot cq x [o1] (cq_src cq)"
  note c = commit_slot_shape [OF sh nf src [unfolded i_def], of x "[o1]", folded cq'_def]
  have os: "oflow_err_list cq' = oflow_err_list cq @ [o1]" by (simp add: cq'_def commit_slot_def)
  have reg': "cq_regular cq'" using reg c(2) os x e by (auto simp: cq_regular_def)
  then show "ucq_inv (commit_slot cq x [o1] (cq_src cq))" using c(1) by (simp add: ucq_inv_def cq'_def)
  have "cq_content cq' = queued (cq_list (cirq cq) @ [x])
      (slot_srcs cq @ [map_option (\<lambda>b. b ! unat (ofi_cirque_windex (cirq cq))) (cq_src cq)]) (oflow_err_list cq @ [o1])"
    using regular_content [OF reg'] c(2,3) os by simp
  also have "\<dots> = cq_content cq @ [Failed (oe_comp o1)]"
    using reg x by (subst queued_append) (simp_all add: cq_regular_def regular_content)
  finally show "cq_content (commit_slot cq x [o1] (cq_src cq)) = cq_content cq @ [Failed (oe_comp o1)]"
    by (simp add: cq'_def)
qed

text \<open>The write operations on a queue with room.\<close>

lemma write_room:
  assumes "ucq_inv cq" and "\<not> ofi_cirque_isfull (cirq cq)" and "service_free flags" and "cq_src cq = None"
  shows "\<exists>cq'. ofi_cq_write ok cq context flags len buf data tag = (Inr (), cq') \<and> ucq_inv cq' \<and>
    cq_content cq' = cq_content cq @ [Done (tagged_entry context flags len buf data tag) None] \<and>
    read_entry cq' = read_entry cq \<and> cq_src cq' = None"
proof -
  have "ofi_cq_write_comp_entry cq context flags len buf data tag =
      commit_slot cq (tagged_entry context flags len buf data tag) [] None"
    using assms(4) by (cases cq) (simp add: ofi_cq_write_comp_entry_def Let_def commit_set_slot commit_slot_def)
  moreover note commit_done [OF assms(1,2), of "tagged_entry context flags len buf data tag" None "\<lambda>_. 0"]
  ultimately show ?thesis using assms
    by (simp add: ofi_cq_write_def tagged_entry_def) (simp add: commit_slot_def)
qed

lemma write_src_room:
  assumes "ucq_inv cq" and "\<not> ofi_cirque_isfull (cirq cq)" and "service_free flags" and "cq_src cq = Some b"
  shows "\<exists>cq'. ofi_cq_write_src ok cq context flags len buf data tag src = Some (Inr (), cq') \<and> ucq_inv cq' \<and>
    cq_content cq' = cq_content cq @ [Done (tagged_entry context flags len buf data tag) (Some src)] \<and>
    read_entry cq' = read_entry cq \<and> cq_src cq' \<noteq> None"
proof -
  let ?src = "Some (b[unat (ofi_cirque_windex (cirq cq)) := src])"
  have "ofi_cq_write_comp_entry (cq\<lparr>cq_src := ?src\<rparr>) context flags len buf data tag =
      commit_slot cq (tagged_entry context flags len buf data tag) [] ?src"
    by (cases cq) (simp add: ofi_cq_write_comp_entry_def Let_def commit_set_slot commit_slot_def)
  moreover note commit_done [OF assms(1,2), of "tagged_entry context flags len buf data tag" ?src "\<lambda>_. src"]
  ultimately show ?thesis using assms
    by (simp add: ofi_cq_write_src_def tagged_entry_def) (simp add: commit_slot_def)
qed

lemma signal_content [simp]:
  "ucq_inv (cq\<lparr>wait_signals := n\<rparr>) \<longleftrightarrow> ucq_inv cq" "cq_content (cq\<lparr>wait_signals := n\<rparr>) = cq_content cq"
proof -
  have *: "slot_srcs (cq\<lparr>wait_signals := n\<rparr>) = slot_srcs cq" "oflow_item (cq\<lparr>wait_signals := n\<rparr>) = oflow_item cq"
    by (cases "cq_src cq"; simp add: slot_srcs_def oflow_item_def fun_eq_iff)+
  show "ucq_inv (cq\<lparr>wait_signals := n\<rparr>) \<longleftrightarrow> ucq_inv cq"
    by (simp add: ucq_inv_def cq_shape_def cq_regular_def cq_overflown_def)
  show "cq_content (cq\<lparr>wait_signals := n\<rparr>) = cq_content cq"
    by (simp add: cq_content_def * split: list.split)
qed

lemma write_error_room:
  assumes "ucq_inv cq" and "\<not> ofi_cirque_isfull (cirq cq)" and "cqe_err e \<noteq> 0"
  shows "\<exists>cq'. ofi_cq_write_error True cq e = Some (Inr (), cq') \<and> ucq_inv cq' \<and>
    cq_content cq' = cq_content cq @ [Failed e] \<and> read_entry cq' = read_entry cq \<and>
    (cq_src cq' = None \<longleftrightarrow> cq_src cq = None)"
proof -
  define x o1 where "x = (ofi_cirque_tail (cirq cq))\<lparr>cqe_flags := UTIL_FLAG_ERROR\<rparr>"
    and "o1 = \<lparr>parent_comp = None, oe_comp = e, oe_src = 0\<rparr>"
  define cq1 where "cq1 = commit_slot cq x [o1] (cq_src cq)"
  have "ofi_cq_write_error True cq e =
      Some (Inr (), case cq_wait cq1 of None \<Rightarrow> cq1 | Some _ \<Rightarrow> cq1\<lparr>wait_signals := Suc (wait_signals cq1)\<rparr>)"
    using assms(2,3) by (cases cq)
      (simp add: ofi_cq_write_error_def Let_def commit_set_slot commit_slot_def cq1_def x_def o1_def
        split: option.split)
  moreover note commit_failed [OF assms(1,2), of x o1, folded cq1_def]
  moreover have "read_entry cq1 = read_entry cq" "cq_src cq1 = cq_src cq" by (simp_all add: cq1_def commit_slot_def)
  ultimately show ?thesis using assms(3) by (cases "cq_wait cq1") (simp_all add: x_def o1_def)
qed

subsection \<open>Overflow\<close>

lemma unserviced_overflow [simp]:
  "unserviced (e\<lparr>cqe_flags := cqe_flags e OR UTIL_FLAG_OVERFLOW\<rparr>) = unserviced e"
  unfolding unserviced_def by (cases e) (auto intro!: bit_word_eqI simp: bit_simps)

lemma unserviced_free: "service_free (cqe_flags e) \<Longrightarrow> unserviced e = e"
  using clear_service(1) [of "cqe_flags e"] by (simp add: unserviced_def)

lemma full_nonempty:
  assumes "cq_inv q" and "ofi_cirque_isfull q"
  shows "cq_list q \<noteq> []"
proof -
  have "length (cq_list q) = unat (cq_size q)" using assms by (simp add: cq_full_iff)
  moreover have "0 < unat (cq_size q)" using assms(1) by (auto elim!: cq_invE simp: unat_pow2)
  ultimately show ?thesis by auto
qed

text \<open>A full queue with no error pending: the list holds what overflowed at the head.\<close>

lemma full_state:
  assumes inv: "ucq_inv cq" and full: "ofi_cirque_isfull (cirq cq)"
    and ne: "\<forall>o1 \<in> set (oflow_err_list cq). cqe_err (oe_comp o1) = 0"
  obtains e es s ss where "cq_list (cirq cq) = e # es" "slot_srcs cq = s # ss" "\<not> flagged e"
    "\<forall>e\<in>set es. service_free (cqe_flags e)"
    "\<forall>o1\<in>set (oflow_err_list cq). service_free (cqe_flags (oe_comp o1)) \<and>
       parent_comp o1 = Some (unat (ofi_cirque_rindex (cirq cq)))"
    "cq_content cq = Done (unserviced e) s # map (oflow_item cq) (oflow_err_list cq) @ map2 Done es ss"
proof -
  have "cq_list (cirq cq) \<noteq> []" using inv full by (intro full_nonempty) (simp_all add: ucq_inv_def cq_shape_def)
  then obtain e es where es: "cq_list (cirq cq) = e # es" by (cases "cq_list (cirq cq)") auto
  then obtain s ss where ss: "slot_srcs cq = s # ss" "length ss = length es" by (rule slot_srcs_ConsE)
  show thesis
  proof (cases "cq_overflown cq")
    case True
    show thesis by (rule that [OF es ss(1)]) (use True es ss in \<open>simp_all add: cq_overflown_def cq_content_def\<close>)
  next
    case False
    then have reg: "cq_regular cq" using inv by (simp add: ucq_inv_def)
    then have os: "oflow_err_list cq = []" using ne by (cases "oflow_err_list cq") (auto simp: cq_regular_def)
    then have free: "service_free (cqe_flags e)" "\<forall>e\<in>set es. service_free (cqe_flags e)"
      using reg es by (auto simp: cq_regular_def service_free_bits filter_empty_conv split: if_splits)
    show thesis
      by (rule that [OF es ss(1)])
        (use free os es ss reg queued_unflagged [of es ss] in
          \<open>simp_all add: regular_content unserviced_free service_free_bits\<close>)
  qed
qed

text \<open>A completion written into a full queue, with no error pending, goes behind the head of the queue
  and the completions that have overflowed before it.\<close>

lemma overflow_content:
  assumes inv: "ucq_inv cq" and full: "ofi_cirque_isfull (cirq cq)"
    and ne: "\<forall>o1 \<in> set (oflow_err_list cq). cqe_err (oe_comp o1) = 0" and fl: "service_free flags"
  defines "m \<equiv> Suc (length (oflow_err_list cq))"
  shows "\<exists>cq'. ofi_cq_write_overflow True cq context flags len buf data tag src = (Inr (), cq') \<and> ucq_inv cq' \<and>
    cq_content cq' = take m (cq_content cq) @
      Done (tagged_entry context flags len buf data tag) (map_option (\<lambda>_. src) (cq_src cq)) # drop m (cq_content cq) \<and>
    read_entry cq' = read_entry cq \<and> cq_src cq' = cq_src cq"
proof -
  obtain e es s ss where es: "cq_list (cirq cq) = e # es" and ss: "slot_srcs cq = s # ss" and
    st: "\<not> flagged e" "\<forall>e\<in>set es. service_free (cqe_flags e)"
    "\<forall>o1\<in>set (oflow_err_list cq). service_free (cqe_flags (oe_comp o1)) \<and>
       parent_comp o1 = Some (unat (ofi_cirque_rindex (cirq cq)))" and
    ct: "cq_content cq = Done (unserviced e) s # map (oflow_item cq) (oflow_err_list cq) @ map2 Done es ss"
    using full_state [OF inv full ne] .
  have ci: "cq_inv (cirq cq)" using inv by (simp add: ucq_inv_def cq_shape_def)
  have w: "ofi_cirque_windex (cirq cq) = ofi_cirque_rindex (cirq cq)" using ci full by (rule full_tail_is_head)
  then have t: "ofi_cirque_tail (cirq cq) = e"
    using cq_head [OF ci es] by (simp add: ofi_cirque_tail_def ofi_cirque_head_def)
  define o1 where "o1 = \<lparr>parent_comp = Some (unat (ofi_cirque_rindex (cirq cq))),
    oe_comp = make_err_entry (tagged_entry context flags len buf data tag) 0 0 0, oe_src = src\<rparr>"
  define e' where "e' = e\<lparr>cqe_flags := cqe_flags e OR UTIL_FLAG_OVERFLOW\<rparr>"
  define cqa where "cqa = cq\<lparr>oflow_err_list := oflow_err_list cq @ [o1]\<rparr>"
  define cq' where "cq' = cqa\<lparr>cirq_ptr := Some (set_slot (cirq cqa) (unat (ofi_cirque_rindex (cirq cqa))) e')\<rparr>"
  have a: "cq_shape cqa" "cq_list (cirq cqa) = e # es"
    using inv es by (simp_all add: cqa_def cq_shape_def ucq_inv_def)
  note h = shape_set_head [OF a, of e', folded cq'_def]
  have wr: "ofi_cq_write_overflow True cq context flags len buf data tag src = (Inr (), cq')"
    by (simp add: ofi_cq_write_overflow_def Let_def w t cq'_def cqa_def e'_def o1_def)
  have fields: "oflow_err_list cq' = oflow_err_list cq @ [o1]" "cq_src cq' = cq_src cq" "slot_srcs cq' = s # ss"
      "read_entry cq' = read_entry cq" "ofi_cirque_isfull (cirq cq')"
      "ofi_cirque_rindex (cirq cq') = ofi_cirque_rindex (cirq cq)" "oflow_item cq' = oflow_item cq"
    using ss h(3) full by (simp_all add: cq'_def cqa_def oflow_item_def fun_eq_iff)
  have item: "oflow_item cq o1 = Done (tagged_entry context flags len buf data tag) (map_option (\<lambda>_. src) (cq_src cq))"
    by (simp add: oflow_item_def o1_def comp_of_def make_err_entry_def tagged_entry_def fi_cq_tagged_entry.extend_def)
  have "cq_overflown cq'" using st ne fl h(2) fields
    by (auto simp: cq_overflown_def e'_def bit_or_iff o1_def make_err_entry_def tagged_entry_def fi_cq_tagged_entry.extend_def)
  then have inv': "ucq_inv cq'" using h(1) by (simp add: ucq_inv_def)
  have "cq_content cq' = Done (unserviced e') s # map (oflow_item cq) (oflow_err_list cq @ [o1]) @ map2 Done es ss"
    using h(2) fields by (simp add: cq_content_def e'_def bit_or_iff)
  then have "cq_content cq' = take m (cq_content cq) @ oflow_item cq o1 # drop m (cq_content cq)"
    using ct by (simp add: m_def e'_def)
  then show ?thesis using wr inv' fields item by auto
qed

subsection \<open>Reading completions and errors\<close>

lemma nat_sint:
  assumes "unat (w :: u64) < 2 ^ 63"
  shows "nat (sint w) = unat w"
proof -
  have "int (unat w) < int (2 ^ 63)" using assms by (simp only: of_nat_less_iff)
  then have "uint w < 2 ^ 63" by simp
  then have "signed_take_bit 63 (uint w) = uint w"
    by (intro signed_take_bit_int_eq_self) (auto intro: order_trans [OF _ unsigned_greater_eq])
  moreover have "sint w = signed_take_bit 63 (uint w)" by (simp only: sint_uint) simp
  ultimately show ?thesis by (simp only: unat_eq_nat_uint)
qed

text \<open>A read that finds something hands over what is at the front.\<close>

lemma readfrom_ready:
  assumes inv: "ucq_inv cq" and ne: "cq_list (cirq cq) \<noteq> []" and "cnt \<noteq> 0" and src: "src_addr \<or> cq_src cq = None"
  defines "n \<equiv> min (unat cnt) (length (cq_list (cirq cq)))"
  defines "ds \<equiv> takeWhile is_done (take n (cq_content cq))"
  shows "\<exists>cq'. ofi_cq_readfrom progress cq cnt src_addr =
      Some (if ds = [] then Inl FI_EAVAIL else Inr (length ds), map (read_entry cq \<circ> done_entry) ds,
        if src_addr then concat (map done_src ds) else [], cq') \<and>
    cq_content cq = ds @ cq_content cq' \<and> ucq_inv cq' \<and> read_entry cq' = read_entry cq \<and>
    (cq_src cq' = None \<longleftrightarrow> cq_src cq = None)"
proof -
  have sh: "cq_shape cq" using inv by (simp add: ucq_inv_def)
  have used: "unat (ofi_cirque_usedcnt (cirq cq)) = length (cq_list (cirq cq))" by (simp add: cq_list_def)
  have "length (cq_list (cirq cq)) < 2 ^ 63"
    using cq_length_le [of "cirq cq"] sh by (simp add: cq_shape_def)
  then have n: "nat (sint (min cnt (ofi_cirque_usedcnt (cirq cq)))) = n"
    unfolding n_def used [symmetric] by (subst nat_sint) (auto simp: min_def word_le_nat_alt)
  have n0: "0 < n" using ne assms(3) by (simp add: n_def unat_gt_0)
  have emp: "\<not> ofi_cirque_isempty (cirq cq)" using ne by (simp add: cq_empty_iff)
  have "ofi_cq_readfrom progress cq cnt src_addr = cq_read_loop src_addr n 0 cq"
    using emp assms(3) n by (simp add: ofi_cq_readfrom_def)
  moreover have "n \<le> length (cq_list (cirq cq))" by (simp add: n_def)
  note read_loop [OF inv this src, of 0]
  ultimately show ?thesis using n0 by (auto simp: ds_def)
qed

lemma content_Nil_iff:
  assumes "ucq_inv cq"
  shows "cq_content cq = [] \<longleftrightarrow> cq_list (cirq cq) = []"
proof (cases "cq_list (cirq cq)")
  case (Cons e es)
  then obtain s ss where "slot_srcs cq = s # ss" by (rule slot_srcs_ConsE)
  then show ?thesis using Cons assms
    by (auto simp: cq_content_def ucq_inv_def cq_regular_def cq_overflown_def split: list.splits)
qed (simp add: cq_content_def)

text \<open>An error entry says no more of its block than is there.\<close>

definition cq_err_data_ok :: "fi_cq_err_entry \<Rightarrow> bool" where
  "cq_err_data_ok e \<longleftrightarrow> unat (cqe_err_data_size e) \<le> length (cqe_err_data e)"

lemma copy_err_total:
  assumes "cq_err_data_ok e" and "cq_err_data_ok buf"
  obtains e' where "copy_err_entry v e buf = Some e'"
proof -
  have "unat (min (cqe_err_data_size buf) (cqe_err_data_size e)) \<le> length (cqe_err_data e)"
    "unat (min (cqe_err_data_size buf) (cqe_err_data_size e)) \<le> length (cqe_err_data buf)"
    using assms by (auto simp: cq_err_data_ok_def min_def word_le_nat_alt)
  then have "copy_err_entry v e buf \<noteq> None" by (auto simp: copy_err_entry_def Let_def)
  then show thesis using that by auto
qed

lemma readerr_failed:
  assumes inv: "ucq_inv cq" and ct: "cq_content cq = Failed e # is"
    and cp: "copy_err_entry (cqd_api_version domain) e buf = Some e'"
  shows "\<exists>cq'. ofi_cq_readerr domain cq buf = Some (Inr (), e', cq') \<and>
    ucq_inv cq' \<and> cq_content cq' = is \<and> read_entry cq' = read_entry cq \<and> (cq_src cq' = None \<longleftrightarrow> cq_src cq = None)"
proof -
  have sh: "cq_shape cq" using inv by (simp add: ucq_inv_def)
  have "cq_list (cirq cq) \<noteq> []" using content_Nil_iff [OF inv] ct by auto
  then obtain x es where es: "cq_list (cirq cq) = x # es" by (cases "cq_list (cirq cq)") auto
  then obtain s ss where ss: "slot_srcs cq = s # ss" by (rule slot_srcs_ConsE)
  have hd: "ofi_cirque_head (cirq cq) = x" using sh es by (intro cq_head) (simp_all add: cq_shape_def)
  have reg: "cq_regular cq" using inv es ss ct by (auto simp: ucq_inv_def cq_overflown_def cq_content_def)
  then have ct': "queued (x # es) (s # ss) (oflow_err_list cq) = Failed e # is" and nov: "\<not> overflown x"
    using ct es ss regular_content by (auto simp: cq_regular_def)
  then obtain o1 os where x: "flagged x" and os: "oflow_err_list cq = o1 # os" "e = oe_comp o1" "is = queued es ss os"
    by (auto split: if_splits list.splits)
  define cqa where "cqa = cq\<lparr>oflow_err_list := os\<rparr>"
  define cq' where "cq' = cqa\<lparr>cirq_ptr := Some (ofi_cirque_discard (cirq cqa))\<rparr>"
  have a: "cq_shape cqa" "cq_list (cirq cqa) = x # es" "slot_srcs cqa = s # ss"
    using sh es ss by (simp_all add: cqa_def cq_shape_def)
  note d = shape_discard [OF a, folded cq'_def]
  have emp: "\<not> ofi_cirque_isempty (cirq cq)" using es by (simp add: cq_empty_iff)
  have "ofi_cq_readerr domain cq buf = Some (Inr (), e', cq')"
    using emp hd x nov os cp by (simp add: ofi_cq_readerr_def Let_def service_simps cq'_def cqa_def)
  moreover have reg': "cq_regular cq'" using reg es x os d(2) by (simp add: cq_regular_def) (simp add: cq'_def cqa_def)
  moreover have "cq_content cq' = is"
    using regular_content [OF reg'] d os by (simp add: cq'_def cqa_def)
  ultimately show ?thesis using d(1) by (auto simp: ucq_inv_def) (simp_all add: cq'_def cqa_def)
qed

subsection \<open>The contracts\<close>

text \<open>What the application sees of an item; \<open>buf\<close> is the error entry it passes to \<open>fi_cq_readerr\<close>.\<close>

datatype (plugins only: code size) cq_seen = Seen cq_read_data "u64 option" | Seen_err fi_cq_err_entry

primrec cq_view :: "cq_domain \<Rightarrow> fi_cq_err_entry \<Rightarrow> util_cq \<Rightarrow> cq_item \<Rightarrow> cq_seen" where
  "cq_view domain buf cq (Done e s) = Seen (read_entry cq e) s"
| "cq_view domain buf cq (Failed e) = Seen_err (the (copy_err_entry (cqd_api_version domain) e buf))"

definition cq_seen_list :: "cq_domain \<Rightarrow> fi_cq_err_entry \<Rightarrow> util_cq \<Rightarrow> cq_seen list" where
  "cq_seen_list domain buf cq = map (cq_view domain buf cq) (cq_content cq)"

text \<open>A provider writes a completion or an error; a completion with a source address if and only if the
  queue records source addresses.\<close>

primrec cq_post :: "util_cq \<Rightarrow> cq_item \<Rightarrow> util_cq" where
  "cq_post cq (Done e s) =
    (case s of
       None \<Rightarrow> snd (ofi_cq_write True cq (op_context e) (cqe_flags e) (cqe_len e) (cqe_buf e) (cqe_data e) (cqe_tag e))
     | Some src \<Rightarrow>
         snd (the (ofi_cq_write_src True cq (op_context e) (cqe_flags e) (cqe_len e) (cqe_buf e) (cqe_data e)
           (cqe_tag e) src)))"
| "cq_post cq (Failed e) = snd (the (ofi_cq_write_error True cq e))"

primrec cq_fits :: "util_cq \<Rightarrow> cq_item \<Rightarrow> bool" where
  "cq_fits cq (Done e s) \<longleftrightarrow> service_free (cqe_flags e) \<and> (s = None \<longleftrightarrow> cq_src cq = None)"
| "cq_fits cq (Failed e) \<longleftrightarrow> cqe_err e \<noteq> 0 \<and> cq_err_data_ok e"

text \<open>A good queue holds only errors that say no more of their blocks than is there, and so does the entry
  \<open>buf\<close> of the application.\<close>

primrec item_ok :: "cq_item \<Rightarrow> bool" where
  "item_ok (Done e s) \<longleftrightarrow> True"
| "item_ok (Failed e) \<longleftrightarrow> cq_err_data_ok e"

definition cq_good :: "fi_cq_err_entry \<Rightarrow> util_cq \<Rightarrow> bool" where
  "cq_good buf cq \<longleftrightarrow> ucq_inv cq \<and> cq_err_data_ok buf \<and> list_all item_ok (cq_content cq)"

lemma fits_item_ok: "cq_fits cq i \<Longrightarrow> item_ok i"
  by (cases i) simp_all

definition cq_room :: "util_cq \<Rightarrow> cq_item \<Rightarrow> bool" where
  "cq_room cq i \<longleftrightarrow> cq_fits cq i \<and> \<not> ofi_cirque_isfull (cirq cq)"

text \<open>Completions may overflow as long as no error is pending.\<close>

definition cq_accepts :: "util_cq \<Rightarrow> cq_item \<Rightarrow> bool" where
  "cq_accepts cq i \<longleftrightarrow> cq_fits cq i \<and>
    (ofi_cirque_isfull (cirq cq) \<longrightarrow> is_done i \<and> (\<forall>o1 \<in> set (oflow_err_list cq). cqe_err (oe_comp o1) = 0))"

text \<open>The application reads with source addresses, and reads the error when it is told of one.\<close>

definition cq_poll :: "cq_domain \<Rightarrow> fi_cq_err_entry \<Rightarrow> util_cq \<Rightarrow> size_t \<Rightarrow> (cq_seen list \<times> util_cq) option" where
  "cq_poll domain buf cq n =
    (case ofi_cq_readfrom (\<lambda>cq. cq) cq n True of
       None \<Rightarrow> None
     | Some (Inr _, outs, srcs, cq1) \<Rightarrow>
         Some (if cq_src cq = None then map (\<lambda>d. Seen d None) outs else map2 (\<lambda>d s. Seen d (Some s)) outs srcs, cq1)
     | Some (Inl e, _, _, cq1) \<Rightarrow>
         if e = FI_EAVAIL
         then (case ofi_cq_readerr domain cq1 buf of
                 Some (Inr _, b, cq2) \<Rightarrow> Some ([Seen_err b], cq2)
               | Some (Inl _, _, cq2) \<Rightarrow> Some ([], cq2)
               | None \<Rightarrow> None)
         else Some ([], cq1))"

lemma cq_view_cong: "read_entry cq' = read_entry cq \<Longrightarrow> cq_view domain buf cq' = cq_view domain buf cq"
proof
  fix i assume "read_entry cq' = read_entry cq"
  then show "cq_view domain buf cq' i = cq_view domain buf cq i" by (cases i) simp_all
qed

lemma post_room:
  assumes "ucq_inv cq" and "cq_room cq i"
  shows "ucq_inv (cq_post cq i) \<and> cq_content (cq_post cq i) = cq_content cq @ [i] \<and>
    read_entry (cq_post cq i) = read_entry cq"
proof (cases i)
  case (Done e s)
  have e: "tagged_entry (op_context e) (cqe_flags e) (cqe_len e) (cqe_buf e) (cqe_data e) (cqe_tag e) = e"
    by (simp add: tagged_entry_def)
  show ?thesis
  proof (cases s)
    case None
    then show ?thesis
      using write_room [OF assms(1), of "cqe_flags e" True "op_context e" "cqe_len e" "cqe_buf e" "cqe_data e" "cqe_tag e"]
        assms(2) Done e by (auto simp: cq_room_def)
  next
    case (Some src)
    then obtain b where "cq_src cq = Some b" using assms(2) Done by (auto simp: cq_room_def)
    then show ?thesis
      using write_src_room [OF assms(1), of "cqe_flags e" b True "op_context e" "cqe_len e" "cqe_buf e" "cqe_data e" "cqe_tag e" src]
        assms(2) Done Some e by (auto simp: cq_room_def)
  qed
next
  case (Failed e)
  then show ?thesis using write_error_room [OF assms(1), of e] assms(2) by (auto simp: cq_room_def)
qed

lemma post_full:
  assumes "ucq_inv cq" and "cq_accepts cq i" and "ofi_cirque_isfull (cirq cq)"
  shows "ucq_inv (cq_post cq i) \<and> mset (cq_content (cq_post cq i)) = add_mset i (mset (cq_content cq)) \<and>
    read_entry (cq_post cq i) = read_entry cq"
proof -
  obtain e s where i: "i = Done e s" using assms(2,3) by (cases i) (auto simp: cq_accepts_def)
  have e: "tagged_entry (op_context e) (cqe_flags e) (cqe_len e) (cqe_buf e) (cqe_data e) (cqe_tag e) = e"
    by (simp add: tagged_entry_def)
  define src where "src = (case s of None \<Rightarrow> 0 | Some x \<Rightarrow> x)"
  have s: "map_option (\<lambda>_. src) (cq_src cq) = s"
    using assms(2) i by (cases s; cases "cq_src cq") (auto simp: cq_accepts_def src_def)
  have ne: "\<forall>o1 \<in> set (oflow_err_list cq). cqe_err (oe_comp o1) = 0" and fl: "service_free (cqe_flags e)"
    using assms(2,3) i by (simp_all add: cq_accepts_def)
  obtain cq' where w: "ofi_cq_write_overflow True cq (op_context e) (cqe_flags e) (cqe_len e) (cqe_buf e) (cqe_data e)
      (cqe_tag e) src = (Inr (), cq')" and r: "ucq_inv cq'" "read_entry cq' = read_entry cq"
      "cq_content cq' = take (Suc (length (oflow_err_list cq))) (cq_content cq) @
        Done e s # drop (Suc (length (oflow_err_list cq))) (cq_content cq)"
    using overflow_content [OF assms(1,3) ne fl, of "op_context e" "cqe_len e" "cqe_buf e" "cqe_data e" "cqe_tag e" src]
    unfolding s e by blast
  have "mset (take m xs) + mset (drop m xs) = mset xs" for m and xs :: "cq_item list"
    by (metis append_take_drop_id mset_append)
  then have "mset (cq_content cq') = add_mset i (mset (cq_content cq))" using r(3) i by simp
  moreover have "cq_post cq i = cq'"
    using w i assms(3) by (cases s) (simp_all add: ofi_cq_write_def ofi_cq_write_src_def src_def)
  ultimately show ?thesis using r by simp
qed

lemma content_srcs:
  assumes "Done e s \<in> set (cq_content cq)"
  shows "s = None \<longleftrightarrow> cq_src cq = None"
proof -
  have ss: "x = None \<longleftrightarrow> cq_src cq = None" if "x \<in> set (slot_srcs cq)" for x
    using that by (auto simp: slot_srcs_def split: option.splits)
  have q: "Done e s \<in> set (queued es ts os) \<Longrightarrow> s \<in> set ts" for es ts os
    by (induction es ts os rule: queued.induct) (auto split: if_splits list.splits)
  obtain x xs where xs: "cq_list (cirq cq) = x # xs" using assms
    by (cases "cq_list (cirq cq)") (auto simp: cq_content_def)
  then obtain t ts where ts: "slot_srcs cq = t # ts" by (rule slot_srcs_ConsE)
  have "s \<in> set (slot_srcs cq) \<or> (\<exists>o1. Done e s = oflow_item cq o1)"
  proof (cases "overflown x")
    case True
    then show ?thesis using assms xs ts by (auto simp: cq_content_def dest: set_zip_rightD)
  next
    case False
    then have "Done e s \<in> set (queued (x # xs) (t # ts) (oflow_err_list cq))"
      using assms xs ts by (simp add: cq_content_def)
    from q [OF this] show ?thesis using ts by simp
  qed
  then show ?thesis using ss by (auto simp: oflow_item_def)
qed

lemma pair_seen:
  assumes "\<forall>d \<in> set ds. is_done d" and "\<forall>e s. Done e s \<in> set ds \<longrightarrow> (s = None \<longleftrightarrow> cq_src cq = None)"
  shows "(if cq_src cq = None then map (\<lambda>d. Seen d None) (map (read_entry cq \<circ> done_entry) ds)
      else map2 (\<lambda>d s. Seen d (Some s)) (map (read_entry cq \<circ> done_entry) ds) (concat (map done_src ds))) =
    map (cq_view domain buf cq) ds"
  using assms
proof (induction ds)
  case (Cons d ds)
  then obtain e s where d: "d = Done e s" by (cases d) auto
  then have "s = None \<longleftrightarrow> cq_src cq = None" using Cons.prems(2) by simp
  then show ?case using Cons d by (cases s) (auto simp: comp_def split: if_splits)
qed simp

lemma poll_hands_over:
  assumes good: "cq_good buf cq"
  shows "\<exists>os cq'. cq_poll domain buf cq n = Some (os, cq') \<and> cq_good buf cq' \<and> read_entry cq' = read_entry cq \<and>
    cq_seen_list domain buf cq = os @ cq_seen_list domain buf cq' \<and>
    (n \<noteq> 0 \<longrightarrow> cq_seen_list domain buf cq \<noteq> [] \<longrightarrow> os \<noteq> [])"
proof -
  have inv: "ucq_inv cq" using good by (simp add: cq_good_def)
  show ?thesis
  proof (cases "cq_list (cirq cq) = [] \<or> n = 0")
    case True
    then have "cq_poll domain buf cq n = Some ([], cq)"
      by (auto simp: cq_poll_def ofi_cq_readfrom_def cq_empty_iff Let_def)
    then show ?thesis using True good content_Nil_iff [OF inv] by (auto simp: cq_seen_list_def)
  next
    case False
    define ds where "ds = takeWhile is_done (take (min (unat n) (length (cq_list (cirq cq)))) (cq_content cq))"
    from False obtain cq1 where rd: "ofi_cq_readfrom (\<lambda>cq. cq) cq n True =
        Some (if ds = [] then Inl FI_EAVAIL else Inr (length ds), map (read_entry cq \<circ> done_entry) ds, concat (map done_src ds), cq1)"
      and c: "cq_content cq = ds @ cq_content cq1" and r: "ucq_inv cq1" "read_entry cq1 = read_entry cq"
      using readfrom_ready [OF inv, of n True "\<lambda>cq. cq"] unfolding ds_def by auto
    show ?thesis
    proof (cases "ds = []")
      case True
      have "cq_content cq \<noteq> []" using False content_Nil_iff [OF inv] by simp
      then obtain i js where i: "cq_content cq = i # js" by (cases "cq_content cq") auto
      moreover have "0 < min (unat n) (length (cq_list (cirq cq)))" using False by (simp add: unat_gt_0)
      ultimately have "\<not> is_done i" using True by (cases "min (unat n) (length (cq_list (cirq cq)))") (auto simp: ds_def split: if_splits)
      then obtain e where f: "cq_content cq1 = Failed e # js" "i = Failed e" using True i c by (cases i) auto
      have "cq_err_data_ok e" "cq_err_data_ok buf" using good i f(2) by (simp_all add: cq_good_def)
      then obtain e' where cp: "copy_err_entry (cqd_api_version domain) e buf = Some e'" by (rule copy_err_total)
      obtain cq2 where e: "ofi_cq_readerr domain cq1 buf = Some (Inr (), e', cq2)"
        and r2: "ucq_inv cq2" "cq_content cq2 = js" "read_entry cq2 = read_entry cq"
        using readerr_failed [OF r(1) f(1) cp] r(2) by metis
      have "cq_poll domain buf cq n = Some ([cq_view domain buf cq i], cq2)"
        using rd True e f(2) cp by (simp add: cq_poll_def)
      then show ?thesis using r2 i good by (simp add: cq_good_def cq_seen_list_def cq_view_cong [OF r2(3)])
    next
      case ds: False
      have "\<forall>d \<in> set ds. is_done d" using set_takeWhileD by (fastforce simp: ds_def)
      moreover have "\<forall>e s. Done e s \<in> set ds \<longrightarrow> (s = None \<longleftrightarrow> cq_src cq = None)"
        using content_srcs [of _ _ cq] unfolding c by (metis UnI1 set_append)
      ultimately have "cq_poll domain buf cq n = Some (map (cq_view domain buf cq) ds, cq1)"
        using rd ds pair_seen [of ds cq domain buf] by (simp only: cq_poll_def option.case prod.case if_False sum.case)
      then show ?thesis using r c ds good by (simp add: cq_good_def cq_seen_list_def cq_view_cong [OF r(2)])
    qed
  qed
qed

lemma mset_item_ok: "mset xs = add_mset i (mset ys) \<Longrightarrow> item_ok i \<Longrightarrow> list_all item_ok ys \<Longrightarrow> list_all item_ok xs"
  by (metis list.pred_inject(2) list_all_iff mset.simps(2) mset_eq_setD)

lemma seen_list_post:
  assumes "cq_content (cq_post cq i) = xs" and "read_entry (cq_post cq i) = read_entry cq"
  shows "cq_view domain buf (cq_post cq i) = cq_view domain buf cq"
    and "cq_seen_list domain buf (cq_post cq i) = map (cq_view domain buf cq) xs"
  using assms(1) cq_view_cong [OF assms(2), of domain buf] by (simp_all add: cq_seen_list_def)

interpretation cqo: ordered_source "cq_good buf" "cq_seen_list domain buf" "cq_view domain buf" cq_room cq_post
  "cq_poll domain buf" for domain buf
proof unfold_locales
  fix s i assume s: "cq_good buf s" "cq_room s i"
  then have "ucq_inv s" and ok: "item_ok i" using fits_item_ok by (auto simp: cq_good_def cq_room_def)
  with s(2) have p: "ucq_inv (cq_post s i)" "cq_content (cq_post s i) = cq_content s @ [i]"
    "read_entry (cq_post s i) = read_entry s" using post_room by blast+
  note v = seen_list_post [OF p(2,3), of domain buf]
  show "cq_seen_list domain buf (cq_post s i) = cq_seen_list domain buf s @ [cq_view domain buf s i]"
    unfolding v(2) by (simp add: cq_seen_list_def)
  show "cq_good buf (cq_post s i) \<and> cq_view domain buf (cq_post s i) = cq_view domain buf s \<and>
      mset (cq_seen_list domain buf (cq_post s i)) = add_mset (cq_view domain buf s i) (mset (cq_seen_list domain buf s))"
    unfolding v using p(1,2) s(1) ok by (simp add: cq_seen_list_def cq_good_def)
next
  fix s n assume "cq_good buf s"
  from poll_hands_over [OF this, of domain n]
  show "\<exists>os s'. cq_poll domain buf s n = Some (os, s') \<and> cq_good buf s' \<and> cq_view domain buf s' = cq_view domain buf s \<and>
      cq_seen_list domain buf s = os @ cq_seen_list domain buf s' \<and>
      (n \<noteq> 0 \<longrightarrow> cq_seen_list domain buf s \<noteq> [] \<longrightarrow> os \<noteq> [])"
    using cq_view_cong by blast
qed

interpretation cql: event_source "cq_good buf" "cq_seen_list domain buf" "cq_view domain buf" cq_accepts cq_post
  "cq_poll domain buf" for domain buf
proof unfold_locales
  fix s i assume g: "cq_good buf s" "cq_accepts s i"
  then have s: "ucq_inv s" "cq_accepts s i" and ok: "item_ok i"
    using fits_item_ok by (auto simp: cq_good_def cq_accepts_def)
  have p: "ucq_inv (cq_post s i) \<and> mset (cq_content (cq_post s i)) = add_mset i (mset (cq_content s)) \<and>
    read_entry (cq_post s i) = read_entry s"
  proof (cases "ofi_cirque_isfull (cirq s)")
    case True
    from post_full [OF s True] show ?thesis .
  next
    case False
    then have "cq_room s i" using s by (simp add: cq_room_def cq_accepts_def)
    from post_room [OF s(1) this] show ?thesis by simp
  qed
  then have "read_entry (cq_post s i) = read_entry s" by blast
  note v = seen_list_post [OF refl this, of domain buf]
  show "cq_good buf (cq_post s i) \<and> cq_view domain buf (cq_post s i) = cq_view domain buf s \<and>
      mset (cq_seen_list domain buf (cq_post s i)) = add_mset (cq_view domain buf s i) (mset (cq_seen_list domain buf s))"
    unfolding v using p g(1) ok mset_item_ok by (auto simp: cq_seen_list_def cq_good_def)
qed (rule cqo.take_law)

subsection \<open>Blocking reads\<close>








subsection \<open>Opening\<close>

lemma create_size:
  assumes "sz \<noteq> 0" and "unat sz \<le> 2 ^ 62" and "cirque_create ok z sz = Some q"
  shows "cq_inv q" and "cq_list q = []" and "unat (cq_size q) < 2 ^ 63"
proof -
  have ok: "ok" and sz: "unat sz \<le> 2 ^ 63" using assms by (auto simp: cirque_create_def Let_def split: if_splits)
  then show "cq_inv q" "cq_list q = []" using cq_create_inv [of sz z q] assms by simp_all
  obtain m where "unat (roundup_power_of_two sz) = 2 ^ m" "2 ^ m < 2 * unat sz"
    using roundup_pow2_cases [OF assms(1) sz] by metis
  then show "unat (cq_size q) < 2 ^ 63" using assms ok by (auto simp: cirque_create_def cirque_init_def Let_def)
qed

lemma cq_init_fields:
  "fi_cq_init wait_open domain attr f = Inr (cq, d) \<Longrightarrow>
    oflow_err_list cq = [] \<and> cq_src cq = None \<and> cirq_ptr cq = None \<and> cq_ref cq = 0 \<and>
    (cqa_wait_obj attr = FI_WAIT_FD \<longrightarrow> internal_wait cq \<and> (\<exists>w. wait_open FI_WAIT_FD = Inr w \<and> cq_wait cq = Some w))"
  by (auto simp: fi_cq_init_def util_cq0_def Let_def and_then_Inr_iff split: fi_wait_obj.splits)

lemma cq_init_inv:
  assumes "ofi_cq_init ok wait_open poll_add domain attr = Inr (cq, d)" and "unat (cqa_size attr) \<le> 2 ^ 62"
  shows "ucq_inv cq" and "cq_content cq = []"
proof -
  let ?sz = "if cqa_size attr = 0 then UTIL_DEF_CQ_SIZE else cqa_size attr"
  obtain q where q: "cirque_create (ok 0) entry0 ?sz = Some q" "cirq_ptr cq = Some q" "oflow_err_list cq = []"
      "cq_src cq = None \<or> cq_src cq = Some (replicate (unat (cq_size q)) 0)"
    using assms(1) cq_init_fields
    by (fastforce simp: ofi_cq_init_def Let_def and_then_Inr_iff split: sum.splits prod.splits option.splits if_splits)
  have "?sz \<noteq> 0" "unat ?sz \<le> 2 ^ 62" using assms(2) by (simp_all add: UTIL_DEF_CQ_SIZE_def)
  note c = create_size [OF this q(1)]
  have len: "length (cq_buf q) = unat (cq_size q)" using c(1) by (auto elim!: cq_invE simp: unat_pow2)
  show "ucq_inv cq" using q c len by (auto simp: ucq_inv_def cq_shape_def cq_regular_def)
  show "cq_content cq = []" using q c by (simp add: cq_content_def)
qed

subsection \<open>Properties\<close>

text \<open>A domain, and a queue of two tagged entries without a wait object.\<close>

definition ex_domain :: cq_domain where
  "ex_domain = \<lparr>cqd_threading = FI_THREAD_SAFE, cqd_info_domain_caps = 0, cqd_api_version = FI_VERSION 1 9, cqd_ref = 0\<rparr>"

definition ex_attr :: fi_cq_attr where
  "ex_attr = \<lparr>cqa_size = 2, cqa_flags = 0, cqa_format = FI_CQ_FORMAT_CONTEXT, cqa_wait_obj = FI_WAIT_NONE,
    cqa_wait_cond = FI_CQ_COND_NONE, cqa_wait_set = None\<rparr>"

definition ex_cq :: util_cq where
  "ex_cq = util_cq0\<lparr>cq_locking := True, cirq_ptr := Some (cirque_init [entry0, entry0] 2)\<rparr>"

definition ex_err :: fi_cq_err_entry where
  "ex_err = make_err_entry entry0 0 5 (- 5)"


lemma ex_err_ok: "cq_err_data_ok ex_err"
  by (simp add: cq_err_data_ok_def ex_err_def make_err_entry_def fi_cq_tagged_entry.extend_def)

lemma ex_init:
  "ofi_cq_init (\<lambda>_. True) (\<lambda>_. Inl FI_ENOSYS) (\<lambda>_. Inr ()) ex_domain ex_attr = Inr (ex_cq, ex_domain\<lparr>cqd_ref := 1\<rparr>)"
proof -
  have r: "roundup_power_of_two 2 = 2" by (simp add: roundup_power_of_two_def)
  have b: "replicate 2 entry0 = [entry0, entry0]" by (simp add: numeral_2_eq_2)
  show ?thesis
    by (simp add: ofi_cq_init_def ex_attr_def ofi_check_cq_attr_def cq_read_func_def fi_cq_init_def ex_domain_def
        cirque_create_def r b ex_cq_def Let_def util_cq0_def)
qed

text \<open>C2. A completion queue is an ordered source of completions and errors as long as it is not written
  to when it is full.  Start from a queue as \<open>ofi_cq_init\<close> opens it and run any sequence of writes of
  completions and errors by the provider (a write to a full queue is not made) and of polls by the
  application (a read of up to \<open>n\<close> entries, followed by \<open>fi_cq_readerr\<close> if the read reports
  \<open>FI_EAVAIL\<close>).  The run meets no undefined behaviour; what the application has seen, followed by
  what the queue still holds, is exactly what was written, in order; and an application that goes on
  polling gets all of the rest.  The errors written have an error code and, like the application's
  own error entry, say no more of their block of details than is there; a read of another error would
  copy beyond a block.\<close>

theorem cq_delivers_in_order:
  assumes "ofi_cq_init ok wait_open poll_add domain attr = Inr (cq, domain')" and "unat (cqa_size attr) \<le> 2 ^ 62"
    and "n \<noteq> 0" and "cq_err_data_ok buf"
  shows "\<exists>seen cq'. cqo.run domain buf cq ops = Some (seen, cq') \<and>
    seen @ cq_seen_list domain buf cq' = cqo.accepted domain buf cq ops \<and>
    (\<exists>k cq''. cqo.run domain buf cq' (replicate k (Take n)) = Some (cq_seen_list domain buf cq', cq'') \<and>
      cq_seen_list domain buf cq'' = [])"
proof -
  note i = cq_init_inv [OF assms(1,2)]
  have g: "cq_good buf cq" using i assms(4) by (simp add: cq_good_def)
  obtain seen cq' where r: "cqo.run domain buf cq ops = Some (seen, cq')" "cq_good buf cq'"
    "seen @ cq_seen_list domain buf cq' = cq_seen_list domain buf cq @ cqo.accepted domain buf cq ops"
    using cqo.run_ordered [OF g] by blast
  then show ?thesis using i(2) cqo.run_drains [OF r(2) assms(3), of domain] by (auto simp: cq_seen_list_def [of _ _ cq])
qed

lemmas ex_cq_eval = ex_cq_def cirque_init_def util_cq0_def ofi_cirque_isfull_def ofi_cirque_freecnt_def
  ofi_cirque_usedcnt_def ofi_cirque_isempty_def ofi_cirque_windex_def ofi_cirque_rindex_def ofi_cirque_head_def
  ofi_cirque_tail_def ofi_cirque_commit_def ofi_cirque_discard_def set_slot_def tagged_entry_def entry0_def
  make_err_entry_def fi_cq_tagged_entry.extend_def Let_def ofi_cq_write_def ofi_cq_write_comp_entry_def
  ofi_cq_write_error_def ofi_cq_write_overflow_def ex_err_def

theorem cq_delivers_in_order_witness:
  "\<exists>seen cq'. cqo.run ex_domain ex_err ex_cq [Post (Done entry0 None), Post (Failed ex_err), Take 2] = Some (seen, cq') \<and>
    seen @ cq_seen_list ex_domain ex_err cq' = [Seen (Fi_cq_entry 0) None, cq_view ex_domain ex_err ex_cq (Failed ex_err)]"
proof -
  have size: "unat (cqa_size ex_attr) \<le> 2 ^ 62" by (simp add: ex_attr_def)
  have "cq_room ex_cq (Done entry0 None)" "cq_room (cq_post ex_cq (Done entry0 None)) (Failed ex_err)"
    "read_entry ex_cq entry0 = Fi_cq_entry 0"
    by (simp_all add: cq_room_def ex_cq_eval service_free_def util_cq_read_ctx_def cq_err_data_ok_def)
  then have "cqo.accepted ex_domain ex_err ex_cq [Post (Done entry0 None), Post (Failed ex_err), Take 2] =
      [Seen (Fi_cq_entry 0) None, cq_view ex_domain ex_err ex_cq (Failed ex_err)]"
    by (simp split: option.split)
  then show ?thesis
    using cq_delivers_in_order [OF ex_init size, of 1 ex_err "[Post (Done entry0 None), Post (Failed ex_err), Take 2]"]
      ex_err_ok by auto
qed

text \<open>C10. When completions overflow, none is lost, doubled or made up, provided that no error is pending
  in the queue at the time and errors are only written when there is room.  In any run of such
  writes and of polls on a queue as \<open>ofi_cq_init\<close> opens it, the completions and errors that the
  application has seen, together with those that the queue still holds, are those written.  The error
  entries, those written and that of the application, say no more of their block of details than is
  there.\<close>

theorem cq_overflow_keeps_all:
  assumes "ofi_cq_init ok wait_open poll_add domain attr = Inr (cq, domain')" and "unat (cqa_size attr) \<le> 2 ^ 62"
    and "cq_err_data_ok buf"
  shows "\<exists>seen cq'. cql.run domain buf cq ops = Some (seen, cq') \<and>
    mset seen + mset (cq_seen_list domain buf cq') = mset (cql.accepted domain buf cq ops)"
proof -
  note i = cq_init_inv [OF assms(1,2)]
  then have "cq_good buf cq" using assms(3) by (simp add: cq_good_def)
  then show ?thesis using cql.run_conserves [of buf cq domain ops] i(2) by (auto simp: cq_seen_list_def [of _ _ cq])
qed

theorem cq_overflow_keeps_all_witness:
  "\<exists>seen cq'. cql.run ex_domain ex_err ex_cq (replicate 5 (Post (Done entry0 None)) @ [Take 2]) = Some (seen, cq') \<and>
    mset seen + mset (cq_seen_list ex_domain ex_err cq') =
      mset (cql.accepted ex_domain ex_err ex_cq (replicate 5 (Post (Done entry0 None)) @ [Take 2]))"
proof -
  have "unat (cqa_size ex_attr) \<le> 2 ^ 62" by (simp add: ex_attr_def)
  from cq_overflow_keeps_all [OF ex_init this ex_err_ok] show ?thesis .
qed

text \<open>A completion, an error and a second completion written to it.\<close>

definition ex_written :: util_cq where
  "ex_written =
    (let cq1 = snd (ofi_cq_write True ex_cq 1 0 0 0 0 0); cq2 = snd (the (ofi_cq_write_error True cq1 ex_err))
     in snd (ofi_cq_write True cq2 2 0 0 0 0 0))"

definition ex_slots :: "fi_cq_tagged_entry \<Rightarrow> u64 \<Rightarrow> util_cq_oflow_err_entry list \<Rightarrow> util_cq" where
  "ex_slots e r os = ex_cq\<lparr>cirq_ptr := Some \<lparr>cq_size = 2, cq_size_mask = 1, cq_rcnt = r, cq_wcnt = 2,
      cq_buf = [e, entry0\<lparr>cqe_flags := UTIL_FLAG_ERROR\<rparr>]\<rparr>, oflow_err_list := os\<rparr>"

lemma ex_written_eq:
  "ex_written = ex_slots (tagged_entry 1 UTIL_FLAG_OVERFLOW 0 0 0 0) 0
    [\<lparr>parent_comp = None, oe_comp = ex_err, oe_src = 0\<rparr>,
     \<lparr>parent_comp = Some 0, oe_comp = make_err_entry (tagged_entry 2 0 0 0 0 0) 0 0 0, oe_src = 0\<rparr>]"
  by (simp add: ex_written_def ex_slots_def ex_cq_eval)

lemma clear_overflow [simp]: "UTIL_FLAG_OVERFLOW AND NOT UTIL_FLAG_OVERFLOW AND NOT UTIL_FLAG_ERROR = 0"
  by (simp flip: and.assoc)

lemma ex_read:
  "ofi_cq_read (\<lambda>cq. cq) ex_written 2 = Some (Inr 1, [Fi_cq_entry 1], [], ex_slots (tagged_entry 1 0 0 0 0 0) 1
    [\<lparr>parent_comp = None, oe_comp = ex_err, oe_src = 0\<rparr>,
     \<lparr>parent_comp = Some 0, oe_comp = make_err_entry (tagged_entry 2 0 0 0 0 0) 0 0 0, oe_src = 0\<rparr>])"
  by (simp add: ex_written_eq ofi_cq_read_def ofi_cq_readfrom_def ex_slots_def ex_cq_eval cq_read_round_def service_simps
      numeral_2_eq_2 util_cq_read_entry_def read_src_def util_cq_read_ctx_def)

lemma ex_readerr:
  "\<exists>e cq2. ofi_cq_readerr ex_domain (ex_slots (tagged_entry 1 0 0 0 0 0) 1 (\<lparr>parent_comp = None, oe_comp = ex_err, oe_src = 0\<rparr> # os))
      ex_err = Some (Inr (), e, cq2) \<and> cqe_err e = 5 \<and> cq2 = ex_slots (tagged_entry 1 0 0 0 0 0) 2 os"
  by (simp add: ofi_cq_readerr_def ex_slots_def ex_cq_eval service_simps copy_err_entry_def)

lemma ex_drained: "ofi_cq_read (\<lambda>cq. cq) (ex_slots e 2 os) n = Some (Inl FI_EAGAIN, [], [], ex_slots e 2 os)"
  by (simp add: ofi_cq_read_def ofi_cq_readfrom_def ex_slots_def ofi_cirque_isempty_def)

text \<open>Overflow while an error is pending loses a completion.  On a queue with two entries, the
  provider writes a completion, an error and a second completion; the last write finds the queue full
  and returns success.  The application reads the first completion and the error.  From then on every
  read returns \<open>FI_EAGAIN\<close>, although the second completion is still in the list of the queue.\<close>

theorem overflow_completion_lost:
  "\<exists>cq1 cq2 e. ofi_cq_read (\<lambda>cq. cq) ex_written 2 = Some (Inr 1, [Fi_cq_entry 1], [], cq1) \<and>
    ofi_cq_readerr ex_domain cq1 ex_err = Some (Inr (), e, cq2) \<and> cqe_err e = 5 \<and>
    (\<forall>n. ofi_cq_read (\<lambda>cq. cq) cq2 n = Some (Inl FI_EAGAIN, [], [], cq2)) \<and>
    map (op_context \<circ> oe_comp) (oflow_err_list cq2) = [2]"
proof -
  let ?os = "[\<lparr>parent_comp = Some 0, oe_comp = make_err_entry (tagged_entry 2 0 0 0 0 0) 0 0 0, oe_src = 0\<rparr>]"
  obtain e where "ofi_cq_readerr ex_domain (ex_slots (tagged_entry 1 0 0 0 0 0) 1
      (\<lparr>parent_comp = None, oe_comp = ex_err, oe_src = 0\<rparr> # ?os)) ex_err =
      Some (Inr (), e, ex_slots (tagged_entry 1 0 0 0 0 0) 2 ?os)" "cqe_err e = 5"
    using ex_readerr [of ?os] by blast
  moreover have "map (op_context \<circ> oe_comp) (oflow_err_list (ex_slots (tagged_entry 1 0 0 0 0 0) 2 ?os)) = [2]"
    by (simp add: ex_slots_def make_err_entry_def tagged_entry_def fi_cq_tagged_entry.extend_def)
  ultimately show ?thesis
    by - (intro exI conjI allI, rule ex_read, assumption, assumption, rule ex_drained, assumption)
qed



lemma cq_init_failure_cases:
  assumes fail: "ofi_cq_init ok wait_open poll_add domain attr = Inl (e, effects)" and ne: "effects \<noteq> []"
  obtains (early) f cq d where "fi_cq_init wait_open domain attr f = Inr (cq, d)" "effects = snd (ofi_cq_cleanup cq)"
  | (late) f cq d q where "fi_cq_init wait_open domain attr f = Inr (cq, d)" "ok 0" "\<not> ok 1"
      "effects = Free_cirq # snd (ofi_cq_cleanup (cq\<lparr>cirq_ptr := Some q\<rparr>))"
proof -
  let ?open = "and_then (ofi_check_cq_attr attr)
    (\<lambda>_. and_then (cq_read_func (cqa_format attr)) (fi_cq_init wait_open domain attr))"
  obtain cq d where o: "?open = Inr (cq, d)"
    using fail ne by (cases ?open) (auto simp: ofi_cq_init_def)
  then obtain f where f: "fi_cq_init wait_open domain attr f = Inr (cq, d)" by (auto simp: and_then_Inr_iff)
  have same: "cq\<lparr>cirq_ptr := None\<rparr> = cq" using cq_init_fields [OF f] by (cases cq) simp
  define sz where "sz = (if cqa_size attr = 0 then UTIL_DEF_CQ_SIZE else cqa_size attr)"
  show thesis
  proof (cases "case cq_wait cq of None \<Rightarrow> Inr () | Some w \<Rightarrow> poll_add w")
    case (Inl x)
    then show thesis using early [OF f] fail o by (simp add: ofi_cq_init_def)
  next
    case (Inr u)
    note step = fail [unfolded ofi_cq_init_def o sum.case prod.case Inr Let_def, folded sz_def]
    show thesis
    proof (cases "cirque_create (ok 0) entry0 sz")
      case None
      then show thesis using early [OF f] step same cq_init_fields [OF f] by simp
    next
      case (Some q)
      then show thesis using late [OF f, of q] step
        by (auto simp: cirque_create_def Let_def split: if_splits)
    qed
  qed
qed

lemma cleanup_counts:
  assumes "cq_ref cq = 0" and "cq_src cq = None"
  shows "count_list (snd (ofi_cq_cleanup cq)) Domain_ref_dec = 1"
    and "count_list (snd (ofi_cq_cleanup cq)) Free_cirq = (if cirq_ptr cq = None then 0 else 1)"
    and "internal_wait cq \<Longrightarrow> cq_wait cq = Some w \<Longrightarrow> Close_wait w \<in> set (snd (ofi_cq_cleanup cq))"
  using assms by (auto simp: ofi_cq_cleanup_def split: option.splits)

text \<open>Opening a queue fails cleanly except on one path.  Whenever \<open>ofi_cq_init\<close> returns an error after
  it took a reference on the domain, it gives back exactly one; and a wait object that it opened is
  closed.  But the only failing path that releases the circular queue, that on which the array of
  source addresses cannot be allocated, releases it twice.\<close>

theorem cq_init_failure_effects:
  assumes "ofi_cq_init ok wait_open poll_add domain attr = Inl (e, effects)" and "effects \<noteq> []"
  shows "count_list effects Domain_ref_dec = 1 \<and>
    (cqa_wait_obj attr = FI_WAIT_FD \<longrightarrow> (\<exists>w. wait_open FI_WAIT_FD = Inr w \<and> Close_wait w \<in> set effects)) \<and>
    (Free_cirq \<in> set effects \<longrightarrow> ok 0 \<and> \<not> ok 1 \<and> count_list effects Free_cirq = 2)"
  using assms
proof (cases rule: cq_init_failure_cases)
  case (early f cq d)
  note i = cq_init_fields [OF early(1)]
  then show ?thesis using early(2) cleanup_counts [of cq] count_list_0_iff [of effects Free_cirq] by auto
next
  case (late f cq d q)
  note i = cq_init_fields [OF late(1)]
  then show ?thesis using late(2-4) cleanup_counts [of "cq\<lparr>cirq_ptr := Some q\<rparr>"] by auto
qed

theorem cq_init_failure_effects_witness:
  "count_list [Free_cirq, Free_oflow 0, Domain_ref_dec, Free_cirq] Free_cirq = 2 \<and>
    ofi_cq_init (\<lambda>k. k = 0) (\<lambda>_. Inl FI_ENOSYS) (\<lambda>_. Inr ()) (ex_domain\<lparr>cqd_info_domain_caps := FI_SOURCE\<rparr>) ex_attr =
      Inl (FI_ENOMEM, [Free_cirq, Free_oflow 0, Domain_ref_dec, Free_cirq])"
proof -
  have i: "ofi_cq_init (\<lambda>k. k = 0) (\<lambda>_. Inl FI_ENOSYS) (\<lambda>_. Inr ()) (ex_domain\<lparr>cqd_info_domain_caps := FI_SOURCE\<rparr>) ex_attr =
      Inl (FI_ENOMEM, [Free_cirq, Free_oflow 0, Domain_ref_dec, Free_cirq])"
    by (simp add: ofi_cq_init_def ex_attr_def ofi_check_cq_attr_def cq_read_func_def fi_cq_init_def ex_domain_def
        cirque_create_def Let_def util_cq0_def ofi_cq_cleanup_def FI_SOURCE_def)
  from cq_init_failure_effects [OF i] show ?thesis using i by simp
qed

end
