(* ===== verification/Ofi_Eq.thy ===== *)
theory Ofi_Eq
  imports Ofi_Cq
begin

unbundle bit_operations_syntax

section \<open>Event queue (\<^verbatim>\<open>prov/util/src/util_eq.c\<close>)\<close>

text \<open>
  The queue of control events: an unbounded list of events, some of them errors that carry a block of
  memory with details (\<open>err_data\<close>), which the queue owns until the application has seen it.  A block
  is its number with its bytes, \<open>None\<close> is the null pointer.  The operations return the blocks they
  release, so that the theorems can say that none is released twice.

  The data of an event is one of the three structures of \<^verbatim>\<open>include/rdma/fi_eq.h\<close>, all of which begin
  with a \<open>fid\<close>.  A read that hands out data returns the data with the number of bytes copied.  A failed
  assertion and a copy beyond the end of a block are \<open>None\<close>; a copy of no bytes touches no memory,
  whatever the pointers.
\<close>

subsection \<open>Data\<close>

type_synonym block = "nat \<times> u8 list"

record fi_eq_err_entry =
  eqe_fid :: fid
  eqe_context :: ptr
  eqe_data :: u64
  eqe_err :: int
  eqe_prov_errno :: int
  eqe_err_data :: "block option"
  eqe_err_data_size :: size_t

text \<open>Three words, two \<open>int\<close>s and two words.\<close>

definition sizeof_err_entry :: size_t where "sizeof_err_entry = 48"

definition FI_CONNREQ :: u32 where "FI_CONNREQ = 1"

datatype (plugins only: code size) eq_data =
    Fi_eq_entry fid ptr u64
  | Fi_eq_cm_entry fid fi_info "u8 list"
  | Fi_eq_err_entry fi_eq_err_entry

record util_event =
  ev_size :: c_int
  ev_event :: u32
  ev_err :: bool
  ev_data :: eq_data

record fi_eq_attr =
  eqa_size :: size_t
  eqa_flags :: u64
  eqa_wait_obj :: fi_wait_obj
  eqa_wait_set :: "fid option"

record util_eq =
  eq_api_version :: u32
  eq_wait :: "fid option"
  eq_ref :: u32
  eq_list :: "util_event list"
  saved_err_data :: "block option"
  eq_internal_wait :: bool
  eq_signals :: nat

definition block_id :: "block option \<Rightarrow> nat list" where
  "block_id b = (case b of None \<Rightarrow> [] | Some (p, _) \<Rightarrow> [p])"

subsection \<open>Reading and writing\<close>

text \<open>The bytes behind a pointer; there are none behind a null pointer.\<close>

definition block_bytes :: "block option \<Rightarrow> u8 list" where
  "block_bytes b = (case b of None \<Rightarrow> [] | Some (_, bytes) \<Rightarrow> bytes)"

text \<open>The user's entry and the queue's entry after the call, and the blocks released.  The copy is
  undefined if it reads beyond the block of the event or writes beyond the block of the user.\<close>

definition ofi_eq_handle_err_entry ::
    "u32 \<Rightarrow> u64 \<Rightarrow> fi_eq_err_entry \<Rightarrow> fi_eq_err_entry \<Rightarrow> (fi_eq_err_entry \<times> fi_eq_err_entry \<times> nat list) option" where
  "ofi_eq_handle_err_entry api_version flags err_entry user_err_entry =
    (let peek = flags AND FI_PEEK \<noteq> 0;
         finish = (\<lambda>(user1, entry1, freed).
           Some (user1, if peek then entry1 else entry1\<lparr>eqe_err := 0, eqe_prov_errno := 0\<rparr>, freed))
     in if FI_VERSION_GE api_version (FI_VERSION 1 5) \<and> eqe_err_data user_err_entry \<noteq> None \<and>
           eqe_err_data_size user_err_entry \<noteq> 0
        then
          let (p, mem) = the (eqe_err_data user_err_entry);
              err_data_size = min (eqe_err_data_size err_entry) (eqe_err_data_size user_err_entry);
              src = block_bytes (eqe_err_data err_entry)
          in if length src < unat err_data_size \<or> length mem < unat err_data_size then None
             else finish (err_entry\<lparr>eqe_err_data := Some (p, memcpy mem 0 (take (unat err_data_size) src)),
                                  eqe_err_data_size := err_data_size\<rparr>,
                        if peek then err_entry else err_entry\<lparr>eqe_err_data := None, eqe_err_data_size := 0\<rparr>,
                        if peek then [] else block_id (eqe_err_data err_entry))
        else finish (err_entry, err_entry, []))"

text \<open>What a read leaves in the user's buffer.\<close>

datatype (plugins only: code size) eq_out =
    Eq_none
  | Eq_bytes size_t eq_data
  | Eq_err_out fi_eq_err_entry

text \<open>\<open>event\<close> tells whether the caller wants the number of the event, \<open>buf\<close> is the user's buffer, with its
  length and, for an error read, the error entry in it.  The result is the return value, the number
  handed out, the buffer after the call, the queue and the blocks released.  An error event whose size
  is not that of an error entry fails the assertion of the code; one of that size whose data is no
  error entry is counted as undefined too.\<close>

type_synonym eq_read_result = "(size_t fi_result \<times> u32 option \<times> eq_out \<times> util_eq \<times> nat list) option"

definition ofi_eq_read :: "util_eq \<Rightarrow> bool \<Rightarrow> (size_t \<times> fi_eq_err_entry) option \<Rightarrow> u64 \<Rightarrow> eq_read_result" where
  "ofi_eq_read eq event buf flags =
    (case eq_list eq of
       [] \<Rightarrow> Some (Inl FI_EAGAIN, None, Eq_none, eq, [])
     | entry # rest \<Rightarrow>
         let error = flags AND UTIL_FLAG_ERROR \<noteq> 0; peek = flags AND FI_PEEK \<noteq> 0;
             eq1 = (if peek then eq else eq\<lparr>eq_list := rest\<rparr>);
             number = (if event then Some (ev_event entry) else None)
         in if ev_err entry \<and> \<not> error then Some (Inl FI_EAVAIL, None, Eq_none, eq, [])
            else if \<not> ev_err entry \<and> error then Some (Inl FI_EAGAIN, None, Eq_none, eq, [])
            else case buf of
                   None \<Rightarrow> Some (Inr 0, number, Eq_none, eq1, [])
                 | Some (len, user) \<Rightarrow>
                     if \<not> error
                     then let n = min len (scast (ev_size entry))
                          in Some (Inr n, number, Eq_bytes n (ev_data entry), eq1, [])
                     else if scast (ev_size entry) \<noteq> sizeof_err_entry then None
                     else (case ev_data entry of
                             Fi_eq_err_entry err_entry \<Rightarrow>
                               (case ofi_eq_handle_err_entry (eq_api_version eq) flags err_entry user of
                                  None \<Rightarrow> None
                                | Some (user1, entry1, freed) \<Rightarrow>
                                    Some (Inr (scast (ev_size entry)), number, Eq_err_out user1,
                                        if peek
                                        then eq\<lparr>saved_err_data := None,
                                                 eq_list := entry\<lparr>ev_data := Fi_eq_err_entry entry1\<rparr> # rest\<rparr>
                                        else eq\<lparr>saved_err_data := eqe_err_data entry1, eq_list := rest\<rparr>,
                                        block_id (saved_err_data eq) @ freed))
                           | _ \<Rightarrow> None))"

definition ofi_eq_readerr :: "util_eq \<Rightarrow> fi_eq_err_entry \<Rightarrow> u64 \<Rightarrow> eq_read_result" where
  "ofi_eq_readerr eq buf flags = ofi_eq_read eq False (Some (sizeof_err_entry, buf)) (flags OR UTIL_FLAG_ERROR)"

definition ofi_eq_write :: "bool \<Rightarrow> util_eq \<Rightarrow> u32 \<Rightarrow> eq_data \<Rightarrow> size_t \<Rightarrow> u64 \<Rightarrow> size_t fi_result \<times> util_eq" where
  "ofi_eq_write calloc_ok eq event buf len flags =
    (if \<not> calloc_ok then (Inl FI_ENOMEM, eq)
     else
       let entry = \<lparr>ev_size = ucast len, ev_event = event, ev_err = (flags AND UTIL_FLAG_ERROR \<noteq> 0), ev_data = buf\<rparr>;
           eq1 = eq\<lparr>eq_list := eq_list eq @ [entry]\<rparr>
       in (Inr len, case eq_wait eq1 of None \<Rightarrow> eq1 | Some _ \<Rightarrow> eq1\<lparr>eq_signals := Suc (eq_signals eq1)\<rparr>))"

text \<open>Rounds of the blocking read.  In round \<open>k\<close> the clock reads \<open>now k\<close>, and \<open>wait k\<close> is what happens while
  the call waits and its result.\<close>

definition eq_sread_round ::
    "(nat \<Rightarrow> u64) \<Rightarrow> (nat \<Rightarrow> c_int \<Rightarrow> util_eq \<Rightarrow> util_eq \<times> unit fi_result) \<Rightarrow>
      bool \<Rightarrow> (size_t \<times> fi_eq_err_entry) option \<Rightarrow> u64 \<Rightarrow> u64 \<Rightarrow> nat \<Rightarrow> c_int \<times> util_eq \<Rightarrow> eq_read_result + c_int \<times> util_eq" where
  "eq_sread_round now wait event buf flags endtime k = (\<lambda>(timeout, eq).
    case ofi_eq_read eq event buf flags of
      None \<Rightarrow> Inl None
    | Some (r, number, out, eq1, freed) \<Rightarrow>
        if r \<noteq> Inl FI_EAGAIN then Inl (Some (untimed r, number, out, eq1, freed))
        else (case ofi_adjust_timeout (now k) endtime timeout of
                (_, Inl _) \<Rightarrow> Inl (Some (Inl FI_EAGAIN, number, out, eq1, freed))
              | (timeout1, Inr _) \<Rightarrow>
                  (case wait k timeout1 eq1 of
                     (eq2, Inr _) \<Rightarrow> Inr (timeout1, eq2)
                   | (eq2, Inl e) \<Rightarrow> Inl (Some (untimed (Inl e), number, out, eq2, freed)))))"

fun eq_sread_loop ::
    "(nat \<Rightarrow> u64) \<Rightarrow> (nat \<Rightarrow> c_int \<Rightarrow> util_eq \<Rightarrow> util_eq \<times> unit fi_result) \<Rightarrow>
      bool \<Rightarrow> (size_t \<times> fi_eq_err_entry) option \<Rightarrow> u64 \<Rightarrow> u64 \<Rightarrow> nat \<Rightarrow> nat \<Rightarrow> c_int \<times> util_eq \<Rightarrow> eq_read_result option" where
  "eq_sread_loop now wait event buf flags endtime 0 k s = None"
| "eq_sread_loop now wait event buf flags endtime (Suc fuel) k s =
    (case eq_sread_round now wait event buf flags endtime k s of
       Inl r \<Rightarrow> Some r
     | Inr s1 \<Rightarrow> eq_sread_loop now wait event buf flags endtime fuel (Suc k) s1)"

definition ofi_eq_sread ::
    "nat \<Rightarrow> (nat \<Rightarrow> u64) \<Rightarrow> (nat \<Rightarrow> c_int \<Rightarrow> util_eq \<Rightarrow> util_eq \<times> unit fi_result) \<Rightarrow>
      u64 \<Rightarrow> util_eq \<Rightarrow> bool \<Rightarrow> (size_t \<times> fi_eq_err_entry) option \<Rightarrow> c_int \<Rightarrow> u64 \<Rightarrow> eq_read_result option" where
  "ofi_eq_sread fuel now wait start eq event buf timeout flags =
    (if \<not> eq_internal_wait eq then Some (Some (Inl FI_ENOSYS, None, Eq_none, eq, []))
     else eq_sread_loop now wait event buf flags (ofi_timeout_time start timeout) fuel 0 (timeout, eq))"

text \<open>\<open>strncpy\<close> into a buffer of \<open>len\<close> bytes does not terminate a string that fills it.\<close>

definition ofi_eq_strerror :: "(int \<Rightarrow> string) \<Rightarrow> int \<Rightarrow> nat option \<Rightarrow> string" where
  "ofi_eq_strerror strerror prov_errno buf_len =
    (case buf_len of
       None \<Rightarrow> fi_strerror strerror prov_errno
     | Some len \<Rightarrow> if len = 0 then fi_strerror strerror prov_errno else take len (fi_strerror strerror prov_errno))"

subsection \<open>Removing the events of an object\<close>

fun slist_remove_first_match :: "('a \<Rightarrow> bool) \<Rightarrow> 'a list \<Rightarrow> ('a \<times> 'a list) option" where
  "slist_remove_first_match match [] = None"
| "slist_remove_first_match match (x # xs) =
    (if match x then Some (x, xs)
     else case slist_remove_first_match match xs of None \<Rightarrow> None | Some (y, ys) \<Rightarrow> Some (y, x # ys))"

definition eq_data_fid :: "eq_data \<Rightarrow> fid" where
  "eq_data_fid d =
    (case d of Fi_eq_entry f _ _ \<Rightarrow> f | Fi_eq_cm_entry f _ _ \<Rightarrow> f | Fi_eq_err_entry e \<Rightarrow> eqe_fid e)"

text \<open>A connection request is also matched by the handle of its information.\<close>

definition ofi_eq_match_fid_event :: "fid \<Rightarrow> util_event \<Rightarrow> bool" where
  "ofi_eq_match_fid_event f event \<longleftrightarrow>
    (ev_event event = FI_CONNREQ \<and>
      (case ev_data event of Fi_eq_cm_entry _ info _ \<Rightarrow> fi_handle info = Some f | _ \<Rightarrow> False)) \<or>
    f = eq_data_fid (ev_data event)"

text \<open>What the removal of an event releases: the error data, or the information of a request.\<close>

definition event_blocks :: "util_event \<Rightarrow> nat list" where
  "event_blocks event =
    (if ev_err event then (case ev_data event of Fi_eq_err_entry e \<Rightarrow> block_id (eqe_err_data e) | _ \<Rightarrow> []) else [])"

definition event_info :: "util_event \<Rightarrow> fi_info list" where
  "event_info event =
    (if \<not> ev_err event \<and> ev_event event = FI_CONNREQ
     then (case ev_data event of Fi_eq_cm_entry _ info _ \<Rightarrow> [info] | _ \<Rightarrow> []) else [])"

lemma remove_first_match_length: "slist_remove_first_match m xs = Some (y, ys) \<Longrightarrow> length xs = Suc (length ys)"
  by (induction xs arbitrary: ys) (auto split: if_splits option.splits)

function eq_remove_loop :: "fid \<Rightarrow> util_event list \<Rightarrow> util_event list \<times> nat list \<times> fi_info list" where
  "eq_remove_loop f xs =
    (case slist_remove_first_match (ofi_eq_match_fid_event f) xs of
       None \<Rightarrow> (xs, [], [])
     | Some (event, ys) \<Rightarrow>
         let (zs, freed, infos) = eq_remove_loop f ys in (zs, event_blocks event @ freed, event_info event @ infos))"
  by auto
termination by (relation "measure (length \<circ> snd)") (auto dest: remove_first_match_length)

definition ofi_eq_remove_fid_events :: "util_eq \<Rightarrow> fid \<Rightarrow> util_eq \<times> nat list \<times> fi_info list" where
  "ofi_eq_remove_fid_events eq f =
    (let (l, freed, infos) = eq_remove_loop f (eq_list eq) in (eq\<lparr>eq_list := l\<rparr>, freed, infos))"

subsection \<open>Opening and closing\<close>

definition ofi_eq_control :: "(fid \<Rightarrow> 'a fi_result) \<Rightarrow> util_eq \<Rightarrow> fi_command \<Rightarrow> 'a fi_result option" where
  "ofi_eq_control control eq command =
    (case command of FI_GETWAIT \<Rightarrow> map_option control (eq_wait eq) | _ \<Rightarrow> Some (Inl FI_ENOSYS))"

datatype (plugins only: code size) eq_effect =
    Eq_poll_del fid | Eq_close_wait fid | Eq_free_events nat | Eq_free_blocks "nat list" | Fabric_ref_dec | Free_eq

definition ofi_eq_cleanup :: "util_eq \<Rightarrow> unit fi_result \<times> eq_effect list" where
  "ofi_eq_cleanup eq =
    (if eq_ref eq \<noteq> 0 then (Inl FI_EBUSY, [])
     else (Inr (),
       [Eq_free_events (length (eq_list eq))] @
       (case eq_wait eq of
          None \<Rightarrow> [] | Some w \<Rightarrow> Eq_poll_del w # (if eq_internal_wait eq then [Eq_close_wait w] else [])) @
       [Eq_free_blocks (block_id (saved_err_data eq)), Fabric_ref_dec]))"

definition util_eq_close :: "util_eq \<Rightarrow> unit fi_result \<times> eq_effect list" where
  "util_eq_close eq =
    (case ofi_eq_cleanup eq of (Inl e, eff) \<Rightarrow> (Inl e, eff) | (Inr _, eff) \<Rightarrow> (Inr (), eff @ [Free_eq]))"

definition util_verify_eq_attr :: "fi_eq_attr \<Rightarrow> unit fi_result" where
  "util_verify_eq_attr attr =
    and_then
      (case eqa_wait_obj attr of
         FI_WAIT_SET \<Rightarrow> if eqa_wait_set attr = None then Inl FI_EINVAL else Inr ()
       | Other_wait_obj _ \<Rightarrow> Inl FI_EINVAL
       | _ \<Rightarrow> Inr ())
      (\<lambda>_. if eqa_flags attr AND NOT FI_WRITE \<noteq> 0 then Inl FI_EINVAL
           else if eqa_flags attr AND NOT (FI_AFFINITY OR FI_WRITE) \<noteq> 0 then Inl FI_EINVAL else Inr ())"

definition util_eq0 :: "u32 \<Rightarrow> util_eq" where
  "util_eq0 api_version = \<lparr>eq_api_version = api_version, eq_wait = None, eq_ref = 0, eq_list = [], saved_err_data = None,
    eq_internal_wait = False, eq_signals = 0\<rparr>"

definition util_eq_init :: "(fi_wait_obj \<Rightarrow> fid fi_result) \<Rightarrow> util_eq \<Rightarrow> fi_eq_attr \<Rightarrow> util_eq fi_result" where
  "util_eq_init wait_open eq attr =
    (let internal = and_then (wait_open (eqa_wait_obj attr)) (\<lambda>w. Inr (eq\<lparr>eq_internal_wait := True, eq_wait := Some w\<rparr>))
     in case eqa_wait_obj attr of
          FI_WAIT_NONE \<Rightarrow> Inr eq
        | FI_WAIT_SET \<Rightarrow> Inr (eq\<lparr>eq_wait := eqa_wait_set attr\<rparr>)
        | Other_wait_obj _ \<Rightarrow> Inl FI_EINVAL
        | _ \<Rightarrow> internal)"

text \<open>The result holds the queue and the new reference count of the fabric, or what was undone.\<close>

definition ofi_eq_init ::
    "(fi_wait_obj \<Rightarrow> fid fi_result) \<Rightarrow> (fid \<Rightarrow> unit fi_result) \<Rightarrow> u32 \<Rightarrow> u32 \<Rightarrow> fi_eq_attr \<Rightarrow>
      (fi_errno \<times> eq_effect list) + util_eq \<times> u32" where
  "ofi_eq_init wait_open poll_add api_version fabric_ref attr =
    (case and_then (util_verify_eq_attr attr) (\<lambda>_. util_eq_init wait_open (util_eq0 api_version) attr) of
       Inl e \<Rightarrow> Inl (e, [])
     | Inr eq \<Rightarrow>
         (case (case eq_wait eq of None \<Rightarrow> Inr () | Some w \<Rightarrow> poll_add w) of
            Inl e \<Rightarrow> Inl (e, snd (ofi_eq_cleanup eq))
          | Inr _ \<Rightarrow> Inr (eq, fabric_ref + 1)))"

definition ofi_eq_create ::
    "bool \<Rightarrow> (fi_wait_obj \<Rightarrow> fid fi_result) \<Rightarrow> (fid \<Rightarrow> unit fi_result) \<Rightarrow> u32 \<Rightarrow> u32 \<Rightarrow> fi_eq_attr \<Rightarrow>
      (fi_errno \<times> eq_effect list) + util_eq \<times> u32" where
  "ofi_eq_create calloc_ok wait_open poll_add api_version fabric_ref attr =
    (if \<not> calloc_ok then Inl (FI_ENOMEM, [])
     else case ofi_eq_init wait_open poll_add api_version fabric_ref attr of
            Inl (e, eff) \<Rightarrow> Inl (e, eff @ [Free_eq]) | Inr r \<Rightarrow> Inr r)"

subsection \<open>Removal\<close>

lemma remove_first_match_Some:
  "slist_remove_first_match m xs = Some (y, ys) \<Longrightarrow>
    \<exists>as bs. xs = as @ y # bs \<and> ys = as @ bs \<and> m y \<and> (\<forall>a \<in> set as. \<not> m a)"
proof (induction xs arbitrary: ys)
  case (Cons x xs)
  show ?case
  proof (cases "m x")
    case True
    then show ?thesis using Cons.prems by (intro exI [of _ "[]"] exI [of _ ys]) auto
  next
    case False
    then obtain zs where z: "slist_remove_first_match m xs = Some (y, zs)" "ys = x # zs"
      using Cons.prems by (auto split: option.splits)
    from Cons.IH [OF z(1)] obtain as bs where "xs = as @ y # bs" "zs = as @ bs" "m y" "\<forall>a \<in> set as. \<not> m a"
      by blast
    then show ?thesis using False z(2) by (intro exI [of _ "x # as"] exI [of _ bs]) simp
  qed
qed simp

lemma remove_first_match_None: "slist_remove_first_match m xs = None \<longleftrightarrow> (\<forall>x \<in> set xs. \<not> m x)"
  by (induction xs) (auto split: option.splits)

lemma eq_remove_loop_filter:
  "eq_remove_loop f xs =
    (filter (\<lambda>e. \<not> ofi_eq_match_fid_event f e) xs,
     concat (map event_blocks (filter (ofi_eq_match_fid_event f) xs)),
     concat (map event_info (filter (ofi_eq_match_fid_event f) xs)))"
proof (induction f xs rule: eq_remove_loop.induct)
  case (1 f xs)
  show ?case
  proof (cases "slist_remove_first_match (ofi_eq_match_fid_event f) xs")
    case None
    then have "\<forall>x \<in> set xs. \<not> ofi_eq_match_fid_event f x" by (simp add: remove_first_match_None)
    then show ?thesis using None by (subst eq_remove_loop.simps) simp
  next
    case (Some p)
    obtain y ys where p: "p = (y, ys)" by (cases p)
    obtain as bs where s: "xs = as @ y # bs" "ys = as @ bs" "ofi_eq_match_fid_event f y"
        "\<forall>a \<in> set as. \<not> ofi_eq_match_fid_event f a"
      using remove_first_match_Some Some p by metis
    have "filter (ofi_eq_match_fid_event f) as = []" using s(4) by (simp add: filter_empty_conv)
    then show ?thesis using 1 [OF Some p [symmetric]] Some p s by (subst eq_remove_loop.simps) simp
  qed
qed

declare eq_remove_loop.simps [simp del]

subsection \<open>The event queue as an ordered source\<close>

text \<open>What the writer of an event owes: the size is one that an \<open>int\<close> holds, the event is an error if and
  only if its data is an error entry, and then the size is that of an error entry and the block of
  details has the size stated for it.  What the reader owes: the block in its error entry, if any, has
  the size stated for it.\<close>

definition err_data_ok :: "fi_eq_err_entry \<Rightarrow> bool" where
  "err_data_ok err \<longleftrightarrow> unat (eqe_err_data_size err) \<le> length (block_bytes (eqe_err_data err))"

definition event_ok :: "util_event \<Rightarrow> bool" where
  "event_ok e \<longleftrightarrow> 0 \<le> sint (ev_size e) \<and>
    (case ev_data e of
       Fi_eq_err_entry err \<Rightarrow> ev_err e \<and> scast (ev_size e) = sizeof_err_entry \<and> err_data_ok err
     | _ \<Rightarrow> \<not> ev_err e)"

definition user_ok :: "fi_eq_err_entry \<Rightarrow> bool" where
  "user_ok buf \<longleftrightarrow> eqe_err_data buf = None \<or> err_data_ok buf"

definition eq_inv :: "util_eq \<Rightarrow> bool" where
  "eq_inv eq \<longleftrightarrow> (\<forall>e \<in> set (eq_list eq). event_ok e)"

text \<open>The application reads an event into a buffer of \<open>len\<close> bytes, and an error with the entry \<open>buf\<close>.\<close>

definition eq_view :: "size_t \<Rightarrow> fi_eq_err_entry \<Rightarrow> util_eq \<Rightarrow> util_event \<Rightarrow> u32 option \<times> eq_out" where
  "eq_view len buf eq e =
    (case ev_data e of
       Fi_eq_err_entry err \<Rightarrow>
         (None, case ofi_eq_handle_err_entry (eq_api_version eq) UTIL_FLAG_ERROR err buf of
                  None \<Rightarrow> Eq_none | Some (user, _) \<Rightarrow> Eq_err_out user)
     | d \<Rightarrow> (Some (ev_event e), Eq_bytes (min len (scast (ev_size e))) d))"

definition eq_post :: "util_eq \<Rightarrow> util_event \<Rightarrow> util_eq" where
  "eq_post eq e =
    snd (ofi_eq_write True eq (ev_event e) (ev_data e) (scast (ev_size e)) (if ev_err e then UTIL_FLAG_ERROR else 0))"

definition eq_poll :: "size_t \<Rightarrow> fi_eq_err_entry \<Rightarrow> util_eq \<Rightarrow> size_t \<Rightarrow> ((u32 option \<times> eq_out) list \<times> util_eq) option" where
  "eq_poll len buf eq n =
    (if n = 0 then Some ([], eq)
     else case ofi_eq_read eq True (Some (len, buf)) 0 of
            None \<Rightarrow> None
          | Some (Inr _, ev, out, eq1, _) \<Rightarrow> Some ([(ev, out)], eq1)
          | Some (Inl e, _, _, eq1, _) \<Rightarrow>
              if e = FI_EAVAIL
              then (case ofi_eq_readerr eq1 buf 0 of
                      Some (Inr _, ev, out, eq2, _) \<Rightarrow> Some ([(ev, out)], eq2)
                    | Some (Inl _, _, _, eq2, _) \<Rightarrow> Some ([], eq2)
                    | None \<Rightarrow> None)
              else Some ([], eq1))"

lemma ucast_scast_int: "ucast (scast (x :: c_int) :: u64) = x"
proof -
  have "ucast (scast x :: u64) = (word_of_int (sint x) :: c_int)" by (simp only: scast_eq ucast_word_of_int)
  then show ?thesis by simp
qed

lemma peek_flag_error: "UTIL_FLAG_ERROR AND FI_PEEK = 0" "UTIL_FLAG_ERROR AND UTIL_FLAG_ERROR \<noteq> 0"
  by (simp_all add: fi_consts)

lemma eq_post_list:
  "eq_list (eq_post eq e) = eq_list eq @ [e]" "eq_api_version (eq_post eq e) = eq_api_version eq"
  "saved_err_data (eq_post eq e) = saved_err_data eq"
  by (cases "eq_wait eq"; cases e; simp add: eq_post_def ofi_eq_write_def Let_def ucast_scast_int peek_flag_error)+

lemma eq_view_cong: "eq_api_version eq' = eq_api_version eq \<Longrightarrow> eq_view len buf eq' = eq_view len buf eq"
  by (rule ext) (simp add: eq_view_def split: eq_data.split)

lemma min_size_le: "unat a \<le> m \<Longrightarrow> unat (min a b) \<le> m" "unat b \<le> m \<Longrightarrow> unat (min a b) \<le> m" for a b :: size_t
  by (auto simp: min_def word_le_nat_alt)

lemma handle_err_total:
  assumes "err_data_ok err" and "user_ok user"
  obtains user' err' freed where "ofi_eq_handle_err_entry v flags err user = Some (user', err', freed)"
proof -
  have "ofi_eq_handle_err_entry v flags err user \<noteq> None"
    using assms min_size_le
    by (auto simp: ofi_eq_handle_err_entry_def Let_def user_ok_def err_data_ok_def block_bytes_def not_less)
  then show thesis using that by (cases "ofi_eq_handle_err_entry v flags err user") auto
qed

lemma eq_poll_cases:
  assumes "eq_inv eq" and "n \<noteq> 0" and user: "user_ok buf"
  shows "case eq_list eq of
      [] \<Rightarrow> eq_poll len buf eq n = Some ([], eq)
    | e # es \<Rightarrow> \<exists>eq'. eq_poll len buf eq n = Some ([eq_view len buf eq e], eq') \<and> eq_list eq' = es \<and>
        eq_api_version eq' = eq_api_version eq"
proof (cases "eq_list eq")
  case Nil
  then show ?thesis using assms(2) by (simp add: eq_poll_def ofi_eq_read_def)
next
  case (Cons e es)
  then have ok: "event_ok e" using assms(1) by (simp add: eq_inv_def)
  show ?thesis
  proof (cases "ev_err e")
    case True
    then obtain err where err: "ev_data e = Fi_eq_err_entry err" "scast (ev_size e) = sizeof_err_entry" "err_data_ok err"
      using ok by (auto simp: event_ok_def split: eq_data.splits)
    obtain u en fr where h: "ofi_eq_handle_err_entry (eq_api_version eq) UTIL_FLAG_ERROR err buf = Some (u, en, fr)"
      using handle_err_total [OF err(3) user] .
    have "ofi_eq_readerr eq buf 0 = Some (Inr (scast (ev_size e)), None, Eq_err_out u,
        eq\<lparr>saved_err_data := eqe_err_data en, eq_list := es\<rparr>, block_id (saved_err_data eq) @ fr)"
      using True Cons err h by (simp add: ofi_eq_readerr_def ofi_eq_read_def peek_flag_error)
    moreover have "ofi_eq_read eq True (Some (len, buf)) 0 = Some (Inl FI_EAVAIL, None, Eq_none, eq, [])"
      using True Cons by (simp add: ofi_eq_read_def)
    ultimately show ?thesis using Cons assms(2) err h by (simp add: eq_poll_def eq_view_def)
  next
    case False
    then show ?thesis using Cons assms(2) ok
      by (cases "ev_data e") (auto simp: eq_poll_def eq_view_def ofi_eq_read_def event_ok_def Let_def)
  qed
qed

interpretation eqo: ordered_source "\<lambda>eq. eq_inv eq \<and> user_ok buf" "\<lambda>eq. map (eq_view len buf eq) (eq_list eq)" "eq_view len buf"
  "\<lambda>_. event_ok" eq_post "eq_poll len buf" for len buf
proof unfold_locales
  fix s i assume s: "eq_inv s \<and> user_ok buf" "event_ok i"
  have v: "eq_view len buf (eq_post s i) = eq_view len buf s" by (rule eq_view_cong) (simp add: eq_post_list)
  show "map (eq_view len buf (eq_post s i)) (eq_list (eq_post s i)) =
      map (eq_view len buf s) (eq_list s) @ [eq_view len buf s i]" unfolding v by (simp add: eq_post_list)
  show "(eq_inv (eq_post s i) \<and> user_ok buf) \<and> eq_view len buf (eq_post s i) = eq_view len buf s \<and>
      mset (map (eq_view len buf (eq_post s i)) (eq_list (eq_post s i))) =
      add_mset (eq_view len buf s i) (mset (map (eq_view len buf s) (eq_list s)))"
    unfolding v using s by (simp add: eq_post_list eq_inv_def)
next
  fix s n assume inv: "eq_inv s \<and> user_ok buf"
  then have s: "eq_inv s" and user: "user_ok buf" by simp_all
  show "\<exists>os s'. eq_poll len buf s n = Some (os, s') \<and> (eq_inv s' \<and> user_ok buf) \<and> eq_view len buf s' = eq_view len buf s \<and>
      map (eq_view len buf s) (eq_list s) = os @ map (eq_view len buf s') (eq_list s') \<and>
      (n \<noteq> 0 \<longrightarrow> map (eq_view len buf s) (eq_list s) \<noteq> [] \<longrightarrow> os \<noteq> [])"
  proof (cases "n = 0")
    case True
    then show ?thesis using inv by (simp add: eq_poll_def)
  next
    case False
    show ?thesis
    proof (cases "eq_list s")
      case Nil
      then show ?thesis using eq_poll_cases [OF s False user, of len] inv by simp
    next
      case (Cons e es)
      then obtain s' where p: "eq_poll len buf s n = Some ([eq_view len buf s e], s')" "eq_list s' = es"
          "eq_api_version s' = eq_api_version s"
        using eq_poll_cases [OF s False user, of len] by auto
      then show ?thesis using inv Cons eq_view_cong [OF p(3), of len buf] by (simp add: eq_inv_def)
    qed
  qed
qed

subsection \<open>Ownership of error data\<close>

text \<open>The blocks that a queue owns.\<close>

definition eq_blocks :: "util_eq \<Rightarrow> nat list" where
  "eq_blocks eq = concat (map event_blocks (eq_list eq)) @ block_id (saved_err_data eq)"

text \<open>The states of a queue together with the blocks released so far, under writes of events whose error
  data is a fresh block, reads with any buffer and flags, and removals.\<close>

inductive eq_reachable :: "util_eq \<Rightarrow> nat list \<Rightarrow> bool" where
  opened: "eq_list eq = [] \<Longrightarrow> saved_err_data eq = None \<Longrightarrow> eq_reachable eq []"
| written: "eq_reachable eq freed \<Longrightarrow> event_ok e \<Longrightarrow> set (event_blocks e) \<inter> set (freed @ eq_blocks eq) = {} \<Longrightarrow>
    eq_reachable (eq_post eq e) freed"
| was_read: "eq_reachable eq freed \<Longrightarrow> ofi_eq_read eq event buf flags = Some (r, ev, out, eq', f) \<Longrightarrow>
    eq_reachable eq' (freed @ f)"
| removed: "eq_reachable eq freed \<Longrightarrow> ofi_eq_remove_fid_events eq x = (eq', f, infos) \<Longrightarrow>
    eq_reachable eq' (freed @ f)"

lemma handle_err_blocks:
  assumes "ofi_eq_handle_err_entry v flags e u = Some (u', e', f)"
  shows "mset f + mset (block_id (eqe_err_data e')) = mset (block_id (eqe_err_data e))"
    and "flags AND FI_PEEK \<noteq> 0 \<Longrightarrow> e' = e \<and> f = []"
  using assms by (auto simp: ofi_eq_handle_err_entry_def Let_def block_id_def split: if_splits prod.splits)

lemma read_blocks:
  assumes inv: "eq_inv eq" and rd: "ofi_eq_read eq event buf flags = Some (r, ev, out, eq', f)"
  shows "eq_inv eq'" and "mset f + mset (eq_blocks eq') \<subseteq># mset (eq_blocks eq)"
proof -
  have "eq_inv eq' \<and> mset f + mset (eq_blocks eq') \<subseteq># mset (eq_blocks eq)"
  proof (cases "eq_list eq")
    case Nil
    then show ?thesis using rd inv by (simp add: ofi_eq_read_def)
  next
    case (Cons e es)
    then have ok: "event_ok e" "\<forall>e \<in> set es. event_ok e" using inv by (simp_all add: eq_inv_def)
    show ?thesis
    proof (cases "buf \<noteq> None \<and> ev_err e \<and> flags AND UTIL_FLAG_ERROR \<noteq> 0")
      case True
      then obtain len user err where b: "buf = Some (len, user)" and err: "ev_data e = Fi_eq_err_entry err"
        using ok(1) by (auto simp: event_ok_def split: eq_data.splits)
      obtain u en fr where h: "ofi_eq_handle_err_entry (eq_api_version eq) flags err user = Some (u, en, fr)"
        using rd True Cons b err by (auto simp: ofi_eq_read_def Let_def split: if_splits option.splits)
      note hb = handle_err_blocks [OF h]
      have ev: "event_blocks e = block_id (eqe_err_data err)" using True err by (simp add: event_blocks_def)
      show ?thesis
        using rd True Cons b err h hb ok ev
        by (cases "flags AND FI_PEEK = 0")
          (auto simp: ofi_eq_read_def eq_inv_def eq_blocks_def event_blocks_def event_ok_def block_id_def [of None])
    next
      case False
      then show ?thesis
        using rd Cons inv ok
        by (auto simp: ofi_eq_read_def Let_def eq_inv_def eq_blocks_def split: if_splits option.splits prod.splits)
    qed
  qed
  then show "eq_inv eq'" "mset f + mset (eq_blocks eq') \<subseteq># mset (eq_blocks eq)" by blast+
qed

lemma mset_filter_blocks:
  "mset (concat (map event_blocks (filter P xs))) + mset (concat (map event_blocks (filter (\<lambda>e. \<not> P e) xs))) =
    mset (concat (map event_blocks xs))"
  by (induction xs) auto

lemma distinct_submset:
  assumes "mset xs \<subseteq># mset ys" and "distinct ys"
  shows "distinct xs"
proof -
  have "count (mset xs) a = (if a \<in> set xs then 1 else 0)" for a
  proof (cases "a \<in> set xs")
    case True
    have "count (mset ys) a \<le> 1" using assms(2) by (simp add: distinct_count_atmost_1)
    then have "count (mset xs) a \<le> 1" using mset_subset_eq_count [OF assms(1), of a] by linarith
    moreover have "0 < count (mset xs) a" using True by (simp add: count_greater_zero_iff)
    ultimately have "count (mset xs) a = 1" by linarith
    then show ?thesis using True by (simp only: if_True)
  next
    case False
    then have "count (mset xs) a = 0" by (simp only: count_eq_zero_iff set_mset_mset not_False_eq_True)
    then show ?thesis using False by (simp only: if_False)
  qed
  then show ?thesis by (simp add: distinct_count_atmost_1)
qed

lemma eq_reachable_inv:
  "eq_reachable eq freed \<Longrightarrow> eq_inv eq \<and> distinct (freed @ eq_blocks eq)"
proof (induction rule: eq_reachable.induct)
  case (opened eq)
  then show ?case by (simp add: eq_inv_def eq_blocks_def block_id_def)
next
  case (written eq freed e)
  have "distinct (event_blocks e)" by (simp add: event_blocks_def block_id_def split: eq_data.splits option.splits)
  moreover have "mset (freed @ eq_blocks (eq_post eq e)) = mset (freed @ eq_blocks eq) + mset (event_blocks e)"
    by (simp add: eq_blocks_def eq_post_list)
  then have "mset (freed @ eq_blocks (eq_post eq e)) = mset (event_blocks e @ freed @ eq_blocks eq)" by simp
  ultimately have "distinct (freed @ eq_blocks (eq_post eq e))"
    using written(3,4) mset_eq_imp_distinct_iff by (metis distinct_append)
  then show ?case using written(2,4) by (simp add: eq_inv_def eq_post_list)
next
  case (was_read eq freed event buf flags r ev out eq' f)
  note rb = read_blocks [OF _ was_read(2)]
  have "mset ((freed @ f) @ eq_blocks eq') \<subseteq># mset (freed @ eq_blocks eq)"
    using rb(2) was_read(3) by (simp add: add.assoc)
  then show ?case using was_read(3) rb(1) distinct_submset by blast
next
  case (removed eq freed x eq' f infos)
  let ?m = "ofi_eq_match_fid_event x"
  have l: "eq_list eq' = filter (\<lambda>e. \<not> ?m e) (eq_list eq)" and f: "f = concat (map event_blocks (filter ?m (eq_list eq)))"
    and "saved_err_data eq' = saved_err_data eq"
    using removed(2) by (auto simp: ofi_eq_remove_fid_events_def eq_remove_loop_filter)
  then have "mset ((freed @ f) @ eq_blocks eq') = mset (freed @ eq_blocks eq)"
    using mset_filter_blocks [of ?m "eq_list eq"] by (simp add: eq_blocks_def add.assoc [symmetric])
  then show ?case using removed(3) l distinct_submset [of "(freed @ f) @ eq_blocks eq'" "freed @ eq_blocks eq"]
    by (simp add: eq_inv_def)
qed

definition buf_ok :: "(size_t \<times> fi_eq_err_entry) option \<Rightarrow> bool" where
  "buf_ok buf \<longleftrightarrow> (case buf of None \<Rightarrow> True | Some (_, user) \<Rightarrow> user_ok user)"

lemma eq_read_total:
  assumes "eq_inv eq" and "buf_ok buf"
  shows "\<exists>r ev out eq' f. ofi_eq_read eq event buf flags = Some (r, ev, out, eq', f)"
proof (cases "eq_list eq")
  case (Cons e es)
  then have ok: "event_ok e" using assms by (simp add: eq_inv_def)
  show ?thesis
  proof (cases "buf \<noteq> None \<and> ev_err e \<and> flags AND UTIL_FLAG_ERROR \<noteq> 0")
    case True
    then obtain len user err where b: "buf = Some (len, user)" "user_ok user"
      and err: "ev_data e = Fi_eq_err_entry err" "scast (ev_size e) = sizeof_err_entry" "err_data_ok err"
      using ok assms(2) by (auto simp: event_ok_def buf_ok_def split: eq_data.splits)
    obtain u en fr where "ofi_eq_handle_err_entry (eq_api_version eq) flags err user = Some (u, en, fr)"
      using handle_err_total [OF err(3) b(2)] .
    then show ?thesis using True Cons b err by (simp add: ofi_eq_read_def Let_def)
  next
    case False
    then show ?thesis using Cons by (auto simp: ofi_eq_read_def Let_def split: option.splits)
  qed
qed (simp add: ofi_eq_read_def)

lemma eq_init_empty:
  "ofi_eq_init wait_open poll_add v ref attr = Inr (eq, ref') \<Longrightarrow> eq_list eq = [] \<and> saved_err_data eq = None"
  by (auto simp: ofi_eq_init_def util_eq_init_def util_eq0_def Let_def and_then_Inr_iff
      split: sum.splits fi_wait_obj.splits)

subsection \<open>Blocking reads\<close>

interpretation eqw: polling_loop "eq_sread_loop now wait event buf flags endtime"
  "eq_sread_round now wait event buf flags endtime" for now wait event buf flags endtime
  by unfold_locales simp_all

lemma eq_sread_round_cases:
  assumes eq: "eq_inv eq" and buf: "buf_ok buf" and w: "\<And>t c. eq_inv c \<Longrightarrow> eq_inv (fst (wait k t c))" and t: "0 \<le> sint timeout"
  shows "(\<exists>t' eq'. eq_sread_round now wait event buf flags endtime k (timeout, eq) = Inr (t', eq') \<and> eq_inv eq' \<and> 0 \<le> sint t' \<and>
      snd (ofi_adjust_timeout (now k) endtime timeout) = Inr ()) \<or>
    (\<exists>r. eq_sread_round now wait event buf flags endtime k (timeout, eq) = Inl (Some r))"
proof -
  obtain r ev out eq1 f where rd: "ofi_eq_read eq event buf flags = Some (r, ev, out, eq1, f)" using eq_read_total [OF eq buf] by blast
  have eq1: "eq_inv eq1" using read_blocks(1) [OF eq rd] .
  obtain t1 a where adj: "ofi_adjust_timeout (now k) endtime timeout = (t1, a)"
    by (cases "ofi_adjust_timeout (now k) endtime timeout")
  obtain eq2 b where wt: "wait k t1 eq1 = (eq2, b)" by (cases "wait k t1 eq1")
  have "eq_inv eq2" using w [OF eq1, of t1] wt by simp
  moreover have "0 \<le> sint t1" if "a = Inr ()"
    using adjust_timeout_keeps_sign [of "now k" endtime timeout t1] adj that t by simp
  ultimately show ?thesis
    by (cases "r = Inl FI_EAGAIN"; cases a; cases b) (auto simp: eq_sread_round_def rd adj wt)
qed

text \<open>A blocking read with a timeout on a queue with its own wait object returns by the round in which the
  clock has reached the deadline.\<close>

lemma eq_sread_returns:
  assumes "eq_inv eq" and "buf_ok buf" and "0 \<le> sint timeout" and "sint timeout \<le> int e" and "e < 2 ^ 31"
    and "now n = start + of_nat e" and w: "\<And>k t c. eq_inv c \<Longrightarrow> eq_inv (fst (wait k t c))"
  shows "\<exists>r. ofi_eq_sread (Suc n) now wait start eq event buf timeout flags = Some (Some r)"
proof -
  let ?dl = "ofi_timeout_time start timeout"
  define I :: "nat \<Rightarrow> c_int \<times> util_eq \<Rightarrow> bool" where "I k s \<longleftrightarrow> eq_inv (snd s) \<and> 0 \<le> sint (fst s)" for k s
  have round: "(\<exists>s'. eq_sread_round now wait event buf flags ?dl k s = Inr s' \<and> I (Suc k) s' \<and>
        snd (ofi_adjust_timeout (now k) ?dl (fst s)) = Inr ()) \<or>
      (\<exists>r. eq_sread_round now wait event buf flags ?dl k s = Inl (Some r))" if "I k s" for k s
    using eq_sread_round_cases [where wait = wait and k = k, OF _ assms(2) w, of "snd s" "fst s" now event flags ?dl] that by (auto simp: I_def)
  have stop: "snd (ofi_adjust_timeout (now n) ?dl t) \<noteq> Inr ()" if "0 \<le> sint t" for t
    using that assms remaining_time [OF assms(3,5), of start]
    by (simp add: ofi_adjust_timeout_def ofi_timeout_time_def Let_def)
  have "\<exists>r j t. eq_sread_loop now wait event buf flags ?dl (Suc n - 0) 0 (timeout, eq) = Some r \<and> j \<le> n \<and> I j t \<and>
      eq_sread_round now wait event buf flags ?dl j t = Inl r"
    by (rule eqw.returns_by) (use round stop assms(1,3) in \<open>fastforce simp: I_def\<close>)+
  then show ?thesis using round by (fastforce simp: ofi_eq_sread_def)
qed

subsection \<open>Properties\<close>

definition ex_eq_attr :: fi_eq_attr where
  "ex_eq_attr = \<lparr>eqa_size = 0, eqa_flags = 0, eqa_wait_obj = FI_WAIT_NONE, eqa_wait_set = None\<rparr>"

definition ex_eq_err :: fi_eq_err_entry where
  "ex_eq_err = \<lparr>eqe_fid = 7, eqe_context = 0, eqe_data = 0, eqe_err = 5, eqe_prov_errno = 5,
    eqe_err_data = Some (1, [1, 2]), eqe_err_data_size = 2\<rparr>"

definition ex_event :: util_event where
  "ex_event = \<lparr>ev_size = 24, ev_event = 4, ev_err = False, ev_data = Fi_eq_entry 7 0 9\<rparr>"

definition ex_err_event :: util_event where
  "ex_err_event = \<lparr>ev_size = 48, ev_event = 0, ev_err = True, ev_data = Fi_eq_err_entry ex_eq_err\<rparr>"

lemma ex_eq_ok: "event_ok ex_event" "event_ok ex_err_event" "user_ok ex_eq_err"
  by (simp_all add: event_ok_def user_ok_def err_data_ok_def block_bytes_def sizeof_err_entry_def ex_event_def
      ex_err_event_def ex_eq_err_def)

lemma ex_eq_init:
  "ofi_eq_init (\<lambda>_. Inl FI_ENOSYS) (\<lambda>_. Inr ()) (FI_VERSION 1 9) 0 ex_eq_attr = Inr (util_eq0 (FI_VERSION 1 9), 1)"
  by (simp add: ofi_eq_init_def util_verify_eq_attr_def util_eq_init_def ex_eq_attr_def util_eq0_def)

text \<open>C4. The event queue delivers events and errors in the order they were written and loses none.  Run
  any sequence of writes and of polls (a read, followed by \<open>fi_eq_readerr\<close> if it reports
  \<open>FI_EAVAIL\<close>) on a queue as \<open>ofi_eq_init\<close> opens it: what the application has seen, followed by what
  the queue still holds, is what was written, and polling on delivers the rest.  The application's
  error entry says no more of its block than is there (\<open>user_ok\<close>), and an error is written with the
  size of an error entry and no larger block than it says (\<open>event_ok\<close>): otherwise the read fails its
  assertion or copies beyond a block.\<close>

theorem eq_delivers_in_order:
  assumes "ofi_eq_init wait_open poll_add v ref attr = Inr (eq, ref')" and "n \<noteq> 0" and "user_ok buf"
  shows "\<exists>seen eq'. eqo.run len buf eq ops = Some (seen, eq') \<and>
    seen @ map (eq_view len buf eq') (eq_list eq') = eqo.accepted len buf eq ops \<and>
    (\<exists>k eq''. eqo.run len buf eq' (replicate k (Take n)) = Some (map (eq_view len buf eq') (eq_list eq'), eq'') \<and>
      eq_list eq'' = [])"
proof -
  have e: "eq_list eq = []" using eq_init_empty [OF assms(1)] by simp
  then have "eq_inv eq \<and> user_ok buf" using assms(3) by (simp add: eq_inv_def)
  from eqo.run_ordered [OF this, of len ops] e obtain seen eq' where
    r: "eqo.run len buf eq ops = Some (seen, eq')" "eq_inv eq' \<and> user_ok buf"
      "seen @ map (eq_view len buf eq') (eq_list eq') = eqo.accepted len buf eq ops" by auto
  then show ?thesis using eqo.run_drains [OF r(2) assms(2), of len] by auto
qed

theorem eq_delivers_in_order_witness:
  "\<exists>seen eq'. eqo.run 24 ex_eq_err (util_eq0 (FI_VERSION 1 9)) [Post ex_event, Post ex_err_event, Take 1] = Some (seen, eq') \<and>
    seen @ map (eq_view 24 ex_eq_err eq') (eq_list eq') =
      map (eq_view 24 ex_eq_err (util_eq0 (FI_VERSION 1 9))) [ex_event, ex_err_event]"
proof -
  have "eq_view 24 ex_eq_err (eq_post (util_eq0 (FI_VERSION 1 9)) ex_event) = eq_view 24 ex_eq_err (util_eq0 (FI_VERSION 1 9))"
    by (rule eq_view_cong) (simp add: eq_post_list)
  then have "eqo.accepted 24 ex_eq_err (util_eq0 (FI_VERSION 1 9)) [Post ex_event, Post ex_err_event, Take 1] =
      map (eq_view 24 ex_eq_err (util_eq0 (FI_VERSION 1 9))) [ex_event, ex_err_event]"
    by (simp add: ex_eq_ok split: option.split)
  then show ?thesis
    using eq_delivers_in_order [OF ex_eq_init, of 1 ex_eq_err 24 "[Post ex_event, Post ex_err_event, Take 1]"]
      ex_eq_ok(3) by auto
qed

text \<open>C11. The details of an error are released at most once.  In every state that a queue can reach by
  writing events whose error data are fresh blocks, reading with any buffer and flags (peeking
  included) and removing the events of an object, the blocks released so far and the blocks the queue
  still owns are all different.  If every event was written as \<open>event_ok\<close> says (an error with the size
  of an error entry and a block of at least the size stated) and the reader's block has the size
  stated for it, the next read is defined: it passes its assertion on the size and copies within
  both blocks.\<close>

theorem eq_blocks_released_once:
  assumes "eq_reachable eq freed"
  shows "distinct (freed @ eq_blocks eq) \<and>
    (buf_ok buf \<longrightarrow> ofi_eq_read eq event buf flags \<noteq> None)"
proof (intro conjI impI)
  show "distinct (freed @ eq_blocks eq)" using eq_reachable_inv [OF assms] by blast
  show "ofi_eq_read eq event buf flags \<noteq> None" if "buf_ok buf"
    using eq_reachable_inv [OF assms] eq_read_total [OF _ that, of eq event flags] by auto
qed

theorem eq_blocks_released_once_witness:
  "distinct ([] @ eq_blocks (eq_post (util_eq0 (FI_VERSION 1 9)) ex_err_event)) \<and>
    ofi_eq_read (eq_post (util_eq0 (FI_VERSION 1 9)) ex_err_event) True (Some (48, ex_eq_err)) UTIL_FLAG_ERROR \<noteq> None"
proof -
  have "eq_reachable (util_eq0 (FI_VERSION 1 9)) []" by (rule opened) (simp_all add: util_eq0_def)
  then have "eq_reachable (eq_post (util_eq0 (FI_VERSION 1 9)) ex_err_event) []"
    by (rule written) (simp_all add: ex_eq_ok util_eq0_def eq_blocks_def block_id_def)
  from eq_blocks_released_once [OF this, of "Some (48, ex_eq_err)" True UTIL_FLAG_ERROR] show ?thesis
    by (simp add: buf_ok_def ex_eq_ok)
qed

text \<open>C32. Closing an object removes exactly its events.  \<open>ofi_eq_remove_fid_events\<close>, a loop that removes
  the first match until there is none, keeps the events that do not match, in order, and releases the
  error data and the connection information of those that do.\<close>

theorem remove_fid_events_filters:
  "ofi_eq_remove_fid_events eq f =
    (eq\<lparr>eq_list := filter (\<lambda>e. \<not> ofi_eq_match_fid_event f e) (eq_list eq)\<rparr>,
     concat (map event_blocks (filter (ofi_eq_match_fid_event f) (eq_list eq))),
     concat (map event_info (filter (ofi_eq_match_fid_event f) (eq_list eq))))"
  by (simp add: ofi_eq_remove_fid_events_def eq_remove_loop_filter)

text \<open>The attribute check refuses \<open>FI_AFFINITY\<close> in its first test of the flags; the second test and the
  message that the signalling vector is ignored are never reached.\<close>

lemma verify_eq_attr_refuses_affinity: "eqa_flags attr = FI_AFFINITY \<Longrightarrow> util_verify_eq_attr attr = Inl FI_EINVAL"
  by (auto simp: util_verify_eq_attr_def fi_consts split: fi_wait_obj.splits)

end
