(* ===== verification/Ofi_Cntr.thy ===== *)
theory Ofi_Cntr
  imports Ofi_Cq
begin

unbundle bit_operations_syntax

section \<open>Counters (\<^verbatim>\<open>prov/util/src/util_cntr.c\<close>)\<close>

text \<open>
  Completion counters: two 64-bit counts, of completions and of errors, that wrap around, and a wait
  object.  \<open>progress\<close> stands for the progress function of the counter with what other threads do to it
  meanwhile.
\<close>

subsection \<open>Operations\<close>

record fi_cntr_attr =
  cna_flags :: u64
  cna_wait_obj :: fi_wait_obj
  cna_wait_set :: "fid option"

record util_cntr =
  cntr_wait :: "fid option"
  cntr_ref :: u32
  cntr_cnt :: u64
  cntr_err :: u64
  cntr_ep_list :: "fid list"
  cntr_internal_wait :: bool
  cntr_can_wait :: bool
  cntr_signals :: nat

definition ofi_check_cntr_attr :: "fi_cntr_attr option \<Rightarrow> unit fi_result" where
  "ofi_check_cntr_attr attr =
    (case attr of
       None \<Rightarrow> Inr ()
     | Some a \<Rightarrow>
         if cna_flags a \<noteq> 0 then Inl FI_EINVAL
         else case cna_wait_obj a of
                FI_WAIT_NONE \<Rightarrow> Inr ()
              | FI_WAIT_YIELD \<Rightarrow> Inr ()
              | FI_WAIT_SET \<Rightarrow> if cna_wait_set a = None then Inl FI_EINVAL else Inr ()
              | FI_WAIT_UNSPEC \<Rightarrow> Inr ()
              | FI_WAIT_FD \<Rightarrow> Inr ()
              | _ \<Rightarrow> Inl FI_EINVAL)"

definition ofi_cntr_read :: "(util_cntr \<Rightarrow> util_cntr) \<Rightarrow> util_cntr \<Rightarrow> u64 \<times> util_cntr" where
  "ofi_cntr_read progress cntr = (let c = progress cntr in (cntr_cnt c, c))"

definition ofi_cntr_readerr :: "(util_cntr \<Rightarrow> util_cntr) \<Rightarrow> util_cntr \<Rightarrow> u64 \<times> util_cntr" where
  "ofi_cntr_readerr progress cntr = (let c = progress cntr in (cntr_err c, c))"

definition cntr_signal_if :: "util_cntr \<Rightarrow> util_cntr" where
  "cntr_signal_if cntr =
    (case cntr_wait cntr of None \<Rightarrow> cntr | Some _ \<Rightarrow> cntr\<lparr>cntr_signals := Suc (cntr_signals cntr)\<rparr>)"

definition ofi_cntr_add :: "util_cntr \<Rightarrow> u64 \<Rightarrow> util_cntr" where
  "ofi_cntr_add cntr v = cntr_signal_if (cntr\<lparr>cntr_cnt := cntr_cnt cntr + v\<rparr>)"

definition ofi_cntr_adderr :: "util_cntr \<Rightarrow> u64 \<Rightarrow> util_cntr" where
  "ofi_cntr_adderr cntr v = cntr_signal_if (cntr\<lparr>cntr_err := cntr_err cntr + v\<rparr>)"

definition ofi_cntr_set :: "util_cntr \<Rightarrow> u64 \<Rightarrow> util_cntr" where
  "ofi_cntr_set cntr v = cntr_signal_if (cntr\<lparr>cntr_cnt := v\<rparr>)"

definition ofi_cntr_seterr :: "util_cntr \<Rightarrow> u64 \<Rightarrow> util_cntr" where
  "ofi_cntr_seterr cntr v = cntr_signal_if (cntr\<lparr>cntr_err := v\<rparr>)"

definition util_cntr_signal :: "util_cntr \<Rightarrow> util_cntr option" where
  "util_cntr_signal cntr =
    (case cntr_wait cntr of None \<Rightarrow> None | Some _ \<Rightarrow> Some (cntr\<lparr>cntr_signals := Suc (cntr_signals cntr)\<rparr>))"

definition ofi_cntr_inc_noop :: "util_cntr \<Rightarrow> util_cntr" where
  "ofi_cntr_inc_noop cntr = cntr"

definition ofi_cntr_inc :: "util_cntr \<Rightarrow> util_cntr" where
  "ofi_cntr_inc cntr = ofi_cntr_add cntr 1"

definition ofi_cntr_progress :: "(fid \<Rightarrow> util_cntr \<Rightarrow> util_cntr) \<Rightarrow> util_cntr \<Rightarrow> util_cntr" where
  "ofi_cntr_progress ep_progress cntr = fold ep_progress (cntr_ep_list cntr) cntr"

subsection \<open>Waiting\<close>






subsection \<open>Opening and closing\<close>

datatype (plugins only: code size) cntr_effect = Cntr_poll_del fid | Cntr_close_wait fid | Cntr_domain_ref_dec

definition ofi_cntr_cleanup :: "util_cntr \<Rightarrow> unit fi_result \<times> cntr_effect list" where
  "ofi_cntr_cleanup cntr =
    (if cntr_ref cntr \<noteq> 0 then (Inl FI_EBUSY, [])
     else (Inr (),
       (case cntr_wait cntr of
          None \<Rightarrow> [] | Some w \<Rightarrow> Cntr_poll_del w # (if cntr_internal_wait cntr then [Cntr_close_wait w] else [])) @
       [Cntr_domain_ref_dec]))"

definition util_cntr_close :: "util_cntr \<Rightarrow> unit fi_result \<times> cntr_effect list" where
  "util_cntr_close cntr = ofi_cntr_cleanup cntr"

definition util_cntr0 :: util_cntr where
  "util_cntr0 = \<lparr>cntr_wait = None, cntr_ref = 0, cntr_cnt = 0, cntr_err = 0, cntr_ep_list = [], cntr_internal_wait = False,
    cntr_can_wait = True, cntr_signals = 0\<rparr>"

text \<open>The check lets a null pointer pass; the code after it dereferences the pointer.\<close>

definition ofi_cntr_init ::
    "(fi_wait_obj \<Rightarrow> fid fi_result) \<Rightarrow> (fid \<Rightarrow> unit fi_result) \<Rightarrow> cq_domain \<Rightarrow> fi_cntr_attr option \<Rightarrow>
      ((fi_errno \<times> cntr_effect list) + util_cntr \<times> cq_domain) option" where
  "ofi_cntr_init wait_open poll_add domain attr =
    (case ofi_check_cntr_attr attr of
       Inl e \<Rightarrow> Some (Inl (e, []))
     | Inr _ \<Rightarrow>
         (case attr of
            None \<Rightarrow> None
          | Some a \<Rightarrow>
              let internal = and_then (wait_open (cna_wait_obj a))
                    (\<lambda>w. Inr (util_cntr0\<lparr>cntr_internal_wait := True, cntr_wait := Some w\<rparr>));
                  opened = (case cna_wait_obj a of
                      FI_WAIT_NONE \<Rightarrow> Inr (util_cntr0\<lparr>cntr_can_wait := False\<rparr>)
                    | FI_WAIT_SET \<Rightarrow> Inr (util_cntr0\<lparr>cntr_wait := cna_wait_set a\<rparr>)
                    | Other_wait_obj _ \<Rightarrow> Inl FI_EINVAL
                    | _ \<Rightarrow> internal)
              in Some (case opened of
                         Inl e \<Rightarrow> Inl (e, [])
                       | Inr cntr \<Rightarrow>
                           (case (case cntr_wait cntr of None \<Rightarrow> Inr () | Some w \<Rightarrow> poll_add w) of
                              Inl e \<Rightarrow> Inl (e, snd (ofi_cntr_cleanup cntr))
                            | Inr _ \<Rightarrow> Inr (cntr, domain\<lparr>cqd_ref := cqd_ref domain + 1\<rparr>)))))"

subsection \<open>Counters of an endpoint\<close>

text \<open>An endpoint has six counters; an operation increments one on each side.  The tables map the number
  of an operation to the counter.\<close>

datatype (plugins only: code size) ep_cntr = Tx_cntr | Rx_cntr | Rd_cntr | Wr_cntr | Rem_rd_cntr | Rem_wr_cntr

definition ofi_ep_tx_cntr_inc_funcs :: "ep_cntr list" where
  "ofi_ep_tx_cntr_inc_funcs = [Tx_cntr, Tx_cntr, Rd_cntr, Rem_rd_cntr, Wr_cntr, Wr_cntr, Wr_cntr, Rd_cntr, Rd_cntr, Rd_cntr]"

definition ofi_ep_rx_cntr_inc_funcs :: "ep_cntr list" where
  "ofi_ep_rx_cntr_inc_funcs =
    [Rx_cntr, Rx_cntr, Rem_rd_cntr, Rd_cntr, Rem_wr_cntr, Rem_wr_cntr, Rem_wr_cntr, Rem_rd_cntr, Rem_rd_cntr, Rem_rd_cntr]"

text \<open>The counters bound to an endpoint; an unbound one has the function that does nothing.\<close>

type_synonym ep_cntrs = "ep_cntr \<Rightarrow> util_cntr option"

definition ep_cntr_inc :: "ep_cntrs \<Rightarrow> ep_cntr \<Rightarrow> ep_cntrs" where
  "ep_cntr_inc ep c = ep(c := map_option ofi_cntr_inc (ep c))"

definition ofi_ep_tx_cntr_inc_func :: "ep_cntrs \<Rightarrow> u8 \<Rightarrow> ep_cntrs option" where
  "ofi_ep_tx_cntr_inc_func ep opcode =
    (if unat opcode < 10 then Some (ep_cntr_inc ep (ofi_ep_tx_cntr_inc_funcs ! unat opcode)) else None)"

definition ofi_ep_rx_cntr_inc_func :: "ep_cntrs \<Rightarrow> u8 \<Rightarrow> ep_cntrs option" where
  "ofi_ep_rx_cntr_inc_func ep opcode =
    (if unat opcode < 10 then Some (ep_cntr_inc ep (ofi_ep_rx_cntr_inc_funcs ! unat opcode)) else None)"

subsection \<open>Lemmas\<close>





text \<open>The counter of the other side.\<close>

primrec remote_cntr :: "ep_cntr \<Rightarrow> ep_cntr" where
  "remote_cntr Tx_cntr = Rx_cntr"
| "remote_cntr Rx_cntr = Tx_cntr"
| "remote_cntr Rd_cntr = Rem_rd_cntr"
| "remote_cntr Wr_cntr = Rem_wr_cntr"
| "remote_cntr Rem_rd_cntr = Rd_cntr"
| "remote_cntr Rem_wr_cntr = Wr_cntr"

lemma cntr_tables_mirror: "ofi_ep_rx_cntr_inc_funcs = map remote_cntr ofi_ep_tx_cntr_inc_funcs"
  by (simp add: ofi_ep_rx_cntr_inc_funcs_def ofi_ep_tx_cntr_inc_funcs_def)

subsection \<open>Properties\<close>





text \<open>A counter opened without attributes passes the check and dereferences a null pointer.\<close>

lemma cntr_init_null_attr: "ofi_check_cntr_attr None = Inr () \<and> ofi_cntr_init wait_open poll_add domain None = None"
  by (simp add: ofi_check_cntr_attr_def ofi_cntr_init_def)

end
