(* ===== verification/Ofi_Iov.thy ===== *)
theory Ofi_Iov
  imports Ofi_Wait
begin

unbundle bit_operations_syntax

section \<open>I/O vectors and bit masks\<close>

text \<open>
  The I/O vectors of \<^verbatim>\<open>include/ofi_iov.h\<close> and \<^verbatim>\<open>src/iov.c\<close> and the bit mask of
  \<^verbatim>\<open>include/ofi_bitmask.h\<close>.  An array with its count is a list.  Addresses are 64-bit words and memory
  is a function from addresses to bytes, so that the copies can be stated on memory and the list
  operations on the sequence of addresses a vector denotes: that sequence (\<open>iov_addrs\<close>) is the
  abstraction, on which consuming is \<open>drop\<close>, truncating is \<open>take\<close> and copying a range is both.
\<close>

subsection \<open>Vectors\<close>

record iovec =
  iov_base :: u64
  iov_len :: size_t

record fi_ioc =
  ioc_addr :: u64
  ioc_count :: size_t

record fi_rma_iov =
  rma_addr :: u64
  rma_len :: size_t
  rma_key :: u64

record fi_rma_ioc =
  rioc_addr :: u64
  rioc_count :: size_t
  rioc_key :: u64

primrec ofi_total_iov_len :: "iovec list \<Rightarrow> size_t" where
  "ofi_total_iov_len [] = 0"
| "ofi_total_iov_len (v # vs) = iov_len v + ofi_total_iov_len vs"

primrec ofi_total_ioc_cnt :: "fi_ioc list \<Rightarrow> size_t" where
  "ofi_total_ioc_cnt [] = 0"
| "ofi_total_ioc_cnt (v # vs) = ioc_count v + ofi_total_ioc_cnt vs"

primrec ofi_total_rma_ioc_cnt :: "fi_rma_ioc list \<Rightarrow> size_t" where
  "ofi_total_rma_ioc_cnt [] = 0"
| "ofi_total_rma_ioc_cnt (v # vs) = rioc_count v + ofi_total_rma_ioc_cnt vs"

definition ofi_ioc_to_iov :: "fi_ioc list \<Rightarrow> size_t \<Rightarrow> iovec list" where
  "ofi_ioc_to_iov ioc sz = map (\<lambda>c. \<lparr>iov_base = ioc_addr c, iov_len = ioc_count c * sz\<rparr>) ioc"

definition ofi_rma_ioc_to_iov :: "fi_rma_ioc list \<Rightarrow> size_t \<Rightarrow> fi_rma_iov list" where
  "ofi_rma_ioc_to_iov ioc sz =
    map (\<lambda>c. \<lparr>rma_addr = rioc_addr c, rma_len = rioc_count c * sz, rma_key = rioc_key c\<rparr>) ioc"

subsection \<open>Relative position of two regions\<close>

definition ofi_iov_end :: "iovec \<Rightarrow> u64" where
  "ofi_iov_end iov = iov_base iov + iov_len iov - 1"

definition ofi_iov_left :: "iovec \<Rightarrow> iovec \<Rightarrow> bool" where
  "ofi_iov_left iov1 iov2 \<longleftrightarrow> ofi_iov_end iov1 < iov_base iov2"

definition ofi_iov_right :: "iovec \<Rightarrow> iovec \<Rightarrow> bool" where
  "ofi_iov_right iov1 iov2 \<longleftrightarrow> iov_base iov1 > ofi_iov_end iov2"

definition ofi_iov_shifted_left :: "iovec \<Rightarrow> iovec \<Rightarrow> bool" where
  "ofi_iov_shifted_left iov1 iov2 \<longleftrightarrow>
    iov_base iov1 < iov_base iov2 \<and> ofi_iov_end iov1 < ofi_iov_end iov2"

definition ofi_iov_shifted_right :: "iovec \<Rightarrow> iovec \<Rightarrow> bool" where
  "ofi_iov_shifted_right iov1 iov2 \<longleftrightarrow>
    iov_base iov1 > iov_base iov2 \<and> ofi_iov_end iov1 > ofi_iov_end iov2"

definition ofi_iov_within :: "iovec \<Rightarrow> iovec \<Rightarrow> bool" where
  "ofi_iov_within iov1 iov2 \<longleftrightarrow>
    iov_base iov1 \<ge> iov_base iov2 \<and> ofi_iov_end iov1 \<le> ofi_iov_end iov2"

subsection \<open>Copying between a vector and a buffer\<close>

type_synonym memory = "u64 \<Rightarrow> u8"

definition mem_copy :: "memory \<Rightarrow> u64 \<Rightarrow> u64 \<Rightarrow> u64 \<Rightarrow> memory" where
  "mem_copy mem dst src len = (\<lambda>a. if a - dst < len then mem (src + (a - dst)) else mem a)"

definition OFI_COPY_IOV_TO_BUF :: c_int where "OFI_COPY_IOV_TO_BUF = 0"
definition OFI_COPY_BUF_TO_IOV :: c_int where "OFI_COPY_BUF_TO_IOV = 1"

text \<open>The number of bytes copied and the memory after the copy; \<open>done\<close> is the number copied so far.\<close>

fun copy_iov_loop :: "c_int \<Rightarrow> u64 \<Rightarrow> iovec list \<Rightarrow> u64 \<Rightarrow> u64 \<Rightarrow> u64 \<Rightarrow> memory \<Rightarrow> u64 \<times> memory" where
  "copy_iov_loop dir buf [] iov_offset bufsize done mem = (done, mem)"
| "copy_iov_loop dir buf (v # vs) iov_offset bufsize done mem =
    (if bufsize = 0 then (done, mem)
     else if iov_offset > iov_len v then copy_iov_loop dir buf vs (iov_offset - iov_len v) bufsize done mem
     else let iov_buf = iov_base v + iov_offset; len = min (iov_len v - iov_offset) bufsize;
              mem1 = (if dir = OFI_COPY_BUF_TO_IOV then mem_copy mem iov_buf (buf + done) len
                      else if dir = OFI_COPY_IOV_TO_BUF then mem_copy mem (buf + done) iov_buf len else mem)
          in copy_iov_loop dir buf vs 0 (bufsize - len) (done + len) mem1)"

definition ofi_copy_iov_buf :: "iovec list \<Rightarrow> u64 \<Rightarrow> u64 \<Rightarrow> u64 \<Rightarrow> c_int \<Rightarrow> memory \<Rightarrow> u64 \<times> memory" where
  "ofi_copy_iov_buf iov iov_offset buf bufsize dir mem = copy_iov_loop dir buf iov iov_offset bufsize 0 mem"

definition single_size :: "iovec \<Rightarrow> u64 \<Rightarrow> u64 \<Rightarrow> u64" where
  "single_size v iov_offset bufsize = (if iov_offset > iov_len v then 0 else min bufsize (iov_len v - iov_offset))"

definition ofi_copy_to_iov :: "iovec list \<Rightarrow> u64 \<Rightarrow> u64 \<Rightarrow> u64 \<Rightarrow> memory \<Rightarrow> u64 \<times> memory" where
  "ofi_copy_to_iov iov iov_offset buf bufsize mem =
    (case iov of
       [v] \<Rightarrow> let size = single_size v iov_offset bufsize
              in (size, mem_copy mem (iov_base v + iov_offset) buf size)
     | _ \<Rightarrow> ofi_copy_iov_buf iov iov_offset buf bufsize OFI_COPY_BUF_TO_IOV mem)"

definition ofi_copy_from_iov :: "u64 \<Rightarrow> u64 \<Rightarrow> iovec list \<Rightarrow> u64 \<Rightarrow> memory \<Rightarrow> u64 \<times> memory" where
  "ofi_copy_from_iov buf bufsize iov iov_offset mem =
    (case iov of
       [v] \<Rightarrow> let size = single_size v iov_offset bufsize
              in (size, mem_copy mem buf (iov_base v + iov_offset) size)
     | _ \<Rightarrow> ofi_copy_iov_buf iov iov_offset buf bufsize OFI_COPY_IOV_TO_BUF mem)"

subsection \<open>Consuming, truncating and slicing\<close>

fun consume_loop :: "iovec list \<Rightarrow> size_t \<Rightarrow> iovec list \<times> size_t" where
  "consume_loop [] consumed = ([], consumed)"
| "consume_loop (v # vs) consumed =
    (if consumed < iov_len v then (v # vs, consumed) else consume_loop vs (consumed - iov_len v))"

definition iov_advance :: "iovec \<Rightarrow> size_t \<Rightarrow> iovec" where
  "iov_advance v n = v\<lparr>iov_base := iov_base v + n, iov_len := iov_len v - n\<rparr>"

text \<open>The entries that are still counted; an empty array has no \<open>iov[0]\<close> to advance.  When the loop
  passes every entry the count is zero and the stale first entry is not part of the result.\<close>

definition ofi_consume_iov :: "iovec list \<Rightarrow> size_t \<Rightarrow> iovec list option" where
  "ofi_consume_iov iov consumed =
    (case iov of
       [] \<Rightarrow> None
     | [v] \<Rightarrow> Some [iov_advance v consumed]
     | _ \<Rightarrow> (case consume_loop iov consumed of
               ([], _) \<Rightarrow> Some []
             | (v # vs, left) \<Rightarrow> Some (iov_advance v left # vs)))"

fun ofi_truncate_iov :: "iovec list \<Rightarrow> size_t \<Rightarrow> unit fi_result \<times> iovec list" where
  "ofi_truncate_iov [] trim_size = (Inl FI_ETRUNC, [])"
| "ofi_truncate_iov (v # vs) trim_size =
    (if trim_size \<le> iov_len v then (Inr (), [v\<lparr>iov_len := trim_size\<rparr>])
     else let (ret, vs1) = ofi_truncate_iov vs (trim_size - iov_len v) in (ret, v # vs1))"

text \<open>The loop of \<open>ofi_copy_iov_desc\<close> from entry \<open>j\<close> on: the result, the entries written to the
  destination and the new \<open>*index\<close> and \<open>*offset\<close>.\<close>

fun copy_desc_loop :: "nat \<Rightarrow> iovec list \<Rightarrow> nat \<Rightarrow> size_t \<Rightarrow> size_t \<Rightarrow> unit fi_result \<times> iovec list \<times> nat \<times> size_t" where
  "copy_desc_loop index [] j offset len = (Inl FI_ETOOSMALL, [], index, offset)"
| "copy_desc_loop index (v # vs) j offset len =
    (if len \<le> iov_len v - offset
     then (Inr (), [\<lparr>iov_base = iov_base v + offset, iov_len = len\<rparr>],
           if len = iov_len v - offset then (j + 1, 0) else (j, offset + len))
     else let n = iov_len v - offset; (ret, dst, cursor) = copy_desc_loop index vs (j + 1) 0 (len - n)
          in (ret, \<lparr>iov_base = iov_base v + offset, iov_len = n\<rparr> # dst, cursor))"

text \<open>\<open>None\<close> is a failed assertion.  The descriptors are copied along with the entries when given.\<close>

definition ofi_copy_iov_desc ::
    "iovec list \<Rightarrow> 'd list option \<Rightarrow> nat \<Rightarrow> size_t \<Rightarrow> size_t \<Rightarrow>
      (unit fi_result \<times> iovec list \<times> 'd list option \<times> nat \<times> size_t) option" where
  "ofi_copy_iov_desc src_iov src_desc index offset len =
    (if index < length src_iov \<and> offset \<le> iov_len (src_iov ! index)
     then let (ret, dst, cursor) = copy_desc_loop index (drop index src_iov) index offset len
          in Some (ret, dst, map_option (\<lambda>d. take (length dst) (drop index d)) src_desc, cursor)
     else None)"

fun copy_rma_loop ::
    "nat \<Rightarrow> fi_rma_iov list \<Rightarrow> nat \<Rightarrow> size_t \<Rightarrow> size_t \<Rightarrow> unit fi_result \<times> fi_rma_iov list \<times> nat \<times> size_t" where
  "copy_rma_loop index [] j offset len = (Inl FI_ETOOSMALL, [], index, offset)"
| "copy_rma_loop index (v # vs) j offset len =
    (if len \<le> rma_len v - offset
     then (Inr (), [\<lparr>rma_addr = rma_addr v + offset, rma_len = len, rma_key = rma_key v\<rparr>],
           if len = rma_len v - offset then (j + 1, 0) else (j, offset + len))
     else let n = rma_len v - offset; (ret, dst, cursor) = copy_rma_loop index vs (j + 1) 0 (len - n)
          in (ret, \<lparr>rma_addr = rma_addr v + offset, rma_len = n, rma_key = rma_key v\<rparr> # dst, cursor))"

definition ofi_copy_rma_iov ::
    "fi_rma_iov list \<Rightarrow> nat \<Rightarrow> size_t \<Rightarrow> size_t \<Rightarrow> (unit fi_result \<times> fi_rma_iov list \<times> nat \<times> size_t) option" where
  "ofi_copy_rma_iov src_iov index offset len =
    (if index < length src_iov \<and> offset \<le> rma_len (src_iov ! index)
     then Some (copy_rma_loop index (drop index src_iov) index offset len)
     else None)"

subsection \<open>Bit masks\<close>

record bitmask =
  bm_size :: size_t
  bm_bytes :: "u8 list"

text \<open>\<open>calloc\<close> is given the number of bytes; an access outside the allocation, or a failed assertion,
  is \<open>None\<close>.\<close>

definition ofi_bitmask_create :: "(size_t \<Rightarrow> bool) \<Rightarrow> size_t \<Rightarrow> bitmask fi_result" where
  "ofi_bitmask_create calloc sz =
    (let byte_size = sz div 8; byte_size = (if byte_size mod 8 \<noteq> 0 then byte_size + 1 else byte_size)
     in if calloc byte_size then Inr \<lparr>bm_size = sz, bm_bytes = replicate (unat byte_size) 0\<rparr>
        else Inl FI_ENOMEM)"

definition ofi_bitmask_bytesize :: "bitmask \<Rightarrow> size_t" where
  "ofi_bitmask_bytesize bm = (if bm_size bm mod 8 \<noteq> 0 then bm_size bm div 8 + 1 else bm_size bm div 8)"

definition bm_update :: "(u8 \<Rightarrow> u8) \<Rightarrow> bitmask \<Rightarrow> size_t \<Rightarrow> bitmask option" where
  "bm_update f bm idx =
    (let i = unat (idx div 8)
     in if idx \<le> bm_size bm \<and> i < length (bm_bytes bm)
        then Some (bm\<lparr>bm_bytes := (bm_bytes bm)[i := f (bm_bytes bm ! i)]\<rparr>) else None)"

definition ofi_bitmask_unset :: "bitmask \<Rightarrow> size_t \<Rightarrow> bitmask option" where
  "ofi_bitmask_unset bm idx = bm_update (\<lambda>b. b AND NOT (push_bit (unat (idx mod 8)) 1)) bm idx"

definition ofi_bitmask_set :: "bitmask \<Rightarrow> size_t \<Rightarrow> bitmask option" where
  "ofi_bitmask_set bm idx = bm_update (\<lambda>b. b OR push_bit (unat (idx mod 8)) 1) bm idx"

definition ofi_bitmask_set_all :: "bitmask \<Rightarrow> bitmask option" where
  "ofi_bitmask_set_all bm =
    (let n = unat (ofi_bitmask_bytesize bm)
     in if n \<le> length (bm_bytes bm)
        then Some (bm\<lparr>bm_bytes := memcpy (bm_bytes bm) 0 (replicate n 0xFF)\<rparr>) else None)"

text \<open>The inner loop counts the trailing zeros of a byte that is not zero; eight shifts are enough.\<close>

fun trailing_zeros :: "nat \<Rightarrow> u8 \<Rightarrow> nat" where
  "trailing_zeros 0 tmp = 0"
| "trailing_zeros (Suc fuel) tmp = (if tmp AND 1 \<noteq> 0 then 0 else Suc (trailing_zeros fuel (drop_bit 1 tmp)))"

fun lsbset_loop :: "u8 list \<Rightarrow> nat \<Rightarrow> size_t \<Rightarrow> size_t option" where
  "lsbset_loop bytes 0 ret = Some ret"
| "lsbset_loop [] (Suc n) ret = None"
| "lsbset_loop (b # bytes) (Suc n) ret =
    (if b \<noteq> 0 then Some (ret + of_nat (trailing_zeros 8 b)) else lsbset_loop bytes n (ret + 8))"

definition ofi_bitmask_get_lsbset :: "bitmask \<Rightarrow> size_t option" where
  "ofi_bitmask_get_lsbset bm =
    (case lsbset_loop (bm_bytes bm) (unat (bm_size bm div 8)) 0 of
       Some ret \<Rightarrow> if ret \<le> bm_size bm then Some ret else None
     | None \<Rightarrow> None)"

section \<open>The bytes a vector denotes\<close>

definition region :: "u64 \<Rightarrow> nat \<Rightarrow> u64 list" where
  "region a n = map (\<lambda>i. a + of_nat i) [0..<n]"

definition iov_addrs :: "iovec list \<Rightarrow> u64 list" where
  "iov_addrs vs = concat (map (\<lambda>v. region (iov_base v) (unat (iov_len v))) vs)"

lemma iov_addrs_simps [simp]:
  "iov_addrs [] = []"
  "iov_addrs (v # vs) = region (iov_base v) (unat (iov_len v)) @ iov_addrs vs"
  by (simp_all add: iov_addrs_def)

lemma length_region [simp]: "length (region a n) = n"
  by (simp add: region_def)

lemma region_0 [simp]: "region a 0 = []"
  by (simp add: region_def)

lemma nth_region [simp]: "i < n \<Longrightarrow> region a n ! i = a + of_nat i"
  by (simp add: region_def)

lemma take_region: "take k (region a n) = region a (min k n)"
  by (rule nth_equalityI) auto

lemma drop_region: "drop k (region a n) = region (a + of_nat k) (n - k)"
  by (rule nth_equalityI) (auto simp: algebra_simps)

lemma region_append: "region a (m + n) = region a m @ region (a + of_nat m) n"
  by (rule nth_equalityI) (auto simp: nth_append of_nat_diff algebra_simps)

lemma unat_of_nat_u64: "n < 2 ^ 64 \<Longrightarrow> unat (of_nat n :: u64) = n"
  by (simp add: unat_of_nat take_bit_nat_eq_self)

lemma of_nat_unat_self: "of_nat (unat (w :: u64)) = w"
  by simp

lemma distinct_region: "n \<le> 2 ^ 64 \<Longrightarrow> distinct (region a n)"
  unfolding region_def distinct_map
  by (intro conjI inj_onI) (auto dest!: arg_cong [where f = unat] simp only: unat_of_nat_u64 add_left_cancel
     atLeast0LessThan set_upt lessThan_iff distinct_upt)

lemma in_region:
  assumes "n \<le> 2 ^ 64"
  shows "x \<in> set (region a n) \<longleftrightarrow> unat (x - a) < n"
proof
  assume "x \<in> set (region a n)"
  then obtain i where "i < n" "x = a + of_nat i" by (auto simp: region_def)
  moreover from this assms have "unat (of_nat i :: u64) = i" by (intro unat_of_nat_u64) linarith
  ultimately show "unat (x - a) < n" by simp
next
  assume "unat (x - a) < n"
  then show "x \<in> set (region a n)" by (force simp: region_def intro: image_eqI [of _ _ "unat (x - a)"])
qed

lemma map_of_zip_region:
  assumes "n \<le> 2 ^ 64"
  shows "map_of (zip (region a n) bs) x =
    (if unat (x - a) < min n (length bs) then Some (bs ! unat (x - a)) else None)"
proof (cases "unat (x - a) < min n (length bs)")
  case True
  then have "(x, bs ! unat (x - a)) \<in> set (zip (region a n) bs)"
    by (auto simp: in_set_zip intro!: exI [of _ "unat (x - a)"])
  moreover have "distinct (map fst (zip (region a n) bs))"
    using distinct_region [OF assms, of a] by (simp add: map_fst_zip_take)
  ultimately show ?thesis using True by (metis map_of_is_SomeI)
next
  case False
  have "x \<notin> fst ` set (zip (region a n) bs)"
  proof
    assume "x \<in> fst ` set (zip (region a n) bs)"
    then obtain i where "i < n" "i < length bs" "x = a + of_nat i" by (force simp: in_set_zip)
    moreover from this assms have "unat (of_nat i :: u64) = i" by (intro unat_of_nat_u64) linarith
    ultimately show False using False by simp
  qed
  then show ?thesis using False by (auto simp: map_of_eq_None_iff)
qed

text \<open>Writing the bytes at the addresses \<open>ss\<close> to the addresses \<open>ds\<close>.\<close>

definition transfer :: "memory \<Rightarrow> u64 list \<Rightarrow> u64 list \<Rightarrow> memory" where
  "transfer mem ds ss = (\<lambda>a. case map_of (zip ds (map mem ss)) a of Some b \<Rightarrow> b | None \<Rightarrow> mem a)"

lemma transfer_Nil [simp]: "transfer mem [] ss = mem" "transfer mem ds [] = mem"
  by (simp_all add: transfer_def)

lemma transfer_other: "a \<notin> set ds \<Longrightarrow> transfer mem ds ss a = mem a"
  by (auto simp: transfer_def split: option.splits dest!: map_of_SomeD set_zip_leftD)

lemma transfer_read:
  assumes "distinct ds" and "length ds = length ss"
  shows "map (transfer mem ds ss) ds = map mem ss"
proof (rule nth_equalityI)
  fix i assume "i < length (map (transfer mem ds ss) ds)"
  then have "map_of (zip ds (map mem ss)) (ds ! i) = Some (mem (ss ! i))"
    using assms by (simp add: map_of_zip_nth)
  then show "map (transfer mem ds ss) ds ! i = map mem ss ! i"
    using \<open>i < _\<close> assms by (simp add: transfer_def)
qed (simp add: assms)

lemma transfer_append:
  assumes "length d1 = length s1" and "set d1 \<inter> set d2 = {}" and "set d1 \<inter> set s2 = {}"
  shows "transfer (transfer mem d1 s1) d2 s2 = transfer mem (d1 @ d2) (s1 @ s2)"
proof
  fix a
  have s2: "map (transfer mem d1 s1) s2 = map mem s2"
    using assms(3) by (auto intro: transfer_other)
  have l: "transfer (transfer mem d1 s1) d2 s2 a =
      (case map_of (zip d2 (map mem s2)) a of Some b \<Rightarrow> b | None \<Rightarrow> transfer mem d1 s1 a)"
    unfolding transfer_def [of "transfer mem d1 s1"] s2 ..
  show "transfer (transfer mem d1 s1) d2 s2 a = transfer mem (d1 @ d2) (s1 @ s2) a"
  proof (cases "a \<in> set d1")
    case True
    then have "map_of (zip d2 (map mem s2)) a = None"
      using assms(2) by (auto simp: map_of_eq_None_iff dest: set_zip_leftD)
    moreover obtain b where "map_of (zip d1 (map mem s1)) a = Some b"
      using True assms(1) by (metis length_map map_of_zip_is_Some)
    ultimately show ?thesis
      unfolding l using assms(1) by (simp add: transfer_def map_add_def)
  next
    case False
    then have n1: "map_of (zip d1 (map mem s1)) a = None"
      by (auto simp: map_of_eq_None_iff dest: set_zip_leftD)
    then show ?thesis
      unfolding l using assms(1) by (simp add: transfer_def map_add_def n1 split: option.split)
  qed
qed

lemma mem_copy_transfer: "mem_copy mem dst src len = transfer mem (region dst (unat len)) (region src (unat len))"
proof
  fix a
  have "unat len \<le> 2 ^ 64" using unat_less_pow2 [of len] by simp
  then show "mem_copy mem dst src len a = transfer mem (region dst (unat len)) (region src (unat len)) a"
    by (simp add: mem_copy_def transfer_def map_of_zip_region word_less_nat_alt)
qed

definition moves :: "c_int \<Rightarrow> memory \<Rightarrow> u64 list \<Rightarrow> u64 list \<Rightarrow> memory" where
  "moves dir mem iovas bufas =
    (if dir = OFI_COPY_BUF_TO_IOV then transfer mem iovas bufas
     else if dir = OFI_COPY_IOV_TO_BUF then transfer mem bufas iovas else mem)"

lemma moves_Nil [simp]: "moves dir mem [] bs = mem" "moves dir mem as [] = mem"
  by (simp_all add: moves_def)

lemma moves_append:
  assumes "length a1 = length b1" and "set (a1 @ a2) \<inter> set (b1 @ b2) = {}" and "distinct (b1 @ b2)"
    and "dir = OFI_COPY_BUF_TO_IOV \<longrightarrow> distinct (a1 @ a2)"
  shows "moves dir (moves dir mem a1 b1) a2 b2 = moves dir mem (a1 @ a2) (b1 @ b2)"
  using assms by (auto simp: moves_def intro!: transfer_append)

text \<open>One entry of the vector and the rest of it: \<open>k\<close> bytes go through the entry, \<open>m\<close> through the rest.\<close>

lemma moves_entry:
  assumes "set (region b (k + m)) \<inter> set (as @ cs) = {}" and "dir = OFI_COPY_BUF_TO_IOV \<longrightarrow> distinct (as @ cs)"
    and "length as = k" and "k + m < 2 ^ 64"
  shows "moves dir (moves dir mem as (region b k)) cs (region (b + of_nat k) m) =
    moves dir mem (as @ cs) (region b (k + m))"
  unfolding region_append
  using assms distinct_region [of "k + m" b] by (subst moves_append) (simp_all add: region_append Int_commute)

lemma copy_iov_loop_correct:
  assumes "set (region (buf + done) (unat bufsize)) \<inter> set (iov_addrs vs) = {}"
    and "dir = OFI_COPY_BUF_TO_IOV \<longrightarrow> distinct (iov_addrs vs)"
    and "n = min (unat bufsize) (length (iov_addrs vs) - unat offset)"
  shows "copy_iov_loop dir buf vs offset bufsize done mem =
    (done + of_nat n, moves dir mem (take n (drop (unat offset) (iov_addrs vs))) (region (buf + done) n))"
  using assms
proof (induction vs arbitrary: offset bufsize "done" mem n)
  case Nil
  then show ?case by simp
next
  case (Cons v vs)
  let ?R = "region (iov_base v) (unat (iov_len v))" and ?X = "iov_addrs vs"
  have dX: "set (region (buf + done) (unat bufsize)) \<inter> set ?X = {}" using Cons.prems(1) by auto
  have X: "dir = OFI_COPY_BUF_TO_IOV \<longrightarrow> distinct ?X" using Cons.prems(2) by auto
  consider "bufsize = 0" | "bufsize \<noteq> 0" "offset > iov_len v" | "bufsize \<noteq> 0" "\<not> offset > iov_len v" by blast
  then show ?case
  proof cases
    case 1
    then show ?thesis using Cons.prems by simp
  next
    case 2
    then have "unat (offset - iov_len v) = unat offset - unat (iov_len v)" "unat (iov_len v) \<le> unat offset"
      by (simp_all add: unat_sub word_less_nat_alt word_le_nat_alt)
    then show ?thesis
      using 2 Cons.prems(3) Cons.IH [OF dX X, of n "offset - iov_len v" mem] by (simp add: add.commute)
  next
    case 3
    define len where "len = min (iov_len v - offset) bufsize"
    define k where "k = unat len"
    have o: "unat offset \<le> unat (iov_len v)" using 3(2) by (simp add: not_less word_le_nat_alt)
    have k: "k = min (unat (iov_len v) - unat offset) (unat bufsize)"
      using o unat_sub [of offset "iov_len v"] by (simp add: k_def len_def min_def word_le_nat_alt)
    have bl: "unat (bufsize - len) = unat bufsize - k"
      using unat_sub [of len bufsize] by (simp add: k_def len_def)
    define m where "m = min (unat bufsize - k) (length ?X)"
    have n: "n = k + m" using Cons.prems(3) o k by (simp add: m_def) linarith
    have kw: "of_nat k = len" unfolding k_def by (rule of_nat_unat_self)
    have kb: "k \<le> unat bufsize" "n \<le> unat bufsize" using k Cons.prems(3) by simp_all
    have d2: "set (region (buf + (done + len)) (unat (bufsize - len))) \<inter> set ?X = {}"
      using dX region_append [of "buf + done" k "unat bufsize - k"] kb kw unfolding bl by (auto simp: add.assoc)
    have A: "take n (drop (unat offset) (iov_addrs (v # vs))) = region (iov_base v + offset) k @ take m ?X"
    proof -
      have "min n (unat (iov_len v) - unat offset) = k" "n - (unat (iov_len v) - unat offset) = m"
        unfolding n m_def using k by linarith+
      then show ?thesis using o by (simp add: drop_region take_region)
    qed
    have sub: "set (take n (drop (unat offset) (iov_addrs (v # vs)))) \<subseteq> set (iov_addrs (v # vs))"
      by (meson order_trans set_drop_subset set_take_subset)
    have dis: "set (region (buf + done) (k + m)) \<inter> set (region (iov_base v + offset) k @ take m ?X) = {}"
    proof -
      have "set (region (buf + done) n) \<subseteq> set (region (buf + done) (unat bufsize))"
        using kb by (auto simp: region_def)
      then show ?thesis using Cons.prems(1) sub unfolding A [symmetric] n [symmetric] by blast
    qed
    have dst: "dir = OFI_COPY_BUF_TO_IOV \<longrightarrow> distinct (region (iov_base v + offset) k @ take m ?X)"
      using Cons.prems(2) distinct_take distinct_drop unfolding A [symmetric] by blast
    have "copy_iov_loop dir buf (v # vs) offset bufsize done mem =
        copy_iov_loop dir buf vs 0 (bufsize - len) (done + len)
          (moves dir mem (region (iov_base v + offset) k) (region (buf + done) k))"
      using 3 by (simp add: Let_def mem_copy_transfer moves_def k_def flip: len_def)
    also have "\<dots> = (done + len + of_nat m,
        moves dir (moves dir mem (region (iov_base v + offset) k) (region (buf + done) k))
          (take m ?X) (region (buf + done + of_nat k) m))"
      using Cons.IH [OF d2 X, of m 0] bl kw by (simp add: m_def add.assoc)
    also have "\<dots> = (done + of_nat n, moves dir mem (take n (drop (unat offset) (iov_addrs (v # vs)))) (region (buf + done) n))"
      unfolding A using moves_entry [OF dis dst, of mem] kb unat_less_pow2 [of bufsize] by (simp add: n flip: kw)
    finally show ?thesis .
  qed
qed

subsection \<open>The copies\<close>

lemma single_size:
  "unat (single_size v offset bufsize) = min (unat bufsize) (unat (iov_len v) - unat offset)"
  "single_size v offset bufsize = of_nat (min (unat bufsize) (unat (iov_len v) - unat offset))"
proof -
  show "unat (single_size v offset bufsize) = min (unat bufsize) (unat (iov_len v) - unat offset)"
    by (auto simp: single_size_def min_def not_less word_le_nat_alt word_less_nat_alt unat_sub)
  then show "single_size v offset bufsize = of_nat (min (unat bufsize) (unat (iov_len v) - unat offset))"
    by (metis of_nat_unat_self)
qed

lemma copy_to_iov_transfer:
  assumes "set (region buf (unat bufsize)) \<inter> set (iov_addrs vs) = {}" and "distinct (iov_addrs vs)"
    and "n = min (unat bufsize) (length (iov_addrs vs) - unat offset)"
  shows "ofi_copy_to_iov vs offset buf bufsize mem =
    (of_nat n, transfer mem (take n (drop (unat offset) (iov_addrs vs))) (region buf n))"
proof (cases "\<exists>v. vs = [v]")
  case True
  then obtain v where "vs = [v]" by blast
  moreover note single_size [of v offset bufsize]
  ultimately show ?thesis using assms(3)
    by (simp add: ofi_copy_to_iov_def Let_def mem_copy_transfer drop_region take_region min.assoc)
next
  case False
  then have "ofi_copy_to_iov vs offset buf bufsize mem = copy_iov_loop OFI_COPY_BUF_TO_IOV buf vs offset bufsize 0 mem"
    by (auto simp: ofi_copy_to_iov_def ofi_copy_iov_buf_def simp del: copy_iov_loop.simps split: list.splits)
  then show ?thesis using copy_iov_loop_correct [of buf 0 bufsize vs OFI_COPY_BUF_TO_IOV n offset mem] assms
    by (simp add: moves_def)
qed

lemma copy_from_iov_transfer:
  assumes "set (region buf (unat bufsize)) \<inter> set (iov_addrs vs) = {}"
    and "n = min (unat bufsize) (length (iov_addrs vs) - unat offset)"
  shows "ofi_copy_from_iov buf bufsize vs offset mem =
    (of_nat n, transfer mem (region buf n) (take n (drop (unat offset) (iov_addrs vs))))"
proof (cases "\<exists>v. vs = [v]")
  case True
  then obtain v where "vs = [v]" by blast
  moreover note single_size [of v offset bufsize]
  ultimately show ?thesis using assms(2)
    by (simp add: ofi_copy_from_iov_def Let_def mem_copy_transfer drop_region take_region min.assoc)
next
  case False
  then have "ofi_copy_from_iov buf bufsize vs offset mem = copy_iov_loop OFI_COPY_IOV_TO_BUF buf vs offset bufsize 0 mem"
    by (auto simp: ofi_copy_from_iov_def ofi_copy_iov_buf_def simp del: copy_iov_loop.simps split: list.splits)
  then show ?thesis using copy_iov_loop_correct [of buf 0 bufsize vs OFI_COPY_IOV_TO_BUF n offset mem] assms
    by (simp add: moves_def OFI_COPY_IOV_TO_BUF_def OFI_COPY_BUF_TO_IOV_def)
qed

subsection \<open>Consuming and truncating\<close>

lemma advance_addrs:
  assumes "unat n \<le> unat (iov_len v)"
  shows "iov_addrs (iov_advance v n # vs) = drop (unat n) (iov_addrs (v # vs))"
  using assms unat_sub [of n "iov_len v"] by (simp add: iov_advance_def drop_region word_le_nat_alt)

lemma consume_loop_addrs:
  assumes "consume_loop vs n = (ws, k)" and "unat n \<le> length (iov_addrs vs)"
  shows "drop (unat n) (iov_addrs vs) = drop (unat k) (iov_addrs ws)"
    and "ws = [] \<or> unat k < unat (iov_len (hd ws))"
  using assms
proof (induction vs n rule: consume_loop.induct)
  case (2 v vs consumed)
  {
    case 1
    then show ?case using "2.IH"(1) by (auto simp: not_less unat_sub word_le_nat_alt split: if_splits)
  next
    case 2
    then show ?case using "2.IH"(2) by (auto simp: not_less unat_sub word_le_nat_alt word_less_nat_alt split: if_splits)
  }
qed auto

lemma consume_iov_addrs:
  assumes "vs \<noteq> []" and "unat n \<le> length (iov_addrs vs)"
  shows "\<exists>ws. ofi_consume_iov vs n = Some ws \<and> iov_addrs ws = drop (unat n) (iov_addrs vs)"
proof (cases "\<exists>v. vs = [v]")
  case True
  then show ?thesis using assms(2) advance_addrs [of n _ "[]"] by (auto simp: ofi_consume_iov_def)
next
  case False
  obtain ws k where l: "consume_loop vs n = (ws, k)" by fastforce
  have "ofi_consume_iov vs n = Some (case ws of [] \<Rightarrow> [] | v # vs1 \<Rightarrow> iov_advance v k # vs1)"
    using False assms(1) l by (auto simp: ofi_consume_iov_def simp del: consume_loop.simps split: list.splits)
  moreover have "iov_addrs (case ws of [] \<Rightarrow> [] | v # vs1 \<Rightarrow> iov_advance v k # vs1) = drop (unat k) (iov_addrs ws)"
    using consume_loop_addrs(2) [OF l assms(2)] advance_addrs [of k] by (cases ws) (auto simp del: iov_addrs_simps(2))
  ultimately show ?thesis using consume_loop_addrs(1) [OF l assms(2)] by simp
qed

lemma truncate_iov_addrs:
  "ofi_truncate_iov vs n = (ret, ws) \<Longrightarrow> 0 < length vs \<Longrightarrow>
    (if unat n \<le> length (iov_addrs vs) then ret = Inr () \<and> iov_addrs ws = take (unat n) (iov_addrs vs)
     else ret = Inl FI_ETRUNC \<and> ws = vs)"
proof (induction vs n arbitrary: ret ws rule: ofi_truncate_iov.induct)
  case (2 v vs n)
  show ?case
  proof (cases "n \<le> iov_len v")
    case True
    then show ?thesis using 2 by (auto simp: take_region word_le_nat_alt)
  next
    case False
    then have "unat (n - iov_len v) = unat n - unat (iov_len v)" "unat (iov_len v) < unat n"
      by (simp_all add: not_le unat_sub word_le_nat_alt word_less_nat_alt)
    moreover obtain r1 ws1 where "ofi_truncate_iov vs (n - iov_len v) = (r1, ws1)" by fastforce
    ultimately show ?thesis using 2 False by (cases vs) (auto simp: take_region)
  qed
qed simp

subsection \<open>Slicing at a cursor\<close>

text \<open>
  The contract the two slicing loops share: entries that denote a sequence of bytes, a \<open>cut\<close> that
  restricts an entry to a part of it, and a loop that copies entries from a cursor on until \<open>len\<close>
  bytes are covered.
\<close>

locale segment_slice =
  fixes len_of :: "'v \<Rightarrow> size_t" and bytes_of :: "'v \<Rightarrow> 'b list"
    and cut :: "'v \<Rightarrow> size_t \<Rightarrow> size_t \<Rightarrow> 'v"
    and loop :: "nat \<Rightarrow> 'v list \<Rightarrow> nat \<Rightarrow> size_t \<Rightarrow> size_t \<Rightarrow> unit fi_result \<times> 'v list \<times> nat \<times> size_t"
  assumes length_bytes: "length (bytes_of v) = unat (len_of v)"
    and cut_bytes: "unat off + unat n \<le> unat (len_of v) \<Longrightarrow>
      bytes_of (cut v off n) = take (unat n) (drop (unat off) (bytes_of v))"
    and loop_Nil: "loop index [] j off len = (Inl FI_ETOOSMALL, [], index, off)"
    and loop_Cons: "loop index (v # vs) j off len =
      (if len \<le> len_of v - off
       then (Inr (), [cut v off len], if len = len_of v - off then (j + 1, 0) else (j, off + len))
       else let n = len_of v - off; (ret, dst, cursor) = loop index vs (j + 1) 0 (len - n)
            in (ret, cut v off n # dst, cursor))"
begin

definition flat :: "'v list \<Rightarrow> 'b list" where
  "flat vs = concat (map bytes_of vs)"

lemma flat_simps [simp]: "flat [] = []" "flat (v # vs) = bytes_of v @ flat vs"
  by (simp_all add: flat_def)

definition pos_of :: "'v list \<Rightarrow> nat \<Rightarrow> size_t \<Rightarrow> nat" where
  "pos_of vs i off = length (flat (take i vs)) + unat off"

definition cursor_ok :: "'v list \<Rightarrow> nat \<Rightarrow> size_t \<Rightarrow> bool" where
  "cursor_ok vs i off \<longleftrightarrow> (if i < length vs then off \<le> len_of (vs ! i) else i = length vs \<and> off = 0)"

lemma slice_enough:
  assumes "vs \<noteq> []" and "off \<le> len_of (hd vs)" and "unat off + unat len \<le> length (flat vs)"
  shows "\<exists>dst i o'. loop index vs j off len = (Inr (), dst, j + i, o') \<and>
    flat dst = take (unat len) (drop (unat off) (flat vs)) \<and>
    cursor_ok vs i o' \<and> pos_of vs i o' = unat off + unat len"
  using assms
proof (induction vs arbitrary: j off len)
  case (Cons v vs)
  have n: "unat (len_of v - off) = unat (len_of v) - unat off" and o: "unat off \<le> unat (len_of v)"
    using Cons.prems(2) by (simp_all add: unat_sub word_le_nat_alt)
  show ?case
  proof (cases "len \<le> len_of v - off")
    case True
    then have le: "unat off + unat len \<le> unat (len_of v)" using n o by (simp add: word_le_nat_alt)
    then have s: "unat (off + len) = unat off + unat len"
      using unat_less_pow2 [of "len_of v"] by (simp add: unat_add_lem [symmetric])
    have fl: "flat [cut v off len] = take (unat len) (drop (unat off) (flat (v # vs)))"
      using cut_bytes [OF le] le length_bytes by simp
    show ?thesis
    proof (cases "len = len_of v - off")
      case True
      then show ?thesis using fl n o length_bytes
        by (intro exI [of _ "[cut v off len]"] exI [of _ 1] exI [of _ 0])
          (auto simp: loop_Cons cursor_ok_def pos_of_def)
    next
      case False
      then show ?thesis using True fl s le
        by (intro exI [of _ "[cut v off len]"] exI [of _ 0] exI [of _ "off + len"])
          (auto simp: loop_Cons cursor_ok_def pos_of_def word_le_nat_alt)
    qed
  next
    case False
    then have m: "unat (len - (len_of v - off)) = unat len - (unat (len_of v) - unat off)"
        "unat (len_of v) - unat off < unat len"
      using n by (simp_all add: not_le unat_sub word_le_nat_alt word_less_nat_alt)
    have ne: "vs \<noteq> []" using Cons.prems(3) m(2) o length_bytes by auto
    have le: "unat (0 :: size_t) + unat (len - (len_of v - off)) \<le> length (flat vs)"
      using Cons.prems(3) m o length_bytes by simp
    obtain dst i o' where l: "loop index vs (j + 1) 0 (len - (len_of v - off)) = (Inr (), dst, j + 1 + i, o')"
      and fl: "flat dst = take (unat (len - (len_of v - off))) (drop (unat (0 :: size_t)) (flat vs))"
      and c: "cursor_ok vs i o'" and p: "pos_of vs i o' = unat (0 :: size_t) + unat (len - (len_of v - off))"
      using Cons.IH [OF ne _ le, of "j + 1"] by auto
    have "unat off + unat (len_of v - off) \<le> unat (len_of v)" using n o by simp
    from cut_bytes [OF this] have "flat (cut v off (len_of v - off) # dst) = take (unat len) (drop (unat off) (flat (v # vs)))"
      using fl m n o length_bytes by simp
    then show ?thesis using False l c p m n o length_bytes
      by (intro exI [of _ "cut v off (len_of v - off) # dst"] exI [of _ "Suc i"] exI [of _ o'])
        (auto simp: loop_Cons Let_def cursor_ok_def pos_of_def)
  qed
qed simp

lemma slice_short:
  assumes "vs \<noteq> []" and "off \<le> len_of (hd vs)" and "length (flat vs) < unat off + unat len"
  shows "\<exists>dst. loop index vs j off len = (Inl FI_ETOOSMALL, dst, index, 0) \<and>
    flat dst = drop (unat off) (flat vs)"
  using assms
proof (induction vs arbitrary: j off len)
  case (Cons v vs)
  have n: "unat (len_of v - off) = unat (len_of v) - unat off" and o: "unat off \<le> unat (len_of v)"
    using Cons.prems(2) by (simp_all add: unat_sub word_le_nat_alt)
  then have gt: "\<not> len \<le> len_of v - off" using Cons.prems(3) length_bytes by (simp add: word_le_nat_alt)
  then have m: "unat (len - (len_of v - off)) = unat len - (unat (len_of v) - unat off)"
    using n by (simp add: not_le unat_sub word_le_nat_alt word_less_nat_alt)
  have "unat off + unat (len_of v - off) \<le> unat (len_of v)" using n o by simp
  note cb = cut_bytes [OF this]
  show ?case
  proof (cases "vs = []")
    case True
    then show ?thesis using gt cb n length_bytes by (simp add: loop_Cons loop_Nil Let_def)
  next
    case False
    have "length (flat vs) < unat (0 :: size_t) + unat (len - (len_of v - off))"
      using Cons.prems(3) m o length_bytes [of v] by simp
    then obtain dst where "loop index vs (j + 1) 0 (len - (len_of v - off)) = (Inl FI_ETOOSMALL, dst, index, 0)"
      "flat dst = flat vs"
      using Cons.IH [OF False, of 0 "len - (len_of v - off)" "j + 1"] by auto
    then show ?thesis using gt cb n o length_bytes by (simp add: loop_Cons Let_def)
  qed
qed simp

text \<open>The whole array, from a cursor that is in range.\<close>

lemma slice_at:
  assumes "i < length vs" and "off \<le> len_of (vs ! i)"
  shows "if pos_of vs i off + unat len \<le> length (flat vs)
    then \<exists>dst i' o'. loop i (drop i vs) i off len = (Inr (), dst, i', o') \<and>
      flat dst = take (unat len) (drop (pos_of vs i off) (flat vs)) \<and>
      cursor_ok vs i' o' \<and> pos_of vs i' o' = pos_of vs i off + unat len
    else \<exists>dst. loop i (drop i vs) i off len = (Inl FI_ETOOSMALL, dst, i, 0) \<and>
      flat dst = drop (pos_of vs i off) (flat vs)"
proof -
  have vs: "flat vs = flat (take i vs) @ flat (drop i vs)"
    unfolding flat_def by (metis append_take_drop_id concat_append map_append)
  have ne: "drop i vs \<noteq> []" and hd: "off \<le> len_of (hd (drop i vs))"
    using assms by (simp_all add: hd_drop_conv_nth)
  show ?thesis
  proof (cases "pos_of vs i off + unat len \<le> length (flat vs)")
    case True
    then have "unat off + unat len \<le> length (flat (drop i vs))" using vs by (simp add: pos_of_def)
    from slice_enough [OF ne hd this, of i i] obtain dst k o' where
      l: "loop i (drop i vs) i off len = (Inr (), dst, i + k, o')"
      and f: "flat dst = take (unat len) (drop (unat off) (flat (drop i vs)))"
      and c: "cursor_ok (drop i vs) k o'" and p: "pos_of (drop i vs) k o' = unat off + unat len" by blast
    have "flat (take (i + k) vs) = flat (take i vs) @ flat (take k (drop i vs))"
      by (simp add: take_add flat_def)
    then have "pos_of vs (i + k) o' = pos_of vs i off + unat len" using p by (simp add: pos_of_def)
    moreover have "cursor_ok vs (i + k) o'" using c assms(1) by (auto simp: cursor_ok_def split: if_splits)
    ultimately show ?thesis using True l f vs by (auto simp: pos_of_def)
  next
    case False
    then have "length (flat (drop i vs)) < unat off + unat len" using vs by (simp add: pos_of_def)
    from slice_short [OF ne hd this, of i i] show ?thesis using False vs by (auto simp: pos_of_def)
  qed
qed

end

interpretation iovs: segment_slice iov_len "\<lambda>v. region (iov_base v) (unat (iov_len v))"
    "\<lambda>v off n. \<lparr>iov_base = iov_base v + off, iov_len = n\<rparr>" copy_desc_loop
  by unfold_locales (auto simp: drop_region take_region)

interpretation rmas: segment_slice rma_len "\<lambda>v. map (Pair (rma_key v)) (region (rma_addr v) (unat (rma_len v)))"
    "\<lambda>v off n. \<lparr>rma_addr = rma_addr v + off, rma_len = n, rma_key = rma_key v\<rparr>" copy_rma_loop
  by unfold_locales (auto simp: drop_region take_region drop_map take_map)

lemma iovs_flat: "iovs.flat = iov_addrs"
  by (rule ext) (simp add: iovs.flat_def iov_addrs_def)

subsection \<open>Regions as intervals\<close>

definition iov_wf :: "iovec \<Rightarrow> bool" where
  "iov_wf v \<longleftrightarrow> iov_len v \<noteq> 0 \<and> unat (iov_base v) + unat (iov_len v) \<le> 2 ^ 64"

definition iov_set :: "iovec \<Rightarrow> u64 set" where
  "iov_set v = set (region (iov_base v) (unat (iov_len v)))"

lemma unat_iov_end:
  assumes "iov_wf v"
  shows "unat (ofi_iov_end v) = unat (iov_base v) + unat (iov_len v) - 1"
proof -
  have l: "unat (iov_len v) \<noteq> 0" using assms by (simp add: iov_wf_def unat_eq_0)
  have "unat (iov_len v - 1) = unat (iov_len v) - 1" using l by (simp add: unat_sub word_le_nat_alt)
  moreover from this have "unat (iov_base v + (iov_len v - 1)) = unat (iov_base v) + unat (iov_len v - 1)"
    using assms l by (subst unat_add_lem [symmetric]) (auto simp: iov_wf_def)
  ultimately show ?thesis using l by (simp add: ofi_iov_end_def add_diff_eq)
qed

lemma iov_set_interval: "iov_wf v \<Longrightarrow> iov_set v = {iov_base v .. ofi_iov_end v}"
proof -
  assume wf: "iov_wf v"
  have l: "unat (iov_len v) \<noteq> 0" "unat (iov_len v) \<le> 2 ^ 64" using wf unat_less_pow2 [of "iov_len v"]
    by (simp_all add: iov_wf_def unat_eq_0)
  have "unat (x - iov_base v) < unat (iov_len v) \<longleftrightarrow> iov_base v \<le> x \<and> x \<le> ofi_iov_end v" for x
  proof (cases "iov_base v \<le> x")
    case True
    then show ?thesis using unat_iov_end [OF wf] l by (auto simp: word_le_nat_alt unat_sub)
  next
    case False
    then have "unat (x - iov_base v) = unat x + 2 ^ 64 - unat (iov_base v)"
      by (simp add: unat_sub_if' word_le_nat_alt)
    then show ?thesis using False wf by (auto simp: iov_wf_def)
  qed
  then show ?thesis using l by (auto simp: iov_set_def in_region)
qed

lemma iov_end_ge: "iov_wf v \<Longrightarrow> iov_base v \<le> ofi_iov_end v"
  using unat_iov_end [of v] by (auto simp: word_le_nat_alt iov_wf_def unat_eq_0 dest!: unat_gt_0 [THEN iffD2])

lemma iov_within_subset: "iov_wf v \<Longrightarrow> iov_wf w \<Longrightarrow> ofi_iov_within v w \<longleftrightarrow> iov_set v \<subseteq> iov_set w"
  using iov_end_ge [of v] by (simp add: iov_set_interval ofi_iov_within_def)

lemma iov_disjoint: "iov_wf v \<Longrightarrow> iov_wf w \<Longrightarrow> ofi_iov_left v w \<or> ofi_iov_right v w \<longleftrightarrow> iov_set v \<inter> iov_set w = {}"
proof -
  assume "iov_wf v" "iov_wf w"
  note e = iov_end_ge [OF this(1)] iov_end_ge [OF this(2)] iov_set_interval [OF this(1)] iov_set_interval [OF this(2)]
  show ?thesis
  proof
    assume "ofi_iov_left v w \<or> ofi_iov_right v w"
    then show "iov_set v \<inter> iov_set w = {}" unfolding e by (auto simp: ofi_iov_left_def ofi_iov_right_def)
  next
    assume d: "iov_set v \<inter> iov_set w = {}"
    show "ofi_iov_left v w \<or> ofi_iov_right v w"
    proof (rule ccontr)
      assume "\<not> ?thesis"
      then have "max (iov_base v) (iov_base w) \<in> iov_set v \<inter> iov_set w"
        unfolding e using e(1,2) by (auto simp: ofi_iov_left_def ofi_iov_right_def max_def)
      then show False using d by blast
    qed
  qed
qed

subsection \<open>The least set bit\<close>

definition bm_bit :: "u8 list \<Rightarrow> nat \<Rightarrow> bool" where
  "bm_bit bytes i \<longleftrightarrow> i div 8 < length bytes \<and> bit (bytes ! (i div 8)) (i mod 8)"

definition bm_ok :: "bitmask \<Rightarrow> bool" where
  "bm_ok bm \<longleftrightarrow> unat (bm_size bm) mod 8 = 0 \<and> unat (bm_size bm) div 8 \<le> length (bm_bytes bm)"

lemma trailing_zeros_least:
  assumes "bit b k" and "k < fuel"
  shows "trailing_zeros fuel b < fuel \<and> bit b (trailing_zeros fuel b) \<and> (\<forall>j < trailing_zeros fuel b. \<not> bit b j)"
  using assms
proof (induction fuel arbitrary: b k)
  case (Suc fuel)
  show ?case
  proof (cases "bit b 0")
    case True
    then show ?thesis by (simp add: and_one_eq odd_iff_mod_2_eq_one [symmetric] bit_0)
  next
    case False
    then have "k \<noteq> 0" using Suc.prems(1) by (metis)
    then have "bit (drop_bit 1 b) (k - 1)" "k - 1 < fuel" using Suc.prems by (simp_all add: bit_drop_bit_eq)
    note IH = Suc.IH [OF this]
    have e: "b AND 1 = 0" using False by (simp add: and_one_eq bit_0 even_iff_mod_2_eq_zero)
    have "\<not> bit b j" if "j < Suc (trailing_zeros fuel (drop_bit 1 b))" for j
      using that IH False by (cases j) (auto simp: bit_drop_bit_eq)
    then show ?thesis using IH e by (simp add: bit_drop_bit_eq)
  qed
qed simp

lemma lsbset_loop_least:
  assumes "n \<le> length bytes" and "unat ret + 8 * n < 2 ^ 64"
  shows "\<exists>m. lsbset_loop bytes n ret = Some (ret + of_nat m) \<and> m \<le> 8 * n \<and>
    (\<forall>j < m. \<not> bm_bit bytes j) \<and> (m < 8 * n \<longrightarrow> bm_bit bytes m)"
  using assms
proof (induction bytes n ret rule: lsbset_loop.induct)
  case (3 b bytes n ret)
  show ?case
  proof (cases "b = 0")
    case False
    then obtain k where "bit b k" by (auto simp: bit_eq_iff)
    moreover have "k < 8" using \<open>bit b k\<close> by (auto simp: bit_simps dest: bit_imp_le_length)
    ultimately have "trailing_zeros 8 b < 8" "bit b (trailing_zeros 8 b)" "\<forall>j < trailing_zeros 8 b. \<not> bit b j"
      using trailing_zeros_least [of b k 8] by simp_all
    then show ?thesis using False
      by (intro exI [of _ "trailing_zeros 8 b"]) (auto simp: bm_bit_def)
  next
    case True
    have "unat (ret + 8) = unat ret + 8" using "3.prems" unat_add_lem [of ret 8] by auto
    then obtain m where m: "lsbset_loop bytes n (ret + 8) = Some (ret + 8 + of_nat m)" "m \<le> 8 * n"
      "\<forall>j < m. \<not> bm_bit bytes j" "m < 8 * n \<longrightarrow> bm_bit bytes m"
      using "3.IH" True "3.prems" by auto
    have s: "bm_bit (0 # bytes) j \<longleftrightarrow> 8 \<le> j \<and> bm_bit bytes (j - 8)" for j
    proof (cases "j < 8")
      case False
      then show ?thesis by (simp add: bm_bit_def nth_Cons' le_div_geq le_mod_geq)
    qed (simp add: bm_bit_def)
    show ?thesis using m True by (intro exI [of _ "m + 8"]) (auto simp: s)
  qed
qed auto

lemma get_lsbset_least:
  assumes "bm_ok bm"
  shows "\<exists>r. ofi_bitmask_get_lsbset bm = Some r \<and> r \<le> bm_size bm \<and>
    (\<forall>j < unat r. \<not> bm_bit (bm_bytes bm) j) \<and> (r < bm_size bm \<longrightarrow> bm_bit (bm_bytes bm) (unat r))"
proof -
  let ?n = "unat (bm_size bm div 8)"
  have n: "8 * ?n = unat (bm_size bm)" "?n \<le> length (bm_bytes bm)"
    using assms by (auto simp: bm_ok_def unat_div)
  then have "unat (0 :: size_t) + 8 * ?n < 2 ^ 64" using unat_less_pow2 [of "bm_size bm"] by simp
  from lsbset_loop_least [OF n(2) this] obtain m where
    m: "lsbset_loop (bm_bytes bm) ?n 0 = Some (0 + of_nat m)" "m \<le> unat (bm_size bm)"
      "\<forall>j < m. \<not> bm_bit (bm_bytes bm) j" "m < unat (bm_size bm) \<longrightarrow> bm_bit (bm_bytes bm) m"
    unfolding n by blast
  then have "unat (of_nat m :: size_t) = m" using unat_less_pow2 [of "bm_size bm"] by (intro unat_of_nat_u64) simp
  then show ?thesis using m by (simp add: ofi_bitmask_get_lsbset_def word_le_nat_alt word_less_nat_alt)
qed

lemma bit_clear_u8: "bit (b AND NOT (push_bit k 1)) i \<longleftrightarrow> bit (b :: u8) i \<and> i \<noteq> k"
  by (auto simp: bit_simps dest: bit_imp_le_length)

lemma bm_unset_bit:
  assumes "ofi_bitmask_unset bm idx = Some bm'"
  shows "bm_size bm' = bm_size bm \<and> length (bm_bytes bm') = length (bm_bytes bm) \<and>
    bm_bit (bm_bytes bm') i = (bm_bit (bm_bytes bm) i \<and> i \<noteq> unat idx)"
proof -
  have d: "unat (idx div 8) = unat idx div 8" "unat (idx mod 8) = unat idx mod 8"
    by (simp_all add: unat_div unat_mod)
  have "i = unat idx" if "i div 8 = unat idx div 8" "i mod 8 = unat idx mod 8" using that by (metis div_mult_mod_eq)
  then show ?thesis using assms
    by (auto simp: ofi_bitmask_unset_def bm_update_def Let_def d bm_bit_def bit_clear_u8 nth_list_update
        simp del: push_bit_of_1 split: if_splits)
qed

section \<open>Properties\<close>

text \<open>C16. Scattering a buffer into a vector at an offset and gathering it back.  When the buffers do not
  overlap the vector and its entries do not overlap each other, both calls return the same count, the
  smaller of the buffer size and the bytes after the offset; the gathered bytes are the scattered
  ones, and no byte outside that part of the vector and the second buffer changes.\<close>

theorem scatter_gather_roundtrip:
  assumes "set (region buf (unat bufsize)) \<inter> set (iov_addrs iov) = {}"
    and "set (region buf' (unat bufsize)) \<inter> set (iov_addrs iov) = {}" and "distinct (iov_addrs iov)"
    and "ofi_copy_to_iov iov offset buf bufsize mem = (n, mem1)"
    and "ofi_copy_from_iov buf' bufsize iov offset mem1 = (n', mem2)"
  shows "n' = n \<and> unat n = min (unat bufsize) (length (iov_addrs iov) - unat offset) \<and>
    map mem2 (region buf' (unat n)) = map mem (region buf (unat n)) \<and>
    (\<forall>a. a \<notin> set (take (unat n) (drop (unat offset) (iov_addrs iov))) \<and> a \<notin> set (region buf' (unat n)) \<longrightarrow>
      mem2 a = mem a)"
proof -
  define k where "k = min (unat bufsize) (length (iov_addrs iov) - unat offset)"
  define s where "s = take k (drop (unat offset) (iov_addrs iov))"
  have k: "k < 2 ^ 64" using unat_less_pow2 [of bufsize] by (simp add: k_def)
  have 1: "n = of_nat k" "mem1 = transfer mem s (region buf k)"
    using copy_to_iov_transfer [OF assms(1,3) k_def, of mem] assms(4) by (simp_all add: s_def)
  have 2: "n' = of_nat k" "mem2 = transfer mem1 (region buf' k) s"
    using copy_from_iov_transfer [OF assms(2) k_def, of mem1] assms(5) by (simp_all add: s_def)
  have n: "unat n = k" using 1(1) k by (simp add: unat_of_nat_u64)
  have l: "length s = k" by (simp add: s_def k_def)
  have "map mem2 (region buf' k) = map mem1 s"
    unfolding 2 using l k by (intro transfer_read distinct_region) simp_all
  also have "\<dots> = map mem (region buf k)"
    unfolding 1 using l assms(3) by (intro transfer_read) (simp_all add: s_def)
  finally have "map mem2 (region buf' k) = map mem (region buf k)" .
  moreover have "mem2 a = mem a" if "a \<notin> set s" "a \<notin> set (region buf' k)" for a
    using that by (simp add: 1 2 transfer_other)
  ultimately show ?thesis using 1 2 unfolding n s_def [symmetric] k_def [symmetric] by simp
qed

definition ex_iov :: "iovec list" where
  "ex_iov = [\<lparr>iov_base = 100, iov_len = 2\<rparr>, \<lparr>iov_base = 200, iov_len = 3\<rparr>]"

theorem scatter_gather_roundtrip_witness:
  "\<exists>n mem1 n' mem2. ofi_copy_to_iov ex_iov 1 10 8 (\<lambda>a. ucast a) = (n, mem1) \<and>
    ofi_copy_from_iov 20 8 ex_iov 1 mem1 = (n', mem2) \<and> n' = n \<and> unat n = 4"
proof -
  have a: "iov_addrs ex_iov = [100, 101, 200, 201, 202]" by (simp add: ex_iov_def region_def upt_rec)
  obtain n mem1 where 1: "ofi_copy_to_iov ex_iov 1 10 8 (\<lambda>a. ucast a) = (n, mem1)" by fastforce
  obtain n' mem2 where 2: "ofi_copy_from_iov 20 8 ex_iov 1 mem1 = (n', mem2)" by fastforce
  have d: "set (region 10 (unat (8 :: u64))) \<inter> set (iov_addrs ex_iov) = {}"
    "set (region 20 (unat (8 :: u64))) \<inter> set (iov_addrs ex_iov) = {}" "distinct (iov_addrs ex_iov)"
    by (simp_all add: a region_def upt_rec)
  from scatter_gather_roundtrip [OF d 1 2] 1 2 show ?thesis by (auto simp: a)
qed

text \<open>C33. Truncating a vector to \<open>n\<close> bytes and consuming \<open>n\<close> bytes of it split the bytes it denotes: the
  first keeps the first \<open>n\<close> of them, the second the rest, for every \<open>n\<close> up to the total; beyond it
  truncation fails and leaves the vector as it was.\<close>

theorem truncate_consume_split:
  assumes "iov \<noteq> []"
  shows "if unat n \<le> length (iov_addrs iov)
    then \<exists>front back. ofi_truncate_iov iov n = (Inr (), front) \<and> ofi_consume_iov iov n = Some back \<and>
      iov_addrs front = take (unat n) (iov_addrs iov) \<and> iov_addrs front @ iov_addrs back = iov_addrs iov
    else ofi_truncate_iov iov n = (Inl FI_ETRUNC, iov)"
proof -
  obtain ret front where t: "ofi_truncate_iov iov n = (ret, front)" by fastforce
  show ?thesis using truncate_iov_addrs [OF t] consume_iov_addrs [OF assms, of n] t assms by auto
qed

theorem truncate_consume_split_witness:
  "\<exists>front back. ofi_truncate_iov ex_iov 3 = (Inr (), front) \<and> ofi_consume_iov ex_iov 3 = Some back \<and>
    iov_addrs front @ iov_addrs back = iov_addrs ex_iov"
proof -
  have "ex_iov \<noteq> []" "unat (3 :: size_t) \<le> length (iov_addrs ex_iov)" by (simp_all add: ex_iov_def)
  from truncate_consume_split [OF this(1), of 3] this(2) show ?thesis by auto
qed

text \<open>C34. \<open>ofi_copy_iov_desc\<close> copies out, at a cursor of an entry and an offset in it, exactly the next
  \<open>len\<close> bytes, and advances the cursor by \<open>len\<close> bytes to a valid one, so successive calls cover the
  vector without gap or overlap.  When fewer bytes are left it fails, and the offset is reset to the
  start of the entry.\<close>

theorem copy_iov_desc_slices:
  assumes "index < length iov" and "offset \<le> iov_len (iov ! index)"
    and "p = length (iov_addrs (take index iov)) + unat offset"
  shows "if p + unat len \<le> length (iov_addrs iov)
    then \<exists>dst index' offset'.
      ofi_copy_iov_desc iov (Some desc) index offset len =
        Some (Inr (), dst, Some (take (length dst) (drop index desc)), index', offset') \<and>
      iov_addrs dst = take (unat len) (drop p (iov_addrs iov)) \<and>
      length (iov_addrs (take index' iov)) + unat offset' = p + unat len \<and>
      (if index' < length iov then offset' \<le> iov_len (iov ! index') else index' = length iov \<and> offset' = 0)
    else \<exists>dst.
      ofi_copy_iov_desc iov (Some desc) index offset len =
        Some (Inl FI_ETOOSMALL, dst, Some (take (length dst) (drop index desc)), index, 0) \<and>
      iov_addrs dst = drop p (iov_addrs iov)"
proof (cases "p + unat len \<le> length (iov_addrs iov)")
  case True
  then obtain dst i' o' where
    l: "copy_desc_loop index (drop index iov) index offset len = (Inr (), dst, i', o')"
    and r: "iov_addrs dst = take (unat len) (drop p (iov_addrs iov))"
      "length (iov_addrs (take i' iov)) + unat o' = p + unat len"
      "if i' < length iov then o' \<le> iov_len (iov ! i') else i' = length iov \<and> o' = 0"
    using iovs.slice_at [OF assms(1,2), of len]
    unfolding iovs.pos_of_def iovs.cursor_ok_def iovs_flat assms(3) [symmetric] by auto
  have "ofi_copy_iov_desc iov (Some desc) index offset len =
      Some (Inr (), dst, Some (take (length dst) (drop index desc)), i', o')"
    using l assms(1,2) by (simp add: ofi_copy_iov_desc_def)
  with r True show ?thesis by metis
next
  case False
  then show ?thesis
    using iovs.slice_at [OF assms(1,2), of len] assms(1,2)
    unfolding iovs.pos_of_def iovs.cursor_ok_def iovs_flat assms(3) by (auto simp: ofi_copy_iov_desc_def)
qed

theorem copy_iov_desc_slices_witness:
  "\<exists>dst. iov_addrs dst = [101, 200] \<and>
    (\<exists>i o' d. ofi_copy_iov_desc ex_iov (Some [(), ()]) 0 1 2 = Some (Inr (), dst, d, i, o'))"
proof -
  have "0 < length ex_iov" "1 \<le> iov_len (ex_iov ! 0)" and "1 = length (iov_addrs (take 0 ex_iov)) + unat (1 :: size_t)"
    and a: "iov_addrs ex_iov = [100, 101, 200, 201, 202]"
    by (simp_all add: ex_iov_def region_def upt_rec)
  from copy_iov_desc_slices [OF this(1-3), of 2 "[(), ()]"] show ?thesis by (auto simp: a)
qed

text \<open>C35. The identifiers of a mask whose size is a multiple of eight and whose bytes were all allocated:
  \<open>ofi_bitmask_get_lsbset\<close> returns the least one that is set, clearing it succeeds and clears only that
  one.  When none is set it returns the size of the mask, and clearing that passes the assertion and
  writes beyond the last byte.\<close>

theorem bitmask_least_identifier:
  assumes "bm_ok bm"
  shows "\<exists>r. ofi_bitmask_get_lsbset bm = Some r \<and>
    (if \<exists>j < unat (bm_size bm). bm_bit (bm_bytes bm) j
     then unat r = (LEAST j. bm_bit (bm_bytes bm) j) \<and>
       (\<exists>bm'. ofi_bitmask_unset bm r = Some bm' \<and> bm_ok bm' \<and>
         (\<forall>i. bm_bit (bm_bytes bm') i = (bm_bit (bm_bytes bm) i \<and> i \<noteq> unat r)))
     else r = bm_size bm \<and> r \<le> bm_size bm \<and>
       (length (bm_bytes bm) = unat (bm_size bm) div 8 \<longrightarrow> ofi_bitmask_unset bm r = None))"
proof -
  obtain r where r: "ofi_bitmask_get_lsbset bm = Some r" "r \<le> bm_size bm"
    "\<forall>j < unat r. \<not> bm_bit (bm_bytes bm) j" "r < bm_size bm \<longrightarrow> bm_bit (bm_bytes bm) (unat r)"
    using get_lsbset_least [OF assms] by blast
  show ?thesis
  proof (cases "\<exists>j < unat (bm_size bm). bm_bit (bm_bytes bm) j")
    case True
    then have "r < bm_size bm" using r(2,3) by (metis word_le_nat_alt word_less_nat_alt le_neq_implies_less)
    then have b: "bm_bit (bm_bytes bm) (unat r)" using r(4) by blast
    then have "unat r = (LEAST j. bm_bit (bm_bytes bm) j)"
      using r(3) by (intro Least_equality [symmetric]) (auto simp: not_less [symmetric])
    moreover obtain bm' where u: "ofi_bitmask_unset bm r = Some bm'"
      using b r(2) by (auto simp: ofi_bitmask_unset_def bm_update_def Let_def bm_bit_def unat_div)
    ultimately show ?thesis using True r(1) bm_unset_bit [OF u] assms by (auto simp: bm_ok_def)
  next
    case False
    then have "\<not> r < bm_size bm" using r(4) by (auto simp: word_less_nat_alt)
    then have "r = bm_size bm" using r(2) by simp
    then show ?thesis using False r(1)
      by (auto simp: ofi_bitmask_unset_def bm_update_def Let_def unat_div)
  qed
qed

theorem bitmask_least_identifier_witness:
  "\<exists>r. ofi_bitmask_get_lsbset \<lparr>bm_size = 8, bm_bytes = [6]\<rparr> = Some r \<and> unat r = (LEAST j. bm_bit [6] j)"
proof -
  have ok: "bm_ok \<lparr>bm_size = 8, bm_bytes = [6]\<rparr>" by (simp add: bm_ok_def)
  have "bm_bit [6] 1" by (simp add: bm_bit_def bit_iff_odd)
  then have "\<exists>j < 8. bm_bit [6] j" by (intro exI [of _ 1]) simp
  then show ?thesis using bitmask_least_identifier [OF ok] by auto
qed

text \<open>\<open>ofi_bitmask_create\<close> tests the number of bytes, not of bits, for a remainder: a mask of four bits gets
  no byte at all and \<open>ofi_bitmask_set_all\<close> writes outside the allocation.  The masks of the collectives
  have 256 bits, for which the allocation is exact.\<close>

lemma bitmask_create_too_small:
  "ofi_bitmask_create (\<lambda>_. True) 4 = Inr \<lparr>bm_size = 4, bm_bytes = []\<rparr> \<and>
   ofi_bitmask_set_all \<lparr>bm_size = 4, bm_bytes = []\<rparr> = None"
  by (simp add: ofi_bitmask_create_def ofi_bitmask_set_all_def ofi_bitmask_bytesize_def)

lemma bitmask_create_group_ids:
  assumes "ofi_bitmask_create calloc 256 = Inr bm" and "ofi_bitmask_set_all bm = Some bm'"
  shows "bm_ok bm' \<and> bm_bytes bm' = replicate 32 0xFF"
  using assms by (auto simp: ofi_bitmask_create_def ofi_bitmask_set_all_def ofi_bitmask_bytesize_def bm_ok_def
      memcpy_def split: if_splits)

end
