(* ===== verification/Ofi_Tree.thy ===== *)
theory Ofi_Tree
  imports Ofi_Prelude
begin

section \<open>The red-black map\<close>

text \<open>
  \<^verbatim>\<open>src/tree.c\<close> at the level of pointers.  A node is a number, the sentinel of the map is \<open>0\<close>, and the
  fields of \<open>struct ofi_rbnode\<close> are functions on nodes, so that an assignment to a field is an update of
  its function.  A parent pointer may be \<open>NULL\<close> (\<open>None\<close>); the other pointers are never.  \<open>rb_live\<close> is the
  set of nodes that are allocated.  Loops are \<open>option\<close>-valued partial functions whose value \<open>None\<close> is a
  loop that does not return; that they return is part of the theorems.
\<close>

datatype (plugins only: code size) ofi_node_color = BLACK | RED

record 'd ofi_rbmap =
  rb_root :: nat
  rb_left :: "nat \<Rightarrow> nat"
  rb_right :: "nat \<Rightarrow> nat"
  rb_parent :: "nat \<Rightarrow> nat option"
  rb_color :: "nat \<Rightarrow> ofi_node_color"
  rb_data :: "nat \<Rightarrow> 'd"
  rb_live :: "nat set"

definition set_left :: "nat \<Rightarrow> nat \<Rightarrow> 'd ofi_rbmap \<Rightarrow> 'd ofi_rbmap" where
  "set_left p q m = m\<lparr>rb_left := (rb_left m)(p := q)\<rparr>"

definition set_right :: "nat \<Rightarrow> nat \<Rightarrow> 'd ofi_rbmap \<Rightarrow> 'd ofi_rbmap" where
  "set_right p q m = m\<lparr>rb_right := (rb_right m)(p := q)\<rparr>"

definition set_parent :: "nat \<Rightarrow> nat option \<Rightarrow> 'd ofi_rbmap \<Rightarrow> 'd ofi_rbmap" where
  "set_parent p q m = m\<lparr>rb_parent := (rb_parent m)(p := q)\<rparr>"

definition set_color :: "nat \<Rightarrow> ofi_node_color \<Rightarrow> 'd ofi_rbmap \<Rightarrow> 'd ofi_rbmap" where
  "set_color p c m = m\<lparr>rb_color := (rb_color m)(p := c)\<rparr>"

definition set_data :: "nat \<Rightarrow> 'd \<Rightarrow> 'd ofi_rbmap \<Rightarrow> 'd ofi_rbmap" where
  "set_data p d m = m\<lparr>rb_data := (rb_data m)(p := d)\<rparr>"

lemmas field_updates = set_left_def set_right_def set_parent_def set_color_def set_data_def

text \<open>Following a parent pointer; \<open>NULL\<close> has no node.\<close>

definition par :: "'d ofi_rbmap \<Rightarrow> nat \<Rightarrow> nat" where
  "par m x = the (rb_parent m x)"

subsection \<open>Creation and destruction\<close>

text \<open>The map \<open>m\<close> is the memory before the call; \<open>NULL\<close> is the data of the sentinel.\<close>

definition ofi_rbmap_init :: "'d \<Rightarrow> 'd ofi_rbmap \<Rightarrow> 'd ofi_rbmap" where
  "ofi_rbmap_init null m =
    set_data 0 null (set_color 0 BLACK (set_parent 0 None (set_right 0 0 (set_left 0 0 (m\<lparr>rb_root := 0\<rparr>)))))"

text \<open>\<open>calloc\<close> may fail; a new map owns no node.\<close>

definition ofi_rbmap_create :: "'d \<Rightarrow> bool \<Rightarrow> 'd ofi_rbmap option" where
  "ofi_rbmap_create null calloc =
    (if calloc
     then Some (ofi_rbmap_init null
            \<lparr>rb_root = 0, rb_left = \<lambda>_. 0, rb_right = \<lambda>_. 0, rb_parent = \<lambda>_. None, rb_color = \<lambda>_. BLACK,
             rb_data = \<lambda>_. null, rb_live = {}\<rparr>)
     else None)"

text \<open>The nodes freed, in order.\<close>

partial_function (option) ofi_delete_tree :: "'d ofi_rbmap \<Rightarrow> nat \<Rightarrow> nat list option" where
  "ofi_delete_tree m node =
    (if node = 0 then Some []
     else Option.bind (ofi_delete_tree m (rb_left m node)) (\<lambda>ls.
            Option.bind (ofi_delete_tree m (rb_right m node)) (\<lambda>rs. Some (ls @ rs @ [node]))))"

definition ofi_rbmap_cleanup :: "'d ofi_rbmap \<Rightarrow> nat list option" where
  "ofi_rbmap_cleanup m = ofi_delete_tree m (rb_root m)"

definition ofi_rbmap_destroy :: "'d ofi_rbmap \<Rightarrow> nat list option" where
  "ofi_rbmap_destroy m = ofi_rbmap_cleanup m"

definition ofi_rbmap_empty :: "'d ofi_rbmap \<Rightarrow> bool" where
  "ofi_rbmap_empty m \<longleftrightarrow> rb_root m = 0"

subsection \<open>Rotations\<close>

text \<open>Setting the parent of a child that is not the sentinel, and letting the parent of \<open>node\<close>, or the root,
  point to \<open>y\<close> instead; the two versions test the left or the right pointer first.\<close>

definition adopt :: "nat \<Rightarrow> nat option \<Rightarrow> 'd ofi_rbmap \<Rightarrow> 'd ofi_rbmap" where
  "adopt x p m = (if x \<noteq> 0 then set_parent x p m else m)"

definition redirect_left :: "nat option \<Rightarrow> nat \<Rightarrow> nat \<Rightarrow> 'd ofi_rbmap \<Rightarrow> 'd ofi_rbmap" where
  "redirect_left parent node y m =
    (case parent of
       Some p \<Rightarrow> if node = rb_left m p then set_left p y m else set_right p y m
     | None \<Rightarrow> m\<lparr>rb_root := y\<rparr>)"

definition redirect_right :: "nat option \<Rightarrow> nat \<Rightarrow> nat \<Rightarrow> 'd ofi_rbmap \<Rightarrow> 'd ofi_rbmap" where
  "redirect_right parent node y m =
    (case parent of
       Some p \<Rightarrow> if node = rb_right m p then set_right p y m else set_left p y m
     | None \<Rightarrow> m\<lparr>rb_root := y\<rparr>)"

definition ofi_rotate_left :: "nat \<Rightarrow> 'd ofi_rbmap \<Rightarrow> 'd ofi_rbmap" where
  "ofi_rotate_left node m =
    (let y = rb_right m node;
         m = set_right node (rb_left m y) m;
         m = adopt (rb_left m y) (Some node) m;
         m = adopt y (rb_parent m node) m;
         m = redirect_left (rb_parent m node) node y m;
         m = set_left y node m
     in adopt node (Some y) m)"

definition ofi_rotate_right :: "nat \<Rightarrow> 'd ofi_rbmap \<Rightarrow> 'd ofi_rbmap" where
  "ofi_rotate_right node m =
    (let y = rb_left m node;
         m = set_left node (rb_right m y) m;
         m = adopt (rb_right m y) (Some node) m;
         m = adopt y (rb_parent m node) m;
         m = redirect_right (rb_parent m node) node y m;
         m = set_right y node m
     in adopt node (Some y) m)"

subsection \<open>Insertion\<close>

text \<open>The body of the loop, for a parent that is a left child and for one that is not: the map and the
  new \<open>x\<close>.\<close>

definition insert_step_left :: "'d ofi_rbmap \<Rightarrow> nat \<Rightarrow> 'd ofi_rbmap \<times> nat" where
  "insert_step_left m x =
    (let y = rb_right m (par m (par m x))
     in if rb_color m y = RED
        then let m = set_color (par m x) BLACK m; m = set_color y BLACK m; m = set_color (par m (par m x)) RED m
             in (m, par m (par m x))
        else let (m, x) = (if x = rb_right m (par m x) then (ofi_rotate_left (par m x) m, par m x) else (m, x));
                 m = set_color (par m x) BLACK m; m = set_color (par m (par m x)) RED m
             in (ofi_rotate_right (par m (par m x)) m, x))"

definition insert_step_right :: "'d ofi_rbmap \<Rightarrow> nat \<Rightarrow> 'd ofi_rbmap \<times> nat" where
  "insert_step_right m x =
    (let y = rb_left m (par m (par m x))
     in if rb_color m y = RED
        then let m = set_color (par m x) BLACK m; m = set_color y BLACK m; m = set_color (par m (par m x)) RED m
             in (m, par m (par m x))
        else let (m, x) = (if x = rb_left m (par m x) then (ofi_rotate_right (par m x) m, par m x) else (m, x));
                 m = set_color (par m x) BLACK m; m = set_color (par m (par m x)) RED m
             in (ofi_rotate_left (par m (par m x)) m, x))"

definition insert_step :: "'d ofi_rbmap \<Rightarrow> nat \<Rightarrow> 'd ofi_rbmap \<times> nat" where
  "insert_step m x =
    (if par m x = rb_left m (par m (par m x)) then insert_step_left m x else insert_step_right m x)"

partial_function (option) ofi_insert_rebalance :: "'d ofi_rbmap \<Rightarrow> nat \<Rightarrow> 'd ofi_rbmap option" where
  "ofi_insert_rebalance m x =
    (if x \<noteq> rb_root m \<and> rb_color m (par m x) = RED
     then ofi_insert_rebalance (fst (insert_step m x)) (snd (insert_step m x))
     else Some (set_color (rb_root m) BLACK m))"

text \<open>The descent: the parent of the place for the key, or the error for a key that is there.\<close>

partial_function (option) insert_walk ::
    "('k \<Rightarrow> 'd \<Rightarrow> int) \<Rightarrow> 'd ofi_rbmap \<Rightarrow> 'k \<Rightarrow> nat \<Rightarrow> nat option \<Rightarrow> nat option fi_result option" where
  "insert_walk compare m key current parent =
    (if current = 0 then Some (Inr parent)
     else if compare key (rb_data m current) = 0 then Some (Inl FI_EALREADY)
     else insert_walk compare m key
            (if compare key (rb_data m current) < 0 then rb_left m current else rb_right m current) (Some current))"

text \<open>The new node hung below its parent.\<close>

definition attach_node :: "('k \<Rightarrow> 'd \<Rightarrow> int) \<Rightarrow> 'd ofi_rbmap \<Rightarrow> 'k \<Rightarrow> 'd \<Rightarrow> nat option \<Rightarrow> nat \<Rightarrow> 'd ofi_rbmap" where
  "attach_node compare m key data parent node =
    (let m = m\<lparr>rb_live := insert node (rb_live m)\<rparr>;
         m = set_parent node parent m; m = set_left node 0 m; m = set_right node 0 m;
         m = set_color node RED m; m = set_data node data m
     in case parent of
          Some p \<Rightarrow> if compare key (rb_data m p) < 0 then set_left p node m else set_right p node m
        | None \<Rightarrow> m\<lparr>rb_root := node\<rparr>)"

text \<open>\<open>malloc\<close> gives the address of the new node or fails.  The result is the node.\<close>

definition ofi_rbmap_insert ::
    "('k \<Rightarrow> 'd \<Rightarrow> int) \<Rightarrow> nat option \<Rightarrow> 'd ofi_rbmap \<Rightarrow> 'k \<Rightarrow> 'd \<Rightarrow> (nat fi_result \<times> 'd ofi_rbmap) option" where
  "ofi_rbmap_insert compare malloc m key data =
    Option.bind (insert_walk compare m key (rb_root m) None) (\<lambda>r.
      case r of
        Inl e \<Rightarrow> Some (Inl e, m)
      | Inr parent \<Rightarrow>
          (case malloc of
             None \<Rightarrow> Some (Inl FI_ENOMEM, m)
           | Some node \<Rightarrow> map_option (Pair (Inr node))
                            (ofi_insert_rebalance (attach_node compare m key data parent node) node)))"

subsection \<open>Deletion\<close>

text \<open>The body of the loop, with the sibling \<open>w\<close>: first a red sibling is rotated away, then the black
  sibling is handled.\<close>

definition delete_step_left :: "'d ofi_rbmap \<Rightarrow> nat \<Rightarrow> 'd ofi_rbmap \<times> nat" where
  "delete_step_left m node =
    (let w = rb_right m (par m node);
         (m, w) = (if rb_color m w = RED
                   then let m = set_color w BLACK m; m = set_color (par m node) RED m;
                            m = ofi_rotate_left (par m node) m
                        in (m, rb_right m (par m node))
                   else (m, w))
     in if rb_color m (rb_left m w) = BLACK \<and> rb_color m (rb_right m w) = BLACK
        then (set_color w RED m, par m node)
        else let (m, w) = (if rb_color m (rb_right m w) = BLACK
                           then let m = set_color (rb_left m w) BLACK m; m = set_color w RED m;
                                    m = ofi_rotate_right w m
                                in (m, rb_right m (par m node))
                           else (m, w));
                 m = set_color w (rb_color m (par m node)) m;
                 m = set_color (par m node) BLACK m;
                 m = set_color (rb_right m w) BLACK m;
                 m = ofi_rotate_left (par m node) m
             in (m, rb_root m))"

definition delete_step_right :: "'d ofi_rbmap \<Rightarrow> nat \<Rightarrow> 'd ofi_rbmap \<times> nat" where
  "delete_step_right m node =
    (let w = rb_left m (par m node);
         (m, w) = (if rb_color m w = RED
                   then let m = set_color w BLACK m; m = set_color (par m node) RED m;
                            m = ofi_rotate_right (par m node) m
                        in (m, rb_left m (par m node))
                   else (m, w))
     in if rb_color m (rb_right m w) = BLACK \<and> rb_color m (rb_left m w) = BLACK
        then (set_color w RED m, par m node)
        else let (m, w) = (if rb_color m (rb_left m w) = BLACK
                           then let m = set_color (rb_right m w) BLACK m; m = set_color w RED m;
                                    m = ofi_rotate_left w m
                                in (m, rb_left m (par m node))
                           else (m, w));
                 m = set_color w (rb_color m (par m node)) m;
                 m = set_color (par m node) BLACK m;
                 m = set_color (rb_left m w) BLACK m;
                 m = ofi_rotate_right (par m node) m
             in (m, rb_root m))"

definition delete_step :: "'d ofi_rbmap \<Rightarrow> nat \<Rightarrow> 'd ofi_rbmap \<times> nat" where
  "delete_step m node =
    (if node = rb_left m (par m node) then delete_step_left m node else delete_step_right m node)"

partial_function (option) ofi_delete_rebalance :: "'d ofi_rbmap \<Rightarrow> nat \<Rightarrow> 'd ofi_rbmap option" where
  "ofi_delete_rebalance m node =
    (if node \<noteq> rb_root m \<and> rb_color m node = BLACK
     then ofi_delete_rebalance (fst (delete_step m node)) (snd (delete_step m node))
     else Some (set_color node BLACK m))"

text \<open>The new node gets all fields of the old one and takes its place.\<close>

definition ofi_rbmap_replace_node_ptr :: "nat \<Rightarrow> nat \<Rightarrow> 'd ofi_rbmap \<Rightarrow> 'd ofi_rbmap" where
  "ofi_rbmap_replace_node_ptr old_node new_node m =
    (if new_node = old_node then m
     else let m = set_left new_node (rb_left m old_node) m; m = set_right new_node (rb_right m old_node) m;
              m = set_parent new_node (rb_parent m old_node) m; m = set_color new_node (rb_color m old_node) m;
              m = set_data new_node (rb_data m old_node) m;
              m = redirect_left (rb_parent m old_node) old_node new_node m;
              m = adopt (rb_left m old_node) (Some new_node) m
          in adopt (rb_right m old_node) (Some new_node) m)"

partial_function (option) leftmost :: "'d ofi_rbmap \<Rightarrow> nat \<Rightarrow> nat option" where
  "leftmost m y = (if rb_left m y \<noteq> 0 then leftmost m (rb_left m y) else Some y)"

text \<open>Unlinking \<open>y\<close>, which has at most the child \<open>x\<close>.\<close>

definition unlink_node :: "nat \<Rightarrow> nat \<Rightarrow> 'd ofi_rbmap \<Rightarrow> 'd ofi_rbmap" where
  "unlink_node y x m =
    (let m = set_parent x (rb_parent m y) m in redirect_left (rb_parent m y) y x m)"

definition ofi_rbmap_delete :: "'d ofi_rbmap \<Rightarrow> nat \<Rightarrow> 'd ofi_rbmap option" where
  "ofi_rbmap_delete m node =
    Option.bind (if rb_left m node = 0 then Some (node, rb_right m node)
                 else if rb_right m node = 0 then Some (node, rb_left m node)
                 else map_option (\<lambda>y. (y, rb_right m y)) (leftmost m (rb_right m node)))
      (\<lambda>(y, x).
        let m = unlink_node y x m;
            m = (if y \<noteq> node then set_data node (rb_data m y) m else m)
        in Option.bind (if rb_color m y = BLACK then ofi_delete_rebalance m x else Some m)
             (\<lambda>m. let m = ofi_rbmap_replace_node_ptr node y m
                  in Some (m\<lparr>rb_live := rb_live m - {node}\<rparr>)))"

subsection \<open>Lookup\<close>

partial_function (option) search_loop :: "('k \<Rightarrow> 'd \<Rightarrow> int) \<Rightarrow> 'd ofi_rbmap \<Rightarrow> 'k \<Rightarrow> nat \<Rightarrow> nat option option" where
  "search_loop compare m key node =
    (if node = 0 then Some None
     else if compare key (rb_data m node) = 0 then Some (Some node)
     else search_loop compare m key (if compare key (rb_data m node) < 0 then rb_left m node else rb_right m node))"

definition ofi_rbmap_search :: "('k \<Rightarrow> 'd \<Rightarrow> int) \<Rightarrow> 'd ofi_rbmap \<Rightarrow> 'k \<Rightarrow> nat option option" where
  "ofi_rbmap_search compare m key = search_loop compare m key (rb_root m)"

text \<open>The lookup with the comparison of the map.\<close>

definition ofi_rbmap_find :: "('k \<Rightarrow> 'd \<Rightarrow> int) \<Rightarrow> 'd ofi_rbmap \<Rightarrow> 'k \<Rightarrow> nat option option" where
  "ofi_rbmap_find compare m key = search_loop compare m key (rb_root m)"

definition ofi_rbmap_find_delete ::
    "('k \<Rightarrow> 'd \<Rightarrow> int) \<Rightarrow> 'd ofi_rbmap \<Rightarrow> 'k \<Rightarrow> (unit fi_result \<times> 'd ofi_rbmap) option" where
  "ofi_rbmap_find_delete compare m key =
    Option.bind (ofi_rbmap_find compare m key) (\<lambda>r.
      case r of
        None \<Rightarrow> Some (Inl FI_ENODATA, m)
      | Some node \<Rightarrow> map_option (Pair (Inr ())) (ofi_rbmap_delete m node))"

section \<open>Trees and contexts\<close>

text \<open>
  The shape of a map: a tree of nodes with their colours, and a context, the path from a subtree to the
  root with the siblings on it, innermost first.  \<open>rep\<close> and \<open>repz\<close> say that the pointers form the tree
  and the context.
\<close>

datatype rbt = Lf | Nd ofi_node_color rbt nat rbt

datatype frame = InL ofi_node_color nat rbt | InR ofi_node_color rbt nat

fun inorder :: "rbt \<Rightarrow> nat list" where
  "inorder Lf = []"
| "inorder (Nd c l x r) = inorder l @ x # inorder r"

fun rid :: "rbt \<Rightarrow> nat" where
  "rid Lf = 0"
| "rid (Nd c l x r) = x"

fun col :: "rbt \<Rightarrow> ofi_node_color" where
  "col Lf = BLACK"
| "col (Nd c l x r) = c"

fun paint :: "ofi_node_color \<Rightarrow> rbt \<Rightarrow> rbt" where
  "paint c Lf = Lf"
| "paint c (Nd _ l x r) = Nd c l x r"

fun fill :: "frame \<Rightarrow> rbt \<Rightarrow> rbt" where
  "fill (InL c x r) t = Nd c t x r"
| "fill (InR c l x) t = Nd c l x t"

fun plug :: "rbt \<Rightarrow> frame list \<Rightarrow> rbt" where
  "plug t [] = t"
| "plug t (f # zs) = plug (fill f t) zs"

fun fnode :: "frame \<Rightarrow> nat" where
  "fnode (InL c x r) = x"
| "fnode (InR c l x) = x"

fun fcol :: "frame \<Rightarrow> ofi_node_color" where
  "fcol (InL c x r) = c"
| "fcol (InR c l x) = c"

fun fsib :: "frame \<Rightarrow> rbt" where
  "fsib (InL c x r) = r"
| "fsib (InR c l x) = l"

fun fids :: "frame \<Rightarrow> nat list" where
  "fids (InL c x r) = x # inorder r"
| "fids (InR c l x) = x # inorder l"

fun cpar :: "frame list \<Rightarrow> nat option" where
  "cpar [] = None"
| "cpar (f # zs) = Some (fnode f)"

definition cids :: "frame list \<Rightarrow> nat list" where
  "cids zs = concat (map fids zs)"

lemma cids_simps [simp]: "cids [] = []" "cids (f # zs) = fids f @ cids zs"
  by (simp_all add: cids_def)

fun rep :: "'d ofi_rbmap \<Rightarrow> nat option \<Rightarrow> rbt \<Rightarrow> bool" where
  "rep m p Lf \<longleftrightarrow> True"
| "rep m p (Nd c l x r) \<longleftrightarrow> x \<noteq> 0 \<and> rb_left m x = rid l \<and> rb_right m x = rid r \<and> rb_parent m x = p \<and>
    rb_color m x = c \<and> rep m (Some x) l \<and> rep m (Some x) r"

fun repz :: "'d ofi_rbmap \<Rightarrow> nat \<Rightarrow> frame list \<Rightarrow> bool" where
  "repz m h [] \<longleftrightarrow> rb_root m = h"
| "repz m h (InL c x r # zs) \<longleftrightarrow> x \<noteq> 0 \<and> rb_left m x = h \<and> rb_right m x = rid r \<and> rb_parent m x = cpar zs \<and>
    rb_color m x = c \<and> rep m (Some x) r \<and> repz m x zs"
| "repz m h (InR c l x # zs) \<longleftrightarrow> x \<noteq> 0 \<and> rb_left m x = rid l \<and> rb_right m x = h \<and> rb_parent m x = cpar zs \<and>
    rb_color m x = c \<and> rep m (Some x) l \<and> repz m x zs"

lemma rid_fill [simp]: "rid (fill f t) = fnode f"
  by (cases f) auto

lemma rep_plug: "rep m None (plug t zs) \<and> rb_root m = rid (plug t zs) \<longleftrightarrow> rep m (cpar zs) t \<and> repz m (rid t) zs"
proof (induction zs arbitrary: t)
  case (Cons f zs)
  show ?case using Cons [of "fill f t"] by (cases f) auto
qed auto

lemma rep_cong:
  assumes "\<And>x. x \<in> set (inorder t) \<Longrightarrow> rb_left m' x = rb_left m x \<and> rb_right m' x = rb_right m x \<and>
    rb_parent m' x = rb_parent m x \<and> rb_color m' x = rb_color m x"
  shows "rep m' p t = rep m p t"
  using assms by (induction t arbitrary: p) auto

text \<open>The parent of the root of a subtree is the only pointer into it that its context changes.\<close>

lemma rep_reparent:
  assumes "rep m p t" and "distinct (inorder t)" and "t \<noteq> Lf \<Longrightarrow> rb_parent m' (rid t) = p'"
    and "\<And>x. x \<in> set (inorder t) \<Longrightarrow> rb_left m' x = rb_left m x \<and> rb_right m' x = rb_right m x \<and>
      rb_color m' x = rb_color m x \<and> (x \<noteq> rid t \<longrightarrow> rb_parent m' x = rb_parent m x)"
  shows "rep m' p' t"
proof (cases t)
  case (Nd c l x r)
  then have "rep m' (Some x) l = rep m (Some x) l" "rep m' (Some x) r = rep m (Some x) r"
    using assms(2,4) by (auto intro!: rep_cong)
  then show ?thesis using Nd assms by auto
qed simp

text \<open>The pointer to the subtree is the only one of the context that the subtree changes.\<close>

lemma repz_cong:
  assumes "\<And>x. x \<in> set (cids zs) \<Longrightarrow> rb_left m' x = rb_left m x \<and> rb_right m' x = rb_right m x \<and>
    rb_parent m' x = rb_parent m x \<and> rb_color m' x = rb_color m x" and "rb_root m' = rb_root m"
  shows "repz m' h zs = repz m h zs"
  using assms
proof (induction zs arbitrary: h)
  case (Cons f zs)
  then have IH: "repz m' h' zs = repz m h' zs" for h' by simp
  have s: "rep m' p (fsib f) = rep m p (fsib f)" for p using Cons.prems by (intro rep_cong) (cases f; simp)
  show ?case using IH s Cons.prems by (cases f) auto
qed auto

lemma repz_rehole:
  assumes "repz m h zs" and "distinct (cids zs)"
    and "case zs of [] \<Rightarrow> rb_root m' = h' | InL c x r # _ \<Rightarrow> rb_left m' x = h' \<and> rb_right m' x = rb_right m x
      | InR c l x # _ \<Rightarrow> rb_right m' x = h' \<and> rb_left m' x = rb_left m x"
    and "zs \<noteq> [] \<Longrightarrow> rb_root m' = rb_root m"
    and "\<And>x. x \<in> set (cids zs) \<Longrightarrow> rb_parent m' x = rb_parent m x \<and> rb_color m' x = rb_color m x \<and>
      (Some x \<noteq> cpar zs \<longrightarrow> rb_left m' x = rb_left m x \<and> rb_right m' x = rb_right m x)"
  shows "repz m' h' zs"
proof (cases zs)
  case Nil
  then show ?thesis using assms(3) by simp
next
  case (Cons f zs')
  have s: "rep m' (Some (fnode f)) (fsib f) = rep m (Some (fnode f)) (fsib f)"
    using assms(2,5) Cons by (intro rep_cong) (cases f; auto)
  have z: "repz m' (fnode f) zs' = repz m (fnode f) zs'"
    using assms(2,4,5) Cons by (intro repz_cong) (cases f; auto)+
  show ?thesis using assms Cons s z by (cases f) auto
qed

definition focus :: "'d ofi_rbmap \<Rightarrow> rbt \<Rightarrow> frame list \<Rightarrow> bool" where
  "focus m t zs \<longleftrightarrow> rep m (cpar zs) t \<and> repz m (rid t) zs \<and> distinct (inorder t @ cids zs) \<and> rb_color m 0 = BLACK"

text \<open>What rebalancing leaves alone.\<close>

definition same_aux :: "'d ofi_rbmap \<Rightarrow> 'd ofi_rbmap \<Rightarrow> bool" where
  "same_aux m' m \<longleftrightarrow> rb_data m' = rb_data m \<and> rb_live m' = rb_live m \<and> rb_parent m' 0 = rb_parent m 0"

lemma same_aux_refl [simp]: "same_aux m m"
  by (simp add: same_aux_def)

lemma same_aux_trans: "same_aux m2 m1 \<Longrightarrow> same_aux m1 m \<Longrightarrow> same_aux m2 m"
  by (simp add: same_aux_def)

lemma rep_nonzero: "rep m p t \<Longrightarrow> 0 \<notin> set (inorder t)"
  by (induction t arbitrary: p) auto

lemma repz_nonzero: "repz m h zs \<Longrightarrow> 0 \<notin> set (cids zs)"
proof (induction zs arbitrary: h)
  case (Cons f zs)
  then show ?case by (cases f) (auto dest: rep_nonzero)
qed simp

lemma rid_zero: "rep m p t \<Longrightarrow> rid t = 0 \<longleftrightarrow> t = Lf"
  by (cases t) auto

lemma rid_in: "t \<noteq> Lf \<Longrightarrow> rid t \<in> set (inorder t)"
  by (cases t) auto

lemma fnode_in: "fnode f \<in> set (fids f)"
  by (cases f) auto

subsection \<open>Rotation on the tree\<close>

lemma upd_fields:
  "rb_left (set_left p q m) = (rb_left m)(p := q)" "rb_right (set_left p q m) = rb_right m"
  "rb_parent (set_left p q m) = rb_parent m" "rb_color (set_left p q m) = rb_color m" "rb_data (set_left p q m) = rb_data m"
  "rb_live (set_left p q m) = rb_live m" "rb_root (set_left p q m) = rb_root m"
  "rb_left (set_right p q m) = rb_left m" "rb_right (set_right p q m) = (rb_right m)(p := q)"
  "rb_parent (set_right p q m) = rb_parent m" "rb_color (set_right p q m) = rb_color m" "rb_data (set_right p q m) = rb_data m"
  "rb_live (set_right p q m) = rb_live m" "rb_root (set_right p q m) = rb_root m"
  by (simp_all add: set_left_def set_right_def)

lemma adopt_fields:
  "rb_left (adopt x v m) = rb_left m" "rb_right (adopt x v m) = rb_right m" "rb_root (adopt x v m) = rb_root m"
  "rb_parent (adopt x v m) = (if x \<noteq> 0 then (rb_parent m)(x := v) else rb_parent m)" "rb_color (adopt x v m) = rb_color m"
  "rb_data (adopt x v m) = rb_data m" "rb_live (adopt x v m) = rb_live m"
  by (simp_all add: adopt_def set_parent_def)

lemma redirect_fields:
  "rb_left (redirect_left (Some p) x y m) = (if x = rb_left m p then (rb_left m)(p := y) else rb_left m)"
  "rb_right (redirect_left (Some p) x y m) = (if x = rb_left m p then rb_right m else (rb_right m)(p := y))"
  "rb_root (redirect_left (Some p) x y m) = rb_root m"
  "rb_left (redirect_left None x y m) = rb_left m" "rb_right (redirect_left None x y m) = rb_right m"
  "rb_root (redirect_left None x y m) = y"
  "rb_parent (redirect_left v x y m) = rb_parent m" "rb_color (redirect_left v x y m) = rb_color m"
  "rb_data (redirect_left v x y m) = rb_data m" "rb_live (redirect_left v x y m) = rb_live m"
  by (simp_all add: redirect_left_def upd_fields split: option.split)

lemmas rotate_simps = ofi_rotate_left_def Let_def upd_fields adopt_fields redirect_fields

definition hole_left :: "frame list \<Rightarrow> nat \<Rightarrow> bool" where
  "hole_left zs z \<longleftrightarrow> (case zs of InL c x r # _ \<Rightarrow> z = x | _ \<Rightarrow> False)"

definition hole_right :: "frame list \<Rightarrow> nat \<Rightarrow> bool" where
  "hole_right zs z \<longleftrightarrow> (case zs of InR c l x # _ \<Rightarrow> z = x | _ \<Rightarrow> False)"

lemma rotate_left_fields:
  assumes "focus m (Nd c a x (Nd c' b y d)) zs"
  shows "rb_left (ofi_rotate_left x m) = (\<lambda>z. if z = y then x else if hole_left zs z then y else rb_left m z)"
    and "rb_right (ofi_rotate_left x m) = (\<lambda>z. if z = x then rid b else if hole_right zs z then y else rb_right m z)"
    and "rb_parent (ofi_rotate_left x m) = (\<lambda>z. if z = x then Some y else if z = y then cpar zs
          else if b \<noteq> Lf \<and> z = rid b then Some x else rb_parent m z)"
    and "rb_color (ofi_rotate_left x m) = rb_color m" "rb_data (ofi_rotate_left x m) = rb_data m"
      "rb_live (ofi_rotate_left x m) = rb_live m"
    and "rb_root (ofi_rotate_left x m) = (if zs = [] then y else rb_root m)"
proof -
  have nz: "x \<noteq> 0" "y \<noteq> 0" "x \<noteq> y" "rb_right m x = y" "rb_left m y = rid b" "rb_parent m x = cpar zs"
    using assms by (auto simp: focus_def)
  have b: "rid b = 0 \<longleftrightarrow> b = Lf" "b \<noteq> Lf \<Longrightarrow> rid b \<noteq> x \<and> rid b \<noteq> y"
    using assms by (cases b; auto simp: focus_def)+
  define q where "q = the (cpar zs)"
  have out: "q \<noteq> x" "q \<noteq> y" "b \<noteq> Lf \<Longrightarrow> q \<noteq> rid b" if "zs \<noteq> []"
    using assms that fnode_in [of "hd zs"] rid_in [of b] by (cases zs; auto simp: focus_def q_def)+
  consider "zs = []" | c1 r1 zs1 where "zs = InL c1 q r1 # zs1" "rb_left m q = x"
    | c1 l1 zs1 where "zs = InR c1 l1 q # zs1" "rb_left m q \<noteq> x"
  proof (cases zs)
    case (Cons f zs1)
    show thesis
    proof (cases f)
      case (InR c1 l1 z)
      then have "rid l1 \<noteq> x" using assms Cons nz by (cases l1) (auto simp: focus_def)
      then show thesis using that(3) assms Cons InR by (auto simp: focus_def q_def)
    qed (use that(2) assms Cons in \<open>auto simp: focus_def q_def\<close>)
  qed (use that(1) in auto)
  note C = this
  show "rb_color (ofi_rotate_left x m) = rb_color m" "rb_data (ofi_rotate_left x m) = rb_data m"
    "rb_live (ofi_rotate_left x m) = rb_live m" by (simp_all add: rotate_simps)
  show "rb_left (ofi_rotate_left x m) = (\<lambda>z. if z = y then x else if hole_left zs z then y else rb_left m z)"
    using C by cases (use nz b out in \<open>auto simp: rotate_simps hole_left_def fun_eq_iff\<close>)
  show "rb_right (ofi_rotate_left x m) = (\<lambda>z. if z = x then rid b else if hole_right zs z then y else rb_right m z)"
    using C by cases (use nz b out in \<open>auto simp: rotate_simps hole_right_def fun_eq_iff\<close>)
  show "rb_parent (ofi_rotate_left x m) = (\<lambda>z. if z = x then Some y else if z = y then cpar zs
          else if b \<noteq> Lf \<and> z = rid b then Some x else rb_parent m z)"
    using C by cases (use nz b out in \<open>auto simp: rotate_simps fun_eq_iff\<close>)
  show "rb_root (ofi_rotate_left x m) = (if zs = [] then y else rb_root m)"
    using C by cases (use nz b out in \<open>auto simp: rotate_simps\<close>)
qed

lemma rotate_left_focus:
  assumes "focus m (Nd c a x (Nd c' b y d)) zs"
  shows "focus (ofi_rotate_left x m) (Nd c' (Nd c a x b) y d) zs \<and> same_aux (ofi_rotate_left x m) m"
proof -
  note F = rotate_left_fields [OF assms]
  let ?m = "ofi_rotate_left x m"
  have d: "distinct (inorder (Nd c a x (Nd c' b y d)) @ cids zs)" using assms by (simp add: focus_def)
  have z: "\<not> hole_left zs z \<and> \<not> hole_right zs z" if "z \<in> set (inorder (Nd c a x (Nd c' b y d)))" for z
    using that d by (auto simp: hole_left_def hole_right_def split: list.splits frame.splits)
  have rb: "rid b \<noteq> x" "rid b \<noteq> y" "rid b \<notin> set (inorder a)" "rid b \<notin> set (inorder d)" "rid b \<notin> set (cids zs)" if "b \<noteq> Lf"
    using d rid_in [OF that] by auto
  have r: "rep m (Some x) a" "rep m (Some y) b" "rep m (Some y) d" "repz m x zs"
    using assms by (auto simp: focus_def dest: rep_nonzero)
  have A: "rep ?m (Some x) a" using r(1) d z rb by (subst rep_cong [of a ?m m]) (auto simp: F)
  have B: "rep ?m (Some x) b"
  proof (rule rep_reparent [OF r(2)])
    show "distinct (inorder b)" using d by simp
    show "rb_parent ?m (rid b) = Some x" if "b \<noteq> Lf" using that rb by (simp add: F)
    show "rb_left ?m w = rb_left m w \<and> rb_right ?m w = rb_right m w \<and> rb_color ?m w = rb_color m w \<and>
      (w \<noteq> rid b \<longrightarrow> rb_parent ?m w = rb_parent m w)" if "w \<in> set (inorder b)" for w
      using that d z [of w] by (auto simp: F)
  qed
  have D: "rep ?m (Some y) d" using r(3) d z rb by (subst rep_cong [of d ?m m]) (auto simp: F)
  have Z: "repz ?m y zs"
  proof (rule repz_rehole [OF r(4)])
    show "rb_parent ?m w = rb_parent m w \<and> rb_color ?m w = rb_color m w \<and>
      (Some w \<noteq> cpar zs \<longrightarrow> rb_left ?m w = rb_left m w \<and> rb_right ?m w = rb_right m w)" if "w \<in> set (cids zs)" for w
      using that d rb by (auto simp: F hole_left_def hole_right_def split: list.splits frame.splits)
  qed (use d in \<open>auto simp: F hole_left_def hole_right_def split: list.splits frame.splits\<close>)
  have "rb_left ?m x = rb_left m x" "rb_right ?m y = rb_right m y" using d z by (auto simp: F)
  then show ?thesis using assms A B D Z rid_zero [OF r(2)] by (auto simp: focus_def F same_aux_def)
qed

subsection \<open>Mirror images\<close>

text \<open>The code treats left and right alike; the lemmas on one side give those on the other.\<close>

definition mirror :: "'d ofi_rbmap \<Rightarrow> 'd ofi_rbmap" where
  "mirror m = m\<lparr>rb_left := rb_right m, rb_right := rb_left m\<rparr>"

fun mir :: "rbt \<Rightarrow> rbt" where
  "mir Lf = Lf"
| "mir (Nd c l x r) = Nd c (mir r) x (mir l)"

fun mirf :: "frame \<Rightarrow> frame" where
  "mirf (InL c x r) = InR c (mir r) x"
| "mirf (InR c l x) = InL c x (mir l)"

lemma mirror_fields [simp]:
  "rb_left (mirror m) = rb_right m" "rb_right (mirror m) = rb_left m" "rb_root (mirror m) = rb_root m"
  "rb_parent (mirror m) = rb_parent m" "rb_color (mirror m) = rb_color m" "rb_data (mirror m) = rb_data m"
  "rb_live (mirror m) = rb_live m" "mirror (mirror m) = m" "par (mirror m) = par m"
  by (simp_all add: mirror_def par_def fun_eq_iff)

lemma mirror_updates:
  "mirror (set_left p q m) = set_right p q (mirror m)" "mirror (set_right p q m) = set_left p q (mirror m)"
  "mirror (set_parent p v m) = set_parent p v (mirror m)" "mirror (set_color p c m) = set_color p c (mirror m)"
  "mirror (m\<lparr>rb_root := y\<rparr>) = (mirror m)\<lparr>rb_root := y\<rparr>"
  "mirror (adopt x v m) = adopt x v (mirror m)" "mirror (redirect_right v x y m) = redirect_left v x y (mirror m)"
  by (simp_all add: mirror_def field_updates adopt_def redirect_left_def redirect_right_def split: option.split)

lemma mirror_rotate_right: "mirror (ofi_rotate_right x m) = ofi_rotate_left x (mirror m)"
  by (simp add: ofi_rotate_left_def ofi_rotate_right_def Let_def mirror_updates upd_fields adopt_fields)

lemma mirror_rotate_left: "mirror (ofi_rotate_left x m) = ofi_rotate_right x (mirror m)"
  by (metis mirror_rotate_right mirror_fields(8))

lemma rotate_mirror_fields:
  "par (ofi_rotate_left x (mirror m)) = par (ofi_rotate_right x m)"
  "rb_left (ofi_rotate_left x (mirror m)) = rb_right (ofi_rotate_right x m)"
  "rb_right (ofi_rotate_left x (mirror m)) = rb_left (ofi_rotate_right x m)"
  "rb_color (ofi_rotate_left x (mirror m)) = rb_color (ofi_rotate_right x m)"
  "rb_root (ofi_rotate_left x (mirror m)) = rb_root (ofi_rotate_right x m)"
  by (simp_all flip: mirror_rotate_right)

lemma mir_simps [simp]:
  "mir (mir t) = t" "rid (mir t) = rid t" "col (mir t) = col t" "inorder (mir t) = rev (inorder t)" "mir t = Lf \<longleftrightarrow> t = Lf"
proof -
  show "mir (mir t) = t" "inorder (mir t) = rev (inorder t)" by (induction t) auto
  show "rid (mir t) = rid t" "col (mir t) = col t" "mir t = Lf \<longleftrightarrow> t = Lf" by (cases t; simp)+
qed

lemma mirf_simps [simp]:
  "mirf (mirf f) = f" "fnode (mirf f) = fnode f" "fcol (mirf f) = fcol f" "fsib (mirf f) = mir (fsib f)"
  "set (fids (mirf f)) = set (fids f)" "distinct (fids (mirf f)) = distinct (fids f)"
  by (cases f; simp)+

lemma rep_mirror [simp]: "rep (mirror m) p (mir t) = rep m p t"
  by (induction t arbitrary: p) auto

lemma repz_mirror [simp]: "repz (mirror m) h (map mirf zs) = repz m h zs" "cpar (map mirf zs) = cpar zs"
proof -
  show c: "cpar (map mirf zs) = cpar zs" for zs by (cases zs) auto
  show "repz (mirror m) h (map mirf zs) = repz m h zs"
  proof (induction zs arbitrary: h)
    case (Cons f zs)
    then show ?case by (cases f) (auto simp: c)
  qed simp
qed

lemma cids_mirror [simp]:
  "set (cids (map mirf zs)) = set (cids zs)" "distinct (cids (map mirf zs)) = distinct (cids zs)"
  by (induction zs) auto

lemma focus_mirror [simp]: "focus (mirror m) (mir t) (map mirf zs) = focus m t zs"
  by (auto simp: focus_def)

lemma same_aux_mirror [simp]: "same_aux (mirror m') (mirror m) = same_aux m' m"
  by (simp add: same_aux_def)

lemma rotate_right_focus:
  assumes "focus m (Nd c (Nd c' a y b) x d) zs"
  shows "focus (ofi_rotate_right x m) (Nd c' a y (Nd c b x d)) zs \<and> same_aux (ofi_rotate_right x m) m"
proof -
  have "focus (mirror m) (mir (Nd c (Nd c' a y b) x d)) (map mirf zs)" using assms by (simp only: focus_mirror)
  from rotate_left_focus [OF this [unfolded mir.simps]]
  have "focus (mirror (ofi_rotate_right x m)) (mir (Nd c' a y (Nd c b x d))) (map mirf zs) \<and>
      same_aux (mirror (ofi_rotate_right x m)) (mirror m)"
    by (simp add: mirror_rotate_right)
  then show ?thesis by (simp only: focus_mirror same_aux_mirror simp_thms)
qed

subsection \<open>Moving the focus and recolouring\<close>

lemma focus_fill: "focus m t (f # zs) = focus m (fill f t) zs"
  by (cases f) (auto simp: focus_def)

lemma focus_down:
  "focus m (Nd c l x r) zs = focus m l (InL c x r # zs)" "focus m (Nd c l x r) zs = focus m r (InR c l x # zs)"
  by (simp_all add: focus_fill)

lemma focus_paint:
  assumes "focus m (Nd c l x r) zs"
  shows "focus (set_color x c' m) (Nd c' l x r) zs" "same_aux (set_color x c' m) m"
proof -
  have "rep (set_color x c' m) (Some x) l = rep m (Some x) l" "rep (set_color x c' m) (Some x) r = rep m (Some x) r"
    using assms by (intro rep_cong; auto simp: focus_def set_color_def)+
  moreover have "repz (set_color x c' m) x zs = repz m x zs"
    using assms by (intro repz_cong) (auto simp: focus_def set_color_def)
  ultimately show "focus (set_color x c' m) (Nd c' l x r) zs"
    using assms by (auto simp: focus_def set_color_def)
  show "same_aux (set_color x c' m) m" by (simp add: set_color_def same_aux_def)
qed

text \<open>The same for the root of the left and of the right subtree.\<close>

lemma focus_paint_left:
  assumes "focus m (Nd c (Nd c1 a y b) x r) zs"
  shows "focus (set_color y c' m) (Nd c (Nd c' a y b) x r) zs" "same_aux (set_color y c' m) m"
  using focus_paint [of m c1 a y b "InL c x r # zs" c'] assms by (simp_all add: focus_fill)

lemma focus_paint_right:
  assumes "focus m (Nd c l x (Nd c1 a y b)) zs"
  shows "focus (set_color y c' m) (Nd c l x (Nd c' a y b)) zs" "same_aux (set_color y c' m) m"
  using focus_paint [of m c1 a y b "InR c l x # zs" c'] assms by (simp_all add: focus_fill)

lemma focus_node:
  assumes "focus m (Nd c l x r) zs"
  shows "rb_left m x = rid l" "rb_right m x = rid r" "rb_parent m x = cpar zs" "rb_color m x = c" "x \<noteq> 0"
  using assms by (simp_all add: focus_def)

lemma focus_color: "focus m t zs \<Longrightarrow> rb_color m (rid t) = col t"
  by (cases t) (auto simp: focus_def)

lemma focus_par: "focus m (Nd c l x r) (f # zs) \<Longrightarrow> par m x = fnode f"
  by (simp add: focus_def par_def)

section \<open>Red-black invariants\<close>

fun bh :: "rbt \<Rightarrow> nat" where
  "bh Lf = 0"
| "bh (Nd c l x r) = bh l + (if c = BLACK then 1 else 0)"

fun invc :: "rbt \<Rightarrow> bool" where
  "invc Lf \<longleftrightarrow> True"
| "invc (Nd c l x r) \<longleftrightarrow> (c = RED \<longrightarrow> col l = BLACK \<and> col r = BLACK) \<and> invc l \<and> invc r"

fun invh :: "rbt \<Rightarrow> bool" where
  "invh Lf \<longleftrightarrow> True"
| "invh (Nd c l x r) \<longleftrightarrow> bh l = bh r \<and> invh l \<and> invh r"

definition ok :: "nat \<Rightarrow> rbt \<Rightarrow> bool" where
  "ok n t \<longleftrightarrow> invc t \<and> invh t \<and> bh t = n"

text \<open>A context that makes a red-black tree of every subtree of black height \<open>n\<close> with a black root.\<close>

fun okz :: "nat \<Rightarrow> frame list \<Rightarrow> bool" where
  "okz n [] \<longleftrightarrow> True"
| "okz n (f # zs) \<longleftrightarrow> ok n (fsib f) \<and>
    (fcol f = RED \<longrightarrow> col (fsib f) = BLACK \<and> zs \<noteq> [] \<and> fcol (hd zs) = BLACK) \<and>
    okz (n + (if fcol f = BLACK then 1 else 0)) zs"

definition rb_ok :: "rbt \<Rightarrow> bool" where
  "rb_ok t \<longleftrightarrow> invc t \<and> invh t \<and> col t = BLACK"

lemma ok_simps [simp]:
  "ok n Lf \<longleftrightarrow> n = 0"
  "ok n (Nd BLACK l x r) \<longleftrightarrow> (\<exists>k. n = Suc k \<and> ok k l \<and> ok k r)"
  "ok n (Nd RED l x r) \<longleftrightarrow> ok n l \<and> ok n r \<and> col l = BLACK \<and> col r = BLACK"
  by (auto simp: ok_def)

lemma ok_fill: "ok n t \<Longrightarrow> okz n (f # zs) \<Longrightarrow> (col t = RED \<Longrightarrow> fcol f = BLACK) \<Longrightarrow>
    ok (n + (if fcol f = BLACK then 1 else 0)) (fill f t) \<and> col (fill f t) = fcol f"
  by (cases f; cases "fcol f") (auto; metis ofi_node_color.exhaust)+

lemma ok_plug:
  assumes "ok n t" and "okz n zs" and "col t = RED \<Longrightarrow> zs \<noteq> [] \<and> fcol (hd zs) = BLACK"
  shows "rb_ok (plug t zs)"
  using assms
proof (induction zs arbitrary: n t)
  case Nil
  then show ?case by (auto simp: ok_def rb_ok_def intro: ofi_node_color.exhaust)
next
  case (Cons f zs)
  have "ok (n + (if fcol f = BLACK then 1 else 0)) (fill f t) \<and> col (fill f t) = fcol f"
    using Cons.prems by (intro ok_fill [of n t f zs]) auto
  then show ?case using Cons.prems by (auto intro!: Cons.IH)
qed

section \<open>Insertion rebalances\<close>

lemma set_color_fields [simp]:
  "rb_left (set_color p c m) = rb_left m" "rb_right (set_color p c m) = rb_right m"
  "rb_parent (set_color p c m) = rb_parent m" "rb_root (set_color p c m) = rb_root m" "par (set_color p c m) = par m"
  by (simp_all add: set_color_def par_def fun_eq_iff)

lemma insert_step_left_red:
  assumes "focus m (Nd RED a x b) (f # InL BLACK g (Nd RED ua y ub) # zs)"
  shows "\<exists>m'. insert_step_left m x = (m', g) \<and>
    focus m' (Nd RED (paint BLACK (fill f (Nd RED a x b))) g (Nd BLACK ua y ub)) zs \<and> same_aux m' m"
proof -
  obtain c l r where T: "fill f (Nd RED a x b) = Nd c l (fnode f) r" by (cases f) auto
  have 0: "focus m (Nd BLACK (Nd c l (fnode f) r) g (Nd RED ua y ub)) zs"
    using assms unfolding focus_fill T by simp
  have p: "par m x = fnode f" using focus_par [OF assms] .
  have g: "par m (fnode f) = g" using focus_par [of m c l "fnode f" r "InL BLACK g (Nd RED ua y ub)"] 0
    by (simp add: focus_fill)
  note 1 = focus_paint_left [OF 0, of BLACK]
  note 2 = focus_paint_right [OF 1(1), of BLACK]
  note 3 = focus_paint [OF 2(1), of RED]
  have "insert_step_left m x = (set_color g RED (set_color y BLACK (set_color (fnode f) BLACK m)), g)"
    using focus_node [OF 0] focus_node [of m RED ua y ub "InR BLACK (Nd c l (fnode f) r) g # zs"] 0
    by (simp add: insert_step_left_def p g Let_def focus_fill)
  then show ?thesis using T 3 1(2) 2(2) by (auto intro: same_aux_trans)
qed

lemma insert_step_left_black:
  assumes foc: "focus m (Nd RED a x b) (f # InL BLACK g u # zs)" and u: "col u = BLACK"
  shows "\<exists>m' L y R. insert_step_left m x = (m', rid L) \<and> L \<noteq> Lf \<and> focus m' (Nd BLACK L y R) zs \<and> same_aux m' m \<and>
    (case f of InL c p s \<Rightarrow> Nd BLACK L y R = Nd BLACK (Nd RED a x b) p (Nd RED s g u)
     | InR c s p \<Rightarrow> Nd BLACK L y R = Nd BLACK (Nd c s p a) x (Nd RED b g u))"
proof (cases f)
  case (InL c p s)
  have 0: "focus m (Nd BLACK (Nd c (Nd RED a x b) p s) g u) zs" using foc by (simp add: focus_fill InL)
  have px: "par m x = p" using focus_par [OF foc] InL by simp
  have pg: "par m p = g" using focus_par [of m c "Nd RED a x b" p s "InL BLACK g u"] 0 by (simp add: focus_fill)
  have uc: "rb_color m (rid u) = BLACK" using focus_color [of m u "InR BLACK (Nd c (Nd RED a x b) p s) g # zs"] 0 u
    by (simp add: focus_fill)
  have nr: "x \<noteq> rid s" using 0 by (cases s) (auto simp: focus_def)
  note 1 = focus_paint_left [OF 0, of BLACK]
  note 2 = focus_paint [OF 1(1), of RED]
  note 3 = rotate_right_focus [OF 2(1)]
  have "rb_right m p = rid s" using focus_node [of m c "Nd RED a x b" p s "InL BLACK g u # zs"] 0 by (simp add: focus_fill)
  then have "insert_step_left m x = (ofi_rotate_right g (set_color g RED (set_color p BLACK m)), x)"
    using focus_node(2) [OF 0] uc nr by (simp add: insert_step_left_def px pg Let_def)
  then show ?thesis using InL 3 1(2) 2(2)
    by (intro exI [of _ "ofi_rotate_right g (set_color g RED (set_color p BLACK m))"] exI [of _ "Nd RED a x b"] exI)
      (auto intro: same_aux_trans)
next
  case (InR c s p)
  have 0: "focus m (Nd c s p (Nd RED a x b)) (InL BLACK g u # zs)" using foc by (simp add: focus_fill InR)
  note 1 = rotate_left_focus [OF 0]
  let ?m = "ofi_rotate_left p m"
  have 2: "focus ?m (Nd c s p a) (InL RED x b # InL BLACK g u # zs)" and 3: "focus ?m (Nd RED (Nd c s p a) x b) (InL BLACK g u # zs)"
    and 4: "focus ?m (Nd BLACK (Nd RED (Nd c s p a) x b) g u) zs"
    using 1 by (simp_all add: focus_fill)
  have q: "par m x = p" "par m p = g" "par ?m p = x" "par ?m x = g"
    using focus_par [OF foc] focus_par [OF 0] focus_par [OF 2] focus_par [OF 3] InR by simp_all
  have uc: "rb_color m (rid u) = BLACK" using focus_color [of m u "InR BLACK (Nd c s p (Nd RED a x b)) g # zs"] 0 u
    by (simp add: focus_fill)
  have "rb_right m g = rid u" "rb_right m p = x"
    using focus_node(2) [of m BLACK "Nd c s p (Nd RED a x b)" g u zs] focus_node(2) [OF 0] 0 by (simp_all add: focus_fill)
  then have "insert_step_left m x = (ofi_rotate_right g (set_color g RED (set_color x BLACK ?m)), p)"
    using uc by (simp add: insert_step_left_def q Let_def)
  moreover note 5 = focus_paint_left [OF 4, of BLACK]
  moreover note 6 = focus_paint [OF 5(1), of RED]
  moreover note 7 = rotate_right_focus [OF 6(1)]
  ultimately show ?thesis using InR 1
    by (intro exI [of _ "ofi_rotate_right g (set_color g RED (set_color x BLACK ?m))"] exI [of _ "Nd c s p a"] exI)
      (auto intro: same_aux_trans)
qed

text \<open>After a step the violation is two levels up, or it is gone and the parent of the new \<open>x\<close> is black.\<close>

definition ins_up :: "'d ofi_rbmap \<Rightarrow> nat \<Rightarrow> nat \<Rightarrow> frame list \<Rightarrow> nat list \<Rightarrow> bool" where
  "ins_up m x n zs xs \<longleftrightarrow> (\<exists>l r. focus m (Nd RED l x r) zs \<and> ok n (Nd RED l x r) \<and> inorder (Nd RED l x r) = xs)"

definition ins_done :: "'d ofi_rbmap \<Rightarrow> nat \<Rightarrow> nat \<Rightarrow> frame list \<Rightarrow> nat list \<Rightarrow> bool" where
  "ins_done m x n zs xs \<longleftrightarrow> (\<exists>f t. x = rid t \<and> t \<noteq> Lf \<and> fcol f = BLACK \<and> focus m (fill f t) zs \<and>
    ok n (fill f t) \<and> inorder (fill f t) = xs)"

lemma insert_step_left_ok:
  assumes foc: "focus m (Nd RED a x b) (f # InL BLACK g u # zs)" and t: "ok n (Nd RED a x b)"
    and z: "okz n (f # InL BLACK g u # zs)" and f: "fcol f = RED"
  shows "\<exists>m' x'. insert_step_left m x = (m', x') \<and> same_aux m' m \<and>
    (ins_up m' x' (Suc n) zs (inorder (Nd BLACK (fill f (Nd RED a x b)) g u)) \<or>
     ins_done m' x' (Suc n) zs (inorder (Nd BLACK (fill f (Nd RED a x b)) g u)))"
proof (cases "col u")
  case RED
  then obtain ua y ub where u: "u = Nd RED ua y ub" by (cases u) auto
  obtain m' where m: "insert_step_left m x = (m', g)" "same_aux m' m"
    "focus m' (Nd RED (paint BLACK (fill f (Nd RED a x b))) g (Nd BLACK ua y ub)) zs"
    using insert_step_left_red foc unfolding u by blast
  moreover have "ok (Suc n) (Nd RED (paint BLACK (fill f (Nd RED a x b))) g (Nd BLACK ua y ub))"
    using t z f u by (cases f) auto
  moreover have "inorder (Nd RED (paint BLACK (fill f (Nd RED a x b))) g (Nd BLACK ua y ub)) =
      inorder (Nd BLACK (fill f (Nd RED a x b)) g u)"
    using u by (cases f) auto
  ultimately show ?thesis unfolding ins_up_def by blast
next
  case BLACK
  obtain m' L y R where m: "insert_step_left m x = (m', rid L)" "L \<noteq> Lf" "focus m' (Nd BLACK L y R) zs" "same_aux m' m"
    "case f of InL c p s \<Rightarrow> Nd BLACK L y R = Nd BLACK (Nd RED a x b) p (Nd RED s g u)
     | InR c s p \<Rightarrow> Nd BLACK L y R = Nd BLACK (Nd c s p a) x (Nd RED b g u)"
    using insert_step_left_black [OF foc BLACK] by blast
  have "ok (Suc n) (Nd BLACK L y R) \<and> inorder (Nd BLACK L y R) = inorder (Nd BLACK (fill f (Nd RED a x b)) g u)"
    using m(5) t z f BLACK by (cases f) auto
  then have "ins_done m' (rid L) (Suc n) zs (inorder (Nd BLACK (fill f (Nd RED a x b)) g u))"
    using m unfolding ins_done_def by (intro exI [of _ "InL BLACK y R"] exI [of _ L]) simp
  then show ?thesis using m by blast
qed

lemma mir_ok [simp]: "ok n (mir t) = ok n t" "okz n (map mirf zs) = okz n zs"
proof -
  have b: "invh t \<Longrightarrow> bh (mir t) = bh t" for t by (induction t) auto
  have i: "invh (mir t) \<longleftrightarrow> invh t" for t
  proof (induction t)
    case (Nd c l x r)
    show ?case
    proof
      assume "invh (mir (Nd c l x r))"
      then show "invh (Nd c l x r)" using Nd b [of l] b [of r] by simp
    qed (use Nd b in auto)
  qed simp
  have c: "invc (mir t) = invc t" for t by (induction t) auto
  show o: "ok n (mir t) = ok n t" for n t using b [of t] b [of "mir t"] i [of t] c [of t] by (auto simp: ok_def)
  show "okz n (map mirf zs) = okz n zs"
  proof (induction zs arbitrary: n)
    case (Cons f zs)
    then show ?case by (cases zs) (auto simp: o)
  qed simp
qed

lemma mir_fill: "mir (fill f t) = fill (mirf f) (mir t)"
  by (cases f) auto

lemma ins_mirror:
  "ins_up (mirror m) x n (map mirf zs) (rev xs) \<Longrightarrow> ins_up m x n zs xs"
  "ins_done (mirror m) x n (map mirf zs) (rev xs) \<Longrightarrow> ins_done m x n zs xs"
proof -
  assume "ins_up (mirror m) x n (map mirf zs) (rev xs)"
  then obtain l r where d: "focus (mirror m) (Nd RED l x r) (map mirf zs)" "ok n (Nd RED l x r)"
    "inorder (Nd RED l x r) = rev xs" by (auto simp: ins_up_def)
  have e: "Nd RED l x r = mir (Nd RED (mir r) x (mir l))" by simp
  have "focus m (Nd RED (mir r) x (mir l)) zs" using d(1) unfolding e by (simp only: focus_mirror)
  moreover have "ok n (Nd RED (mir r) x (mir l))" using d(2) by simp
  moreover have "inorder (Nd RED (mir r) x (mir l)) = xs" using arg_cong [OF d(3), of rev] by simp
  ultimately show "ins_up m x n zs xs" unfolding ins_up_def by blast
next
  assume "ins_done (mirror m) x n (map mirf zs) (rev xs)"
  then obtain f t where d: "x = rid t" "t \<noteq> Lf" "fcol f = BLACK" "focus (mirror m) (fill f t) (map mirf zs)" "ok n (fill f t)"
    "inorder (fill f t) = rev xs" by (auto simp: ins_done_def)
  have e: "fill f t = mir (fill (mirf f) (mir t))" by (simp add: mir_fill)
  have "focus m (fill (mirf f) (mir t)) zs" using d(4) unfolding e by (simp only: focus_mirror)
  moreover have "ok n (fill (mirf f) (mir t))" using d(5) unfolding e by (simp only: mir_ok)
  moreover have "inorder (fill (mirf f) (mir t)) = xs" using arg_cong [OF d(6), of rev] unfolding e by simp
  ultimately show "ins_done m x n zs xs" unfolding ins_done_def
    using d(1-3) by (intro exI [of _ "mirf f"] exI [of _ "mir t"]) simp
qed

lemma mirror_insert_step_right: "insert_step_left (mirror m) x = map_prod mirror id (insert_step_right m x)"
  by (auto simp: insert_step_left_def insert_step_right_def Let_def mirror_updates mirror_rotate_left mirror_rotate_right
      rotate_mirror_fields)

lemma insert_step_ok:
  assumes foc: "focus m (Nd RED a x b) (f # f' # zs)" and t: "ok n (Nd RED a x b)"
    and z: "okz n (f # f' # zs)" and f: "fcol f = RED"
  shows "\<exists>m' x'. insert_step m x = (m', x') \<and> same_aux m' m \<and>
    (ins_up m' x' (Suc n) zs (inorder (fill f' (fill f (Nd RED a x b)))) \<or>
     ins_done m' x' (Suc n) zs (inorder (fill f' (fill f (Nd RED a x b)))))"
proof -
  obtain c l r where T: "fill f (Nd RED a x b) = Nd c l (fnode f) r" by (cases f) auto
  have p: "par m x = fnode f" "par m (fnode f) = fnode f'"
    using focus_par [OF foc] focus_par [of m c l "fnode f" r f' zs] foc T by (simp_all add: focus_fill)
  show ?thesis
  proof (cases f')
    case (InL c' g u)
    then have c': "c' = BLACK" using z f by simp
    have "rb_left m g = fnode f"
      using focus_node(1) [of m c' "Nd c l (fnode f) r" g u zs] foc InL T by (simp add: focus_fill)
    then have "insert_step m x = insert_step_left m x" using p InL by (simp add: insert_step_def)
    then show ?thesis using insert_step_left_ok [of m a x b f g u zs n] foc t z f InL c' by simp
  next
    case (InR c' u g)
    then have c': "c' = BLACK" using z f by simp
    have F: "focus m (Nd c' u g (Nd c l (fnode f) r)) zs" using foc InR T by (simp add: focus_fill)
    then have "rb_left m g \<noteq> fnode f" by (cases u) (auto simp: focus_def)
    then have s: "insert_step m x = insert_step_right m x" using p InR by (simp add: insert_step_def)
    have "focus (mirror m) (mir (Nd RED a x b)) (map mirf (f # f' # zs))" using foc by (simp only: focus_mirror)
    then have M: "focus (mirror m) (Nd RED (mir b) x (mir a)) (mirf f # InL BLACK g (mir u) # map mirf zs)"
      using InR c' by simp
    have "okz n (map mirf (f # f' # zs))" using z by (simp only: mir_ok)
    then have "okz n (mirf f # InL BLACK g (mir u) # map mirf zs)" using InR c' by simp
    moreover have "inorder (Nd BLACK (fill (mirf f) (Nd RED (mir b) x (mir a))) g (mir u)) =
        rev (inorder (fill f' (fill f (Nd RED a x b))))"
      using InR by (cases f) auto
    ultimately obtain m1 x' where r: "insert_step_left (mirror m) x = (m1, x')" "same_aux m1 (mirror m)"
      "ins_up m1 x' (Suc n) (map mirf zs) (rev (inorder (fill f' (fill f (Nd RED a x b))))) \<or>
       ins_done m1 x' (Suc n) (map mirf zs) (rev (inorder (fill f' (fill f (Nd RED a x b)))))"
      using insert_step_left_ok [OF M, of n] t f by auto
    then have "insert_step m x = (mirror m1, x')"
      using mirror_insert_step_right [of m x] s by (cases "insert_step_right m x") auto
    moreover have "same_aux (mirror m1) m" using r(2) by (simp add: same_aux_def)
    moreover have "m1 = mirror (mirror m1)" by simp
    ultimately show ?thesis using r(3) ins_mirror [of "mirror m1" x' "Suc n" zs] by auto
  qed
qed

lemma paint_root:
  assumes "focus m t []" and "t \<noteq> Lf"
  shows "focus (set_color (rb_root m) BLACK m) (paint BLACK t) []" "same_aux (set_color (rb_root m) BLACK m) m"
proof -
  obtain c l x r where t: "t = Nd c l x r" using assms(2) by (cases t) auto
  then have "rb_root m = x" using assms(1) by (simp add: focus_def)
  then show "focus (set_color (rb_root m) BLACK m) (paint BLACK t) []" "same_aux (set_color (rb_root m) BLACK m) m"
    using focus_paint [of m c l x r "[]" BLACK] assms(1) t by simp_all
qed

lemma repz_root: "repz m h zs \<Longrightarrow> zs \<noteq> [] \<Longrightarrow> rb_root m \<in> set (cids zs)"
proof (induction zs arbitrary: h)
  case (Cons f zs)
  then show ?case by (cases f; cases zs) auto
qed simp

lemma inorder_paint [simp]: "inorder (paint c t) = inorder t"
  by (cases t) auto

lemma focus_plug: "focus m t zs = focus m (plug t zs) []"
  by (induction zs arbitrary: t) (auto simp: focus_fill)

lemma inorder_plug_cong: "inorder t = inorder t' \<Longrightarrow> inorder (plug t zs) = inorder (plug t' zs)"
proof (induction zs arbitrary: t t')
  case (Cons f zs)
  then have "inorder (fill f t) = inorder (fill f t')" by (cases f) auto
  from Cons.IH [OF this] show ?case by simp
qed simp

lemma insert_rebalance_exit:
  assumes "focus m t zs" and "ok n t" and "okz n zs" and "t \<noteq> Lf" and "col t = RED \<Longrightarrow> zs \<noteq> [] \<Longrightarrow> fcol (hd zs) = BLACK"
  shows "\<exists>t'. focus (set_color (rb_root m) BLACK m) t' [] \<and> rb_ok t' \<and> inorder t' = inorder (plug t zs) \<and>
    same_aux (set_color (rb_root m) BLACK m) m"
proof -
  have T: "focus m (plug t zs) []" using assms(1) focus_plug by blast
  have ne: "plug t zs \<noteq> Lf" using assms(4)
  proof (induction zs arbitrary: t)
    case (Cons f zs)
    then show ?case by (cases f) auto
  qed simp
  have "rb_ok (paint BLACK (plug t zs))"
  proof (cases zs)
    case Nil
    then show ?thesis using assms(2) by (cases t) (auto simp: rb_ok_def ok_def)
  next
    case (Cons f zs')
    then have "rb_ok (plug t zs)" using assms by (intro ok_plug [of n]) auto
    then show ?thesis by (cases "plug t zs") (auto simp: rb_ok_def)
  qed
  then show ?thesis using paint_root [OF T ne] by auto
qed

lemma insert_rebalance_ok:
  assumes "focus m (Nd RED a x b) zs" and "ok n (Nd RED a x b)" and "okz n zs"
  shows "\<exists>m' t'. ofi_insert_rebalance m x = Some m' \<and> focus m' t' [] \<and> rb_ok t' \<and>
    inorder t' = inorder (plug (Nd RED a x b) zs) \<and> same_aux m' m"
  using assms
proof (induction "length zs" arbitrary: m a x b zs n rule: less_induct)
  case less
  show ?case
  proof (cases "zs \<noteq> [] \<and> fcol (hd zs) = RED")
    case False
    have "x = rb_root m \<or> rb_color m (par m x) \<noteq> RED"
    proof (cases zs)
      case (Cons f zs')
      obtain c l r where T: "fill f (Nd RED a x b) = Nd c l (fnode f) r" "c = fcol f" by (cases f) auto
      have "par m x = fnode f" "rb_color m (fnode f) = c"
        using less.prems(1) Cons focus_par [of m RED a x b f zs'] focus_node(4) [of m c l "fnode f" r zs'] T
        by (simp_all add: focus_fill)
      then show ?thesis using False Cons T(2) by auto
    qed (use less.prems(1) in \<open>simp add: focus_def\<close>)
    then have "ofi_insert_rebalance m x = Some (set_color (rb_root m) BLACK m)"
      by (subst ofi_insert_rebalance.simps) auto
    moreover have "zs \<noteq> [] \<Longrightarrow> fcol (hd zs) = BLACK" using False by (metis ofi_node_color.exhaust)
    ultimately show ?thesis using insert_rebalance_exit [OF less.prems] by auto
  next
    case True
    then obtain f f' zs' where zs: "zs = f # f' # zs'" "fcol f = RED" "fcol f' = BLACK"
      using less.prems(3) by (cases zs; cases "tl zs") auto
    obtain c l r where T: "fill f (Nd RED a x b) = Nd c l (fnode f) r" "c = fcol f" by (cases f) auto
    have q: "par m x = fnode f" "rb_color m (fnode f) = RED" "x \<noteq> rb_root m"
    proof -
      show "par m x = fnode f" "rb_color m (fnode f) = RED"
        using less.prems(1) zs focus_par [of m RED a x b f "f' # zs'"] focus_node(4) [of m c l "fnode f" r "f' # zs'"] T
        by (simp_all add: focus_fill)
      have "rb_root m \<in> set (cids zs)"
        using less.prems(1) True by (intro repz_root) (auto simp: focus_def)
      then show "x \<noteq> rb_root m" using less.prems(1) by (auto simp: focus_def)
    qed
    have foc: "focus m (Nd RED a x b) (f # f' # zs')" and z: "okz n (f # f' # zs')"
      using less.prems zs by simp_all
    obtain m1 x1 where st: "insert_step m x = (m1, x1)" "same_aux m1 m"
      "ins_up m1 x1 (Suc n) zs' (inorder (fill f' (fill f (Nd RED a x b)))) \<or>
       ins_done m1 x1 (Suc n) zs' (inorder (fill f' (fill f (Nd RED a x b))))"
      using insert_step_ok [OF foc less.prems(2) z zs(2)] by blast
    have rec: "ofi_insert_rebalance m x = ofi_insert_rebalance m1 x1"
      using q st(1) by (subst ofi_insert_rebalance.simps) simp
    have z': "okz (Suc n) zs'" using z zs by auto
    have pl: "inorder (plug (Nd RED a x b) zs) = inorder (plug (fill f' (fill f (Nd RED a x b))) zs')"
      using zs by simp
    from st(3) show ?thesis
    proof
      assume "ins_up m1 x1 (Suc n) zs' (inorder (fill f' (fill f (Nd RED a x b))))"
      then obtain l1 r1 where u: "focus m1 (Nd RED l1 x1 r1) zs'" "ok (Suc n) (Nd RED l1 x1 r1)"
        "inorder (Nd RED l1 x1 r1) = inorder (fill f' (fill f (Nd RED a x b)))" by (auto simp: ins_up_def)
      have "length zs' < length zs" using zs by simp
      from less.hyps [OF this u(1,2) z'] show ?thesis
        using rec pl inorder_plug_cong [OF u(3)] st(2) by (auto intro: same_aux_trans)
    next
      assume "ins_done m1 x1 (Suc n) zs' (inorder (fill f' (fill f (Nd RED a x b))))"
      then obtain f1 t1 where d: "x1 = rid t1" "t1 \<noteq> Lf" "fcol f1 = BLACK" "focus m1 (fill f1 t1) zs'"
        "ok (Suc n) (fill f1 t1)" "inorder (fill f1 t1) = inorder (fill f' (fill f (Nd RED a x b)))"
        by (auto simp: ins_done_def)
      obtain l1 r1 where T1: "fill f1 t1 = Nd BLACK l1 (fnode f1) r1" using d(3) by (cases f1) auto
      obtain c2 l2 r2 where t1: "t1 = Nd c2 l2 x1 r2" using d(1,2) by (cases t1) auto
      have "par m1 x1 = fnode f1" using focus_par [of m1 c2 l2 x1 r2 f1 zs'] d(4) by (simp add: t1 focus_fill)
      then have "rb_color m1 (par m1 x1) = BLACK" using focus_node(4) [of m1 BLACK l1 "fnode f1" r1 zs'] d(4) T1 by simp
      then have ex: "ofi_insert_rebalance m1 x1 = Some (set_color (rb_root m1) BLACK m1)"
        by (subst ofi_insert_rebalance.simps) simp
      have "fill f1 t1 \<noteq> Lf" "col (fill f1 t1) \<noteq> RED" using T1 by simp_all
      from insert_rebalance_exit [OF d(4,5) z' this(1)] this(2) show ?thesis
        using rec ex pl inorder_plug_cong [OF d(6)] st(2) by (auto intro: same_aux_trans)
    qed
  qed
qed

section \<open>Descending\<close>

text \<open>The signs of the comparisons of a key along the nodes in order go from positive to negative: the
  condition under which a binary search is right, for ordered keys and for disjoint intervals alike.\<close>

definition descending :: "('k \<Rightarrow> 'd \<Rightarrow> int) \<Rightarrow> 'k \<Rightarrow> 'd list \<Rightarrow> bool" where
  "descending compare key ds \<longleftrightarrow> sorted_wrt (\<lambda>a b. sgn (compare key b) \<le> sgn (compare key a)) ds"

lemma descending_node:
  assumes "descending compare key (map h (inorder (Nd c l x r)))"
  shows "compare key (h x) < 0 \<Longrightarrow> y \<in> set (inorder r) \<Longrightarrow> compare key (h y) < 0"
    and "compare key (h x) > 0 \<Longrightarrow> y \<in> set (inorder l) \<Longrightarrow> compare key (h y) > 0"
    and "descending compare key (map h (inorder l))" "descending compare key (map h (inorder r))"
proof -
  show "descending compare key (map h (inorder l))" "descending compare key (map h (inorder r))"
    using assms by (simp_all add: descending_def sorted_wrt_append)
  have "sgn (compare key (h y)) \<le> sgn (compare key (h x))" if "y \<in> set (inorder r)" for y
    using assms that by (auto simp: descending_def sorted_wrt_append)
  then show "compare key (h x) < 0 \<Longrightarrow> y \<in> set (inorder r) \<Longrightarrow> compare key (h y) < 0"
    by (fastforce simp: sgn_if split: if_splits)
  have "sgn (compare key (h x)) \<le> sgn (compare key (h y))" if "y \<in> set (inorder l)" for y
    using assms that by (auto simp: descending_def sorted_wrt_append)
  then show "compare key (h x) > 0 \<Longrightarrow> y \<in> set (inorder l) \<Longrightarrow> compare key (h y) > 0"
    by (fastforce simp: sgn_if split: if_splits)
qed

lemma search_loop_ok:
  assumes "rep m p t"
  shows "\<exists>r. search_loop compare m key (rid t) = Some r \<and>
    (case r of Some y \<Rightarrow> y \<in> set (inorder t) \<and> compare key (rb_data m y) = 0
     | None \<Rightarrow> descending compare key (map (rb_data m) (inorder t)) \<longrightarrow>
         (\<forall>y \<in> set (inorder t). compare key (rb_data m y) \<noteq> 0))"
  using assms
proof (induction t arbitrary: p)
  case Lf
  then show ?case by (simp add: search_loop.simps)
next
  case (Nd c l x r)
  then have x: "x \<noteq> 0" "rb_left m x = rid l" "rb_right m x = rid r" by simp_all
  note D = descending_node [of compare key "rb_data m" c l x r]
  consider "compare key (rb_data m x) = 0" | "compare key (rb_data m x) < 0" | "compare key (rb_data m x) > 0"
    by linarith
  then show ?case
  proof cases
    case 1
    then show ?thesis using x by (simp add: search_loop.simps)
  next
    case 2
    obtain q where q: "search_loop compare m key (rid l) = Some q" "case q of Some y \<Rightarrow> y \<in> set (inorder l) \<and>
        compare key (rb_data m y) = 0 | None \<Rightarrow> descending compare key (map (rb_data m) (inorder l)) \<longrightarrow>
        (\<forall>y \<in> set (inorder l). compare key (rb_data m y) \<noteq> 0)"
      using Nd by auto
    have "search_loop compare m key (rid (Nd c l x r)) = Some q" using 2 x q(1) by (subst search_loop.simps) simp
    then show ?thesis using q(2) 2 D(1,3) by (cases q) force+
  next
    case 3
    obtain q where q: "search_loop compare m key (rid r) = Some q" "case q of Some y \<Rightarrow> y \<in> set (inorder r) \<and>
        compare key (rb_data m y) = 0 | None \<Rightarrow> descending compare key (map (rb_data m) (inorder r)) \<longrightarrow>
        (\<forall>y \<in> set (inorder r). compare key (rb_data m y) \<noteq> 0)"
      using Nd by auto
    have "search_loop compare m key (rid (Nd c l x r)) = Some q" using 3 x q(1) by (subst search_loop.simps) simp
    then show ?thesis using q(2) 3 D(2,4) by (cases q) force+
  qed
qed

text \<open>The nodes before and after the hole of a context.\<close>

fun cpre :: "frame list \<Rightarrow> nat list" where
  "cpre [] = []"
| "cpre (InL c x r # zs) = cpre zs"
| "cpre (InR c l x # zs) = cpre zs @ inorder l @ [x]"

fun cpost :: "frame list \<Rightarrow> nat list" where
  "cpost [] = []"
| "cpost (InL c x r # zs) = x # inorder r @ cpost zs"
| "cpost (InR c l x # zs) = cpost zs"

lemma inorder_plug: "inorder (plug t zs) = cpre zs @ inorder t @ cpost zs"
proof (induction zs arbitrary: t)
  case (Cons f zs)
  then show ?case by (cases f) auto
qed simp

text \<open>The path of a key: every frame turns to the side the comparison says.\<close>

fun turns :: "('k \<Rightarrow> 'd \<Rightarrow> int) \<Rightarrow> ('d ofi_rbmap) \<Rightarrow> 'k \<Rightarrow> frame \<Rightarrow> bool" where
  "turns compare m key (InL c x r) \<longleftrightarrow> compare key (rb_data m x) < 0"
| "turns compare m key (InR c l x) \<longleftrightarrow> compare key (rb_data m x) > 0"

lemma insert_walk_ok:
  assumes "rep m (cpar zs) t"
  shows "\<exists>r. insert_walk compare m key (rid t) (cpar zs) = Some r \<and>
    (case r of Inl e \<Rightarrow> e = FI_EALREADY \<and> (\<exists>y \<in> set (inorder t). compare key (rb_data m y) = 0)
     | Inr q \<Rightarrow> \<exists>path. plug Lf (path @ zs) = plug t zs \<and> q = cpar (path @ zs) \<and> (\<forall>f \<in> set path. turns compare m key f))"
  using assms
proof (induction t arbitrary: zs)
  case Lf
  then show ?case by (auto simp: insert_walk.simps intro: exI [of _ "[]"])
next
  case (Nd c l x r)
  then have x: "x \<noteq> 0" "rb_left m x = rid l" "rb_right m x = rid r" by simp_all
  consider "compare key (rb_data m x) = 0" | "compare key (rb_data m x) < 0" | "compare key (rb_data m x) > 0"
    by linarith
  then show ?case
  proof cases
    case 1
    then show ?thesis using x by (simp add: insert_walk.simps)
  next
    case 2
    have "rep m (cpar (InL c x r # zs)) l" using Nd.prems by simp
    from Nd.IH(1) [OF this] obtain q where q: "insert_walk compare m key (rid l) (Some x) = Some q"
      "case q of Inl e \<Rightarrow> e = FI_EALREADY \<and> (\<exists>y \<in> set (inorder l). compare key (rb_data m y) = 0)
       | Inr q \<Rightarrow> \<exists>path. plug Lf (path @ InL c x r # zs) = plug l (InL c x r # zs) \<and> q = cpar (path @ InL c x r # zs) \<and>
           (\<forall>f \<in> set path. turns compare m key f)" by auto
    have "insert_walk compare m key (rid (Nd c l x r)) (cpar zs) = Some q"
      using 2 x q(1) by (subst insert_walk.simps) simp
    moreover have "\<exists>path'. plug Lf (path' @ zs) = plug (Nd c l x r) zs \<and> cpar (path @ InL c x r # zs) = cpar (path' @ zs) \<and>
        (\<forall>f \<in> set path'. turns compare m key f)"
      if "plug Lf (path @ InL c x r # zs) = plug l (InL c x r # zs)" "\<forall>f \<in> set path. turns compare m key f" for path
      using that 2 by (intro exI [of _ "path @ [InL c x r]"]) auto
    ultimately show ?thesis using q(2) by (cases q) auto
  next
    case 3
    have "rep m (cpar (InR c l x # zs)) r" using Nd.prems by simp
    from Nd.IH(2) [OF this] obtain q where q: "insert_walk compare m key (rid r) (Some x) = Some q"
      "case q of Inl e \<Rightarrow> e = FI_EALREADY \<and> (\<exists>y \<in> set (inorder r). compare key (rb_data m y) = 0)
       | Inr q \<Rightarrow> \<exists>path. plug Lf (path @ InR c l x # zs) = plug r (InR c l x # zs) \<and> q = cpar (path @ InR c l x # zs) \<and>
           (\<forall>f \<in> set path. turns compare m key f)" by auto
    have "insert_walk compare m key (rid (Nd c l x r)) (cpar zs) = Some q"
      using 3 x q(1) by (subst insert_walk.simps) simp
    moreover have "\<exists>path'. plug Lf (path' @ zs) = plug (Nd c l x r) zs \<and> cpar (path @ InR c l x # zs) = cpar (path' @ zs) \<and>
        (\<forall>f \<in> set path'. turns compare m key f)"
      if "plug Lf (path @ InR c l x # zs) = plug r (InR c l x # zs)" "\<forall>f \<in> set path. turns compare m key f" for path
      using that 3 by (intro exI [of _ "path @ [InR c l x]"]) auto
    ultimately show ?thesis using q(2) by (cases q) auto
  qed
qed

lemma turns_sides:
  assumes "\<forall>f \<in> set zs. turns compare m key f" and "descending compare key (map (rb_data m) (inorder (plug t zs)))"
  shows "(\<forall>y \<in> set (cpre zs). compare key (rb_data m y) > 0) \<and> (\<forall>y \<in> set (cpost zs). compare key (rb_data m y) < 0)"
  using assms
proof (induction zs arbitrary: t)
  case (Cons f zs)
  have d: "descending compare key (map (rb_data m) (inorder (fill f t)))"
    using Cons.prems(2) inorder_plug [of "fill f t" zs] by (simp add: descending_def sorted_wrt_append)
  have "(\<forall>y \<in> set (cpre zs). compare key (rb_data m y) > 0) \<and> (\<forall>y \<in> set (cpost zs). compare key (rb_data m y) < 0)"
    using Cons.IH [of "fill f t"] Cons.prems by simp
  then show ?case using Cons.prems(1) d descending_node(1,2) [of compare key "rb_data m"] by (cases f) fastforce+
qed simp

lemma ok_unplug:
  assumes "rb_ok (plug t zs)"
  shows "\<exists>n. ok n t \<and> okz n zs \<and> (col t = RED \<longrightarrow> zs \<noteq> [] \<and> fcol (hd zs) = BLACK)"
  using assms
proof (induction zs arbitrary: t)
  case Nil
  then show ?case by (auto simp: rb_ok_def ok_def)
next
  case (Cons f zs)
  then obtain n where n: "ok n (fill f t)" "okz n zs" "col (fill f t) = RED \<longrightarrow> zs \<noteq> [] \<and> fcol (hd zs) = BLACK"
    by auto
  show ?case
  proof (cases f)
    case (InL c x r)
    then show ?thesis using n by (cases c) auto
  next
    case (InR c l x)
    then show ?thesis using n by (cases c) auto
  qed
qed

definition rbmap_inv :: "'d ofi_rbmap \<Rightarrow> rbt \<Rightarrow> bool" where
  "rbmap_inv m t \<longleftrightarrow> focus m t [] \<and> rb_ok t \<and> rb_live m = set (inorder t)"

lemma attach_focus:
  assumes "focus m Lf zs" and "node \<noteq> 0" and "node \<notin> set (cids zs)" and "\<forall>f \<in> set zs. turns compare m key f"
  shows "focus (attach_node compare m key data (cpar zs) node) (Nd RED Lf node Lf) zs"
    and "rb_data (attach_node compare m key data (cpar zs) node) = (rb_data m)(node := data)"
    and "rb_live (attach_node compare m key data (cpar zs) node) = insert node (rb_live m)"
proof -
  let ?m = "attach_node compare m key data (cpar zs) node"
  have p: "node \<noteq> fnode f" if "zs = f # zs'" for f zs' using that assms(3) fnode_in [of f] by auto
  show "rb_data ?m = (rb_data m)(node := data)" "rb_live ?m = insert node (rb_live m)"
    by (cases zs; simp add: attach_node_def Let_def field_updates)+
  have c: "rb_color ?m = (rb_color m)(node := RED)" "rb_parent ?m = (rb_parent m)(node := cpar zs)"
    by (cases zs; simp add: attach_node_def Let_def field_updates)+
  have l: "rb_left ?m = (\<lambda>z. if z = node then 0 else if hole_left zs z then node else rb_left m z)"
    "rb_right ?m = (\<lambda>z. if z = node then 0 else if hole_right zs z then node else rb_right m z)"
    "rb_root ?m = (if zs = [] then node else rb_root m)"
    using p assms(4) by (cases zs; auto simp: attach_node_def Let_def field_updates hole_left_def hole_right_def fun_eq_iff
        split: frame.splits)+
  obtain m1 where m1: "?m = m1" by blast
  note l' = l [unfolded m1] and c' = c [unfolded m1]
  have z: "repz m 0 zs" "distinct (cids zs)" using assms(1) by (simp_all add: focus_def)
  have "repz m1 node zs"
  proof (rule repz_rehole [OF z])
    show "rb_parent m1 w = rb_parent m w \<and> rb_color m1 w = rb_color m w \<and>
      (Some w \<noteq> cpar zs \<longrightarrow> rb_left m1 w = rb_left m w \<and> rb_right m1 w = rb_right m w)" if "w \<in> set (cids zs)" for w
      using that assms(3) by (auto simp: l' c' hole_left_def hole_right_def split: list.splits frame.splits)
  qed (use p in \<open>auto simp: l' c' hole_left_def hole_right_def split: list.splits frame.splits\<close>)
  then have Z: "repz ?m node zs" by (simp add: m1)
  have n: "rb_left ?m node = 0" "rb_right ?m node = 0" "rb_parent ?m node = cpar zs" "rb_color ?m node = RED" "rb_color ?m 0 = BLACK"
    using assms(1,2) by (simp_all add: l c focus_def)
  show "focus ?m (Nd RED Lf node Lf) zs" unfolding focus_def using Z n assms(2,3) z(2) by simp
qed

theorem rbmap_insert_ok:
  assumes inv: "rbmap_inv m t" and new: "node \<noteq> 0" "node \<notin> rb_live m"
  shows "(ofi_rbmap_insert compare (Some node) m key data = Some (Inl FI_EALREADY, m) \<and>
      (\<exists>y \<in> set (inorder t). compare key (rb_data m y) = 0)) \<or>
    (\<exists>m' t' xs ys. ofi_rbmap_insert compare (Some node) m key data = Some (Inr node, m') \<and> rbmap_inv m' t' \<and>
      inorder t = xs @ ys \<and> inorder t' = xs @ node # ys \<and> rb_data m' = (rb_data m)(node := data) \<and>
      (descending compare key (map (rb_data m) (inorder t)) \<longrightarrow>
        (\<forall>x \<in> set xs. compare key (rb_data m x) > 0) \<and> (\<forall>y \<in> set ys. compare key (rb_data m y) < 0)))"
proof -
  have r: "rep m (cpar []) t" "rb_root m = rid t" using inv by (auto simp: rbmap_inv_def focus_def)
  obtain w where w: "insert_walk compare m key (rid t) (cpar []) = Some w"
    "case w of Inl e \<Rightarrow> e = FI_EALREADY \<and> (\<exists>y \<in> set (inorder t). compare key (rb_data m y) = 0)
     | Inr q \<Rightarrow> \<exists>path. plug Lf (path @ []) = plug t [] \<and> q = cpar (path @ []) \<and> (\<forall>f \<in> set path. turns compare m key f)"
    using insert_walk_ok [OF r(1), of compare key] by (elim exE conjE) (rule that)
  show ?thesis
  proof (cases w)
    case (Inl e)
    then show ?thesis using w r(2) by (auto simp: ofi_rbmap_insert_def)
  next
    case (Inr q)
    then obtain path where path: "plug Lf path = t" "q = cpar path" "\<forall>f \<in> set path. turns compare m key f"
      using w(2) by auto
    have foc: "focus m Lf path" using inv path(1) focus_plug [of m Lf path] by (simp add: rbmap_inv_def)
    have io: "inorder t = cpre path @ cpost path" using path(1) inorder_plug [of Lf path] by simp
    have "set (cids path) = set (cpre path) \<union> set (cpost path)"
    proof (induction path)
      case (Cons f zs)
      then show ?case by (cases f) auto
    qed simp
    then have "node \<notin> set (cids path)" using new(2) inv io by (simp add: rbmap_inv_def)
    note A = attach_focus [OF foc new(1) this path(3), of data]
    obtain n where n: "ok n Lf" "okz n path" using ok_unplug [of Lf path] inv path(1) by (auto simp: rbmap_inv_def)
    have "ok n (Nd RED Lf node Lf)" using n by simp
    from insert_rebalance_ok [OF A(1) this n(2)] obtain m' t' where
      m': "ofi_insert_rebalance (attach_node compare m key data (cpar path) node) node = Some m'" "focus m' t' []" "rb_ok t'"
      "inorder t' = inorder (plug (Nd RED Lf node Lf) path)" "same_aux m' (attach_node compare m key data (cpar path) node)"
      by blast
    have "ofi_rbmap_insert compare (Some node) m key data = Some (Inr node, m')"
      using w(1) Inr path(2) r(2) m'(1) by (simp add: ofi_rbmap_insert_def)
    moreover have io': "inorder t' = cpre path @ node # cpost path" using m'(4) inorder_plug [of "Nd RED Lf node Lf" path] by simp
    moreover have "rbmap_inv m' t'"
      using m'(2,3,5) A(3) io io' inv by (simp add: rbmap_inv_def same_aux_def)
    moreover have "rb_data m' = (rb_data m)(node := data)" using m'(5) A(2) by (simp add: same_aux_def)
    moreover have "descending compare key (map (rb_data m) (inorder t)) \<longrightarrow>
        (\<forall>x \<in> set (cpre path). compare key (rb_data m x) > 0) \<and> (\<forall>y \<in> set (cpost path). compare key (rb_data m y) < 0)"
      using turns_sides [OF path(3), of Lf] path(1) by blast
    ultimately show ?thesis using io by (intro disjI2 exI conjI) assumption+
  qed
qed

end
