(* ===== verification/Ofi_Tree_Del.thy ===== *)
theory Ofi_Tree_Del
  imports Ofi_Tree
begin

section \<open>Deletion from the red-black map\<close>

text \<open>
  The proofs for \<open>ofi_rbmap_delete\<close>: the rebalancing loop restores the black height, the unlinked node
  takes the place of the deleted one, and so every other node keeps its data.
\<close>

subsection \<open>The sibling is black\<close>

text \<open>The second half of the body of the loop, with a black sibling \<open>w\<close>.\<close>

definition black_sibling_left :: "'d ofi_rbmap \<Rightarrow> nat \<Rightarrow> nat \<Rightarrow> 'd ofi_rbmap \<times> nat" where
  "black_sibling_left m node w =
    (if rb_color m (rb_left m w) = BLACK \<and> rb_color m (rb_right m w) = BLACK
     then (set_color w RED m, par m node)
     else let (m, w) = (if rb_color m (rb_right m w) = BLACK
                        then let m = set_color (rb_left m w) BLACK m; m = set_color w RED m;
                                 m = ofi_rotate_right w m
                             in (m, rb_right m (par m node))
                        else (m, w));
              m = set_color w (rb_color m (par m node)) m;
              m = set_color (par m node) BLACK m;
              m = set_color (rb_right m w) BLACK m;
              m = ofi_rotate_left (par m node) m
          in (m, rb_root m))"

lemma delete_step_left_eq:
  "delete_step_left m node =
    (let w = rb_right m (par m node)
     in if rb_color m w = RED
        then let m = set_color w BLACK m; m = set_color (par m node) RED m; m = ofi_rotate_left (par m node) m
             in black_sibling_left m node (rb_right m (par m node))
        else black_sibling_left m node w)"
  by (simp add: delete_step_left_def black_sibling_left_def Let_def)

text \<open>The node, which may be the sentinel, with its parent pointer.\<close>

definition dfocus :: "'d ofi_rbmap \<Rightarrow> rbt \<Rightarrow> frame list \<Rightarrow> bool" where
  "dfocus m t zs \<longleftrightarrow> focus m t zs \<and> rb_parent m (rid t) = cpar zs"

lemma dfocus_node: "dfocus m (Nd c l x r) zs \<longleftrightarrow> focus m (Nd c l x r) zs"
  by (auto simp: dfocus_def focus_def)

lemma dfocus_keep:
  assumes "dfocus m t (f # zs)" and "focus m' t (f' # zs')" and "same_aux m' m" and "fnode f' = fnode f"
  shows "dfocus m' t (f' # zs')"
  using assms by (cases t) (auto simp: dfocus_def focus_def same_aux_def)

text \<open>Case 2 of the loop: both children of the sibling are black.  The sibling turns red and the node
  moves up.\<close>

lemma sibling_red:
  assumes "dfocus m t (InL c p (Nd BLACK a w b) # zs)" and "col a = BLACK" "col b = BLACK"
  shows "black_sibling_left m (rid t) w = (set_color w RED m, p) \<and>
    dfocus (set_color w RED m) (Nd c t p (Nd RED a w b)) zs \<and> same_aux (set_color w RED m) m"
proof -
  have F: "focus m (Nd c t p (Nd BLACK a w b)) zs" using assms(1) by (simp add: dfocus_def focus_fill)
  then have "rb_left m w = rid a" "rb_right m w = rid b"
    using focus_node [of m BLACK a w b "InR c t p # zs"] by (simp_all add: focus_fill)
  moreover have "rb_color m (rid a) = BLACK" "rb_color m (rid b) = BLACK"
    using focus_color [of m a "InL BLACK w b # InR c t p # zs"] focus_color [of m b "InR BLACK a w # InR c t p # zs"] F assms
    by (simp_all add: focus_fill)
  moreover have "par m (rid t) = p" using assms(1) by (simp add: dfocus_def par_def)
  ultimately show ?thesis using focus_paint_right [OF F, of RED]
    by (simp add: black_sibling_left_def dfocus_node)
qed

text \<open>Case 4: the right child of the sibling is red.  A rotation ends the loop.\<close>

lemma sibling_rotate:
  assumes "focus m (Nd c t p (Nd cw a w (Nd RED b y d))) zs"
  shows "focus (ofi_rotate_left p (set_color y BLACK (set_color p BLACK (set_color w c m))))
      (Nd c (Nd BLACK t p a) w (Nd BLACK b y d)) zs \<and>
    same_aux (ofi_rotate_left p (set_color y BLACK (set_color p BLACK (set_color w c m)))) m"
proof -
  note 1 = focus_paint_right [OF assms, of c]
  note 2 = focus_paint [OF 1(1), of BLACK]
  have "focus (set_color p BLACK (set_color w c m)) (Nd c a w (Nd RED b y d)) (InR BLACK t p # zs)"
    using 2(1) by (simp add: focus_fill)
  note 3 = focus_paint_right [OF this, of BLACK]
  have "focus (set_color y BLACK (set_color p BLACK (set_color w c m))) (Nd BLACK t p (Nd c a w (Nd BLACK b y d))) zs"
    using 3(1) by (simp add: focus_fill)
  from rotate_left_focus [OF this] show ?thesis using 1(2) 2(2) 3(2) by (auto intro: same_aux_trans)
qed

text \<open>After a step the missing black node is higher up, or the loop is about to end: the node is red, or it
  is the root and nothing is missing.  \<open>xs\<close> are the nodes in order, \<open>k\<close> bounds the length of the path.\<close>

definition del_up :: "'d ofi_rbmap \<Rightarrow> nat \<Rightarrow> nat \<Rightarrow> nat list \<Rightarrow> bool" where
  "del_up m x k xs \<longleftrightarrow> (\<exists>t n zs. x = rid t \<and> t \<noteq> Lf \<and> dfocus m t zs \<and> okz (Suc n) zs \<and>
    (if col t = RED then ok (Suc n) (paint BLACK t) else ok n t) \<and> inorder (plug t zs) = xs \<and>
    (col t = RED \<or> length zs < k))"

definition del_done :: "'d ofi_rbmap \<Rightarrow> nat \<Rightarrow> nat list \<Rightarrow> bool" where
  "del_done m x xs \<longleftrightarrow> (\<exists>t. x = rb_root m \<and> focus m t [] \<and> t \<noteq> Lf \<and> rb_ok t \<and> inorder t = xs)"

lemma plug_not_Lf: "t \<noteq> Lf \<Longrightarrow> plug t zs \<noteq> Lf"
proof (induction zs arbitrary: t)
  case (Cons f zs)
  then show ?case by (cases f) auto
qed simp

lemma del_doneI:
  assumes "focus m t zs" and "t \<noteq> Lf" and "ok n t" and "okz n zs" and "col t = RED \<Longrightarrow> zs \<noteq> [] \<and> fcol (hd zs) = BLACK"
    and "inorder (plug t zs) = xs"
  shows "del_done m (rb_root m) xs"
  unfolding del_done_def using assms ok_plug [of n t zs] plug_not_Lf [of t zs] focus_plug [of m t zs]
  by (intro exI [of _ "plug t zs"]) auto

text \<open>Case 3: only the left child of the sibling is red.  A rotation at the sibling leads to case 4.\<close>

lemma sibling_inner:
  assumes "focus m (Nd c t p (Nd cw (Nd RED a y b) w d)) zs"
  shows "focus (ofi_rotate_right w (set_color w RED (set_color y BLACK m))) (Nd c t p (Nd BLACK a y (Nd RED b w d))) zs \<and>
    same_aux (ofi_rotate_right w (set_color w RED (set_color y BLACK m))) m"
proof -
  have "focus m (Nd cw (Nd RED a y b) w d) (InR c t p # zs)" using assms by (simp add: focus_fill)
  note 1 = focus_paint_left [OF this, of BLACK]
  note 2 = focus_paint [OF 1(1), of RED]
  from rotate_right_focus [OF 2(1)] show ?thesis using 1(2) 2(2) by (auto simp: focus_fill intro: same_aux_trans)
qed

lemma black_sibling_left_ok:
  assumes D: "dfocus m t (InL c p (Nd BLACK a w b) # zs)" and t: "ok n t"
    and z: "okz (Suc n) (InL c p (Nd BLACK a w b) # zs)"
  shows "\<exists>m' x'. black_sibling_left m (rid t) w = (m', x') \<and> same_aux m' m \<and>
    (del_up m' x' (if c = RED then 0 else Suc (length zs)) (inorder (plug t (InL c p (Nd BLACK a w b) # zs))) \<or>
     del_done m' x' (inorder (plug t (InL c p (Nd BLACK a w b) # zs))))"
proof -
  have F: "focus m (Nd c t p (Nd BLACK a w b)) zs" using D by (simp add: dfocus_def focus_fill)
  have pt: "par m (rid t) = p" using D by (simp add: dfocus_def par_def)
  have ab: "ok n a" "ok n b" using z by auto
  have W: "rb_left m w = rid a" "rb_right m w = rid b" "rb_color m (rid a) = col a" "rb_color m (rid b) = col b"
    using focus_node [of m BLACK a w b "InR c t p # zs"] focus_color [of m a "InL BLACK w b # InR c t p # zs"]
      focus_color [of m b "InR BLACK a w # InR c t p # zs"] F by (simp_all add: focus_fill)
  have P: "rb_color m p = c" using focus_node(4) [OF F] .
  consider (2) "col a = BLACK" "col b = BLACK" | (4) "col b = RED" | (3) "col a = RED" "col b = BLACK"
    by (metis ofi_node_color.exhaust)
  then show ?thesis
  proof cases
    case 2
    let ?T = "Nd c t p (Nd RED a w b)"
    have s: "black_sibling_left m (rid t) w = (set_color w RED m, p)" "dfocus (set_color w RED m) ?T zs"
      "same_aux (set_color w RED m) m" using sibling_red [OF D 2] by blast+
    have "inorder (plug ?T zs) = inorder (plug t (InL c p (Nd BLACK a w b) # zs))" by (simp add: inorder_plug)
    then have "del_up (set_color w RED m) p (if c = RED then 0 else Suc (length zs)) (inorder (plug t (InL c p (Nd BLACK a w b) # zs)))"
      unfolding del_up_def using s t z ab 2
      by (intro exI [of _ ?T] exI [of _ "if c = RED then n else Suc n"] exI [of _ zs]) (cases c; simp)
    then show ?thesis using s by blast
  next
    case 4
    then obtain b1 y b2 where b: "b = Nd RED b1 y b2" by (cases b) auto
    let ?m = "ofi_rotate_left p (set_color y BLACK (set_color p BLACK (set_color w c m)))"
    let ?T = "Nd c (Nd BLACK t p a) w (Nd BLACK b1 y b2)"
    have r: "focus ?m ?T zs" "same_aux ?m m" using sibling_rotate F unfolding b by blast+
    have "black_sibling_left m (rid t) w = (?m, rb_root ?m)"
      using 4 W P pt b by (simp add: black_sibling_left_def Let_def)
    moreover have "del_done ?m (rb_root ?m) (inorder (plug t (InL c p (Nd BLACK a w b) # zs)))"
      using r(1) t ab b z by (intro del_doneI [of _ ?T _ "Suc n + (if c = BLACK then 1 else 0)"]) (cases c; auto simp: inorder_plug)+
    ultimately show ?thesis using r(2) by blast
  next
    case 3
    then obtain a1 y a2 where a: "a = Nd RED a1 y a2" by (cases a) auto
    let ?m1 = "ofi_rotate_right w (set_color w RED (set_color y BLACK m))"
    let ?m = "ofi_rotate_left p (set_color w BLACK (set_color p BLACK (set_color y c ?m1)))"
    let ?T = "Nd c (Nd BLACK t p a1) y (Nd BLACK a2 w b)"
    have i: "focus ?m1 (Nd c t p (Nd BLACK a1 y (Nd RED a2 w b))) zs" "same_aux ?m1 m"
      using sibling_inner F unfolding a by blast+
    have r: "focus ?m ?T zs" "same_aux ?m m" using sibling_rotate [OF i(1)] i(2) by (auto intro: same_aux_trans)
    have "dfocus ?m1 t (InL c p (Nd BLACK a1 y (Nd RED a2 w b)) # zs)"
      using i by (intro dfocus_keep [OF D]) (simp_all add: focus_fill)
    then have q: "par ?m1 (rid t) = p" by (simp add: dfocus_def par_def)
    have v: "rb_right ?m1 p = y" "rb_color ?m1 p = c" "rb_right ?m1 y = w"
      using focus_node [OF i(1)] focus_node [of ?m1 BLACK a1 y "Nd RED a2 w b" "InR c t p # zs"] i(1) by (simp_all add: focus_fill)
    have "black_sibling_left m (rid t) w = (?m, rb_root ?m)"
      using 3 W P pt a q v by (simp add: black_sibling_left_def Let_def)
    moreover have "del_done ?m (rb_root ?m) (inorder (plug t (InL c p (Nd BLACK a w b) # zs)))"
      using r(1) t ab a z by (intro del_doneI [of _ ?T _ "Suc n + (if c = BLACK then 1 else 0)"]) (cases c; auto simp: inorder_plug)+
    ultimately show ?thesis using r(2) by blast
  qed
qed

subsection \<open>The body of the loop\<close>

lemma black_node: "ok (Suc n) t \<Longrightarrow> col t = BLACK \<Longrightarrow> \<exists>a x b. t = Nd BLACK a x b"
  by (cases t) auto

lemma del_up_mono: "del_up m x k xs \<Longrightarrow> k \<le> k' \<Longrightarrow> del_up m x k' xs"
  unfolding del_up_def by (elim exE conjE, intro exI conjI, assumption+) linarith

lemma delete_step_left_ok:
  assumes D: "dfocus m t (InL c p s # zs)" and t: "ok n t" and z: "okz (Suc n) (InL c p s # zs)"
  shows "\<exists>m' x'. delete_step_left m (rid t) = (m', x') \<and> same_aux m' m \<and>
    (del_up m' x' (Suc (length zs)) (inorder (plug t (InL c p s # zs))) \<or>
     del_done m' x' (inorder (plug t (InL c p s # zs))))"
proof -
  have F: "focus m (Nd c t p s) zs" using D by (simp add: dfocus_def focus_fill)
  have pt: "par m (rid t) = p" using D by (simp add: dfocus_def par_def)
  have W: "rb_right m p = rid s" "rb_color m (rid s) = col s"
    using focus_node(2) [OF F] focus_color [of m s "InR c t p # zs"] F by (simp_all add: focus_fill)
  have s: "ok (Suc n) s" using z by simp
  show ?thesis
  proof (cases "col s")
    case BLACK
    then obtain a w b where sn: "s = Nd BLACK a w b" using black_node [OF s] by blast
    have "delete_step_left m (rid t) = black_sibling_left m (rid t) w"
      using BLACK W pt sn by (simp add: delete_step_left_eq Let_def)
    then show ?thesis using black_sibling_left_ok [of m t c p a w b zs n] D t z del_up_mono [of _ _ _ _ "Suc (length zs)"]
      unfolding sn by fastforce
  next
    case RED
    then obtain a w b where sn: "s = Nd RED a w b" by (cases s) auto
    have c: "c = BLACK" using z RED by (cases c) auto
    let ?m = "ofi_rotate_left p (set_color p RED (set_color w BLACK m))"
    note 1 = focus_paint_right [OF F [unfolded sn], of BLACK]
    note 2 = focus_paint [OF 1(1), of RED]
    have r: "focus ?m (Nd BLACK (Nd RED t p a) w b) zs" "same_aux ?m m"
      using rotate_left_focus [OF 2(1)] 1(2) 2(2) by (auto intro: same_aux_trans)
    obtain a1 v a2 where an: "a = Nd BLACK a1 v a2" using black_node [of n a] s sn by auto
    have D': "dfocus ?m t (InL RED p (Nd BLACK a1 v a2) # InL BLACK w b # zs)"
      using r an by (intro dfocus_keep [OF D]) (simp_all add: focus_fill)
    then have q: "par ?m (rid t) = p" by (simp add: dfocus_def par_def)
    have "rb_right ?m p = v"
      using focus_node(2) [of ?m RED t p a "InL BLACK w b # zs"] r(1) an by (simp add: focus_fill)
    then have st: "delete_step_left m (rid t) = black_sibling_left ?m (rid t) v"
      using RED W pt sn q by (simp add: delete_step_left_eq Let_def)
    have z': "okz (Suc n) (InL RED p (Nd BLACK a1 v a2) # InL BLACK w b # zs)"
      using z sn an c by simp
    have io: "inorder (plug t (InL RED p (Nd BLACK a1 v a2) # InL BLACK w b # zs)) = inorder (plug t (InL c p s # zs))"
      using sn an by (simp add: inorder_plug)
    from black_sibling_left_ok [OF D' t z'] obtain m' x' where
      R: "black_sibling_left ?m (rid t) v = (m', x')" "same_aux m' ?m"
      "del_up m' x' 0 (inorder (plug t (InL c p s # zs))) \<or> del_done m' x' (inorder (plug t (InL c p s # zs)))"
      unfolding io by auto
    then show ?thesis using st r(2) del_up_mono [of m' x' 0] by (metis same_aux_trans zero_le)
  qed
qed

lemma mirror_delete_step_right: "delete_step_left (mirror m) x = map_prod mirror id (delete_step_right m x)"
  by (simp add: delete_step_left_def delete_step_right_def Let_def
      flip: mirror_updates(4) mirror_rotate_left mirror_rotate_right)

lemma mir_plug: "mir (plug t zs) = plug (mir t) (map mirf zs)"
  by (induction zs arbitrary: t) (auto simp: mir_fill)

lemma dfocus_mirror [simp]: "dfocus (mirror m) (mir t) (map mirf zs) = dfocus m t zs"
  by (simp add: dfocus_def)

lemma mir_paint: "mir (paint c t) = paint c (mir t)"
  by (cases t) auto

lemma rb_ok_mir [simp]: "rb_ok (mir t) = rb_ok t"
  using mir_ok(1) [of _ t] by (auto simp: rb_ok_def ok_def)

lemma mirf_mirf [simp]: "mirf \<circ> mirf = id"
  by (simp add: fun_eq_iff)

lemma del_mirror:
  "del_up (mirror m) x k (rev xs) \<Longrightarrow> del_up m x k xs"
  "del_done (mirror m) x (rev xs) \<Longrightarrow> del_done m x xs"
proof -
  assume "del_up (mirror m) x k (rev xs)"
  then obtain t n zs where u: "x = rid t" "t \<noteq> Lf" "dfocus (mirror m) t zs" "okz (Suc n) zs"
    "if col t = RED then ok (Suc n) (paint BLACK t) else ok n t" "inorder (plug t zs) = rev xs"
    "col t = RED \<or> length zs < k" unfolding del_up_def by blast
  have "dfocus m (mir t) (map mirf zs)" using u(3) dfocus_mirror [of m "mir t" "map mirf zs"] by simp
  moreover have "inorder (plug (mir t) (map mirf zs)) = xs"
    using arg_cong [OF u(6), of rev] by (simp flip: mir_plug)
  moreover have "if col (mir t) = RED then ok (Suc n) (paint BLACK (mir t)) else ok n (mir t)"
    using u(5) by (simp flip: mir_paint)
  ultimately show "del_up m x k xs" unfolding del_up_def using u
    by (intro exI [of _ "mir t"] exI [of _ n] exI [of _ "map mirf zs"]) simp
next
  assume "del_done (mirror m) x (rev xs)"
  then obtain t where d: "x = rb_root m" "focus (mirror m) t []" "t \<noteq> Lf" "rb_ok t" "inorder t = rev xs"
    by (auto simp: del_done_def)
  have "focus m (mir t) []" using d(2) focus_mirror [of m "mir t" "[]"] by simp
  then show "del_done m x xs" unfolding del_done_def using d arg_cong [OF d(5), of rev]
    by (intro exI [of _ "mir t"]) simp
qed

lemma delete_step_ok:
  assumes D: "dfocus m t (f # zs)" and t: "ok n t" and z: "okz (Suc n) (f # zs)"
  shows "\<exists>m' x'. delete_step m (rid t) = (m', x') \<and> same_aux m' m \<and>
    (del_up m' x' (length (f # zs)) (inorder (plug t (f # zs))) \<or> del_done m' x' (inorder (plug t (f # zs))))"
proof (cases f)
  case (InL c p s)
  have "rb_left m (par m (rid t)) = rid t" using D InL by (simp add: dfocus_def focus_def par_def)
  then have "delete_step m (rid t) = delete_step_left m (rid t)" by (simp add: delete_step_def)
  then show ?thesis using delete_step_left_ok [of m t c p s zs n] D t z InL by simp
next
  case (InR c s p)
  have F: "focus m (Nd c s p t) zs" using D InR by (simp add: dfocus_def focus_fill)
  have pt: "par m (rid t) = p" using D InR by (simp add: dfocus_def par_def)
  have "s \<noteq> Lf" using z InR by auto
  moreover from this have "rid s \<noteq> 0" using F by (cases s) (auto simp: focus_def)
  ultimately have "rid s \<noteq> rid t" using F by (cases s; cases t) (auto simp: focus_def)
  then have st: "delete_step m (rid t) = delete_step_right m (rid t)"
    using focus_node(1) [OF F] pt by (auto simp: delete_step_def)
  have "dfocus (mirror m) (mir t) (map mirf (f # zs))" using D by (simp only: dfocus_mirror)
  then have D': "dfocus (mirror m) (mir t) (InL c p (mir s) # map mirf zs)" using InR by simp
  have "okz (Suc n) (map mirf (f # zs))" using z by (simp only: mir_ok)
  then have z': "okz (Suc n) (InL c p (mir s) # map mirf zs)" using InR by simp
  have t': "ok n (mir t)" using t by simp
  have io: "inorder (plug (mir t) (InL c p (mir s) # map mirf zs)) = rev (inorder (plug t (f # zs)))"
    using mir_plug [of t "f # zs"] InR by (metis list.map(2) mir_simps(4) mirf.simps(2))
  from delete_step_left_ok [OF D' t' z'] obtain m1 x' where
    r: "delete_step_left (mirror m) (rid t) = (m1, x')" "same_aux m1 (mirror m)"
    "del_up m1 x' (length (f # zs)) (rev (inorder (plug t (f # zs)))) \<or> del_done m1 x' (rev (inorder (plug t (f # zs))))"
    unfolding io by auto
  then have "delete_step m (rid t) = (mirror m1, x')"
    using mirror_delete_step_right [of m "rid t"] st by (cases "delete_step_right m (rid t)") auto
  moreover have "same_aux (mirror m1) m" using r(2) by (simp add: same_aux_def)
  moreover have "m1 = mirror (mirror m1)" by simp
  ultimately show ?thesis using r(3) del_mirror [of "mirror m1" x'] by auto
qed

subsection \<open>The loop\<close>

lemma set_color_same: "rb_color m x = c \<Longrightarrow> set_color x c m = m"
  by (auto simp: set_color_def)

definition rebalanced :: "'d ofi_rbmap \<Rightarrow> 'd ofi_rbmap \<Rightarrow> nat list \<Rightarrow> bool" where
  "rebalanced m' m xs \<longleftrightarrow> (\<exists>t'. focus m' t' [] \<and> rb_ok t' \<and> inorder t' = xs) \<and> same_aux m' m"

lemma delete_exit_red:
  assumes "focus m t zs" and "col t = RED" and "ok n (paint BLACK t)" and "okz n zs"
  shows "\<exists>m'. ofi_delete_rebalance m (rid t) = Some m' \<and> rebalanced m' m (inorder (plug t zs))"
proof -
  obtain l x r where t: "t = Nd RED l x r" using assms(2) by (cases t) auto
  have "ofi_delete_rebalance m x = Some (set_color x BLACK m)"
    using focus_node(4) assms(1) unfolding t by (subst ofi_delete_rebalance.simps) fastforce
  moreover have "rb_ok (plug (Nd BLACK l x r) zs)" using assms(3,4) t by (intro ok_plug [of n]) auto
  moreover have "focus (set_color x BLACK m) (plug (Nd BLACK l x r) zs) []" "same_aux (set_color x BLACK m) m"
    using focus_paint [of m RED l x r zs BLACK] assms(1) t focus_plug by auto
  moreover have "inorder (plug (Nd BLACK l x r) zs) = inorder (plug t zs)" by (simp add: inorder_plug t)
  ultimately show ?thesis unfolding rebalanced_def t by auto
qed

lemma delete_exit_root:
  assumes "focus m t []" and "rb_ok t"
  shows "ofi_delete_rebalance m (rb_root m) = Some m"
proof -
  have "rb_root m = rid t" using assms(1) by (simp add: focus_def)
  moreover have "rb_color m (rid t) = BLACK" using focus_color [OF assms(1)] assms(2) by (simp add: rb_ok_def)
  ultimately show ?thesis by (subst ofi_delete_rebalance.simps) (simp add: set_color_same)
qed

lemma delete_rebalance_ok:
  assumes "dfocus m t zs" and "okz (Suc n) zs" and "if col t = RED then ok (Suc n) (paint BLACK t) else ok n t"
  shows "\<exists>m'. ofi_delete_rebalance m (rid t) = Some m' \<and> rebalanced m' m (inorder (plug t zs))"
  using assms
proof (induction "length zs" arbitrary: m t zs n rule: less_induct)
  case less
  have F: "focus m t zs" using less.prems(1) by (simp add: dfocus_def)
  show ?case
  proof (cases "col t = RED")
    case True
    then show ?thesis using delete_exit_red [OF F True] less.prems by simp
  next
    case nr: False
    then have b: "col t = BLACK" "ok n t" using less.prems(3) by (auto intro: ofi_node_color.exhaust)
    show ?thesis
    proof (cases zs)
      case Nil
      then have "rb_ok t" "rb_root m = rid t" using b F by (auto simp: rb_ok_def ok_def focus_def)
      then show ?thesis using delete_exit_root [of m t] F Nil by (auto simp: rebalanced_def)
    next
      case (Cons f zs')
      have "rb_root m \<in> set (cids zs)" using F Cons by (intro repz_root) (auto simp: focus_def)
      moreover have "rb_root m \<noteq> 0" using calculation F repz_nonzero by (fastforce simp: focus_def)
      ultimately have nr: "rid t \<noteq> rb_root m" using F rid_in [of t] by (cases t) (auto simp: focus_def)
      have "rb_color m (rid t) = BLACK" using focus_color [OF F] b by simp
      moreover obtain m1 x1 where st: "delete_step m (rid t) = (m1, x1)" "same_aux m1 m"
        "del_up m1 x1 (length zs) (inorder (plug t zs)) \<or> del_done m1 x1 (inorder (plug t zs))"
        using delete_step_ok [of m t f zs' n] less.prems b Cons by auto
      ultimately have rec: "ofi_delete_rebalance m (rid t) = ofi_delete_rebalance m1 x1"
        using nr by (subst ofi_delete_rebalance.simps) simp
      have trans: "rebalanced m' m1 xs \<Longrightarrow> rebalanced m' m xs" for m' xs
        using st(2) by (auto simp: rebalanced_def intro: same_aux_trans)
      from st(3) show ?thesis
      proof
        assume "del_up m1 x1 (length zs) (inorder (plug t zs))"
        then obtain t1 n1 zs1 where u: "x1 = rid t1" "dfocus m1 t1 zs1" "okz (Suc n1) zs1"
          "if col t1 = RED then ok (Suc n1) (paint BLACK t1) else ok n1 t1" "inorder (plug t1 zs1) = inorder (plug t zs)"
          "col t1 = RED \<or> length zs1 < length zs" unfolding del_up_def by blast
        have "\<exists>m'. ofi_delete_rebalance m1 (rid t1) = Some m' \<and> rebalanced m' m1 (inorder (plug t1 zs1))"
        proof (cases "col t1 = RED")
          case True
          then show ?thesis using delete_exit_red [of m1 t1 zs1 "Suc n1"] u by (simp add: dfocus_def)
        next
          case False
          then show ?thesis using less.hyps [OF _ u(2,3,4)] u(6) by blast
        qed
        then show ?thesis using rec u(1,5) trans by auto
      next
        assume "del_done m1 x1 (inorder (plug t zs))"
        then obtain t1 where d: "x1 = rb_root m1" "focus m1 t1 []" "rb_ok t1" "inorder t1 = inorder (plug t zs)"
          by (auto simp: del_done_def)
        then show ?thesis using rec delete_exit_root [OF d(2,3)] trans [of m1] by (auto simp: rebalanced_def)
      qed
    qed
  qed
qed

subsection \<open>Unlinking a node with at most one child\<close>

lemma hole_in: "hole_left zs z \<or> hole_right zs z \<Longrightarrow> z \<in> set (cids zs)"
  by (auto simp: hole_left_def hole_right_def split: list.splits frame.splits)

lemma hole_cases:
  "hole_left zs z \<Longrightarrow> cpar zs = Some z" "hole_right zs z \<Longrightarrow> cpar zs = Some z"
  by (auto simp: hole_left_def hole_right_def split: list.splits frame.splits)

text \<open>A context whose pointer to the hole is redirected.\<close>

lemma redirect_repz:
  assumes z: "repz m h zs" "distinct (cids zs)"
    and l: "rb_left m' = (\<lambda>z. if hole_left zs z then h' else L z)" "\<And>z. z \<in> set (cids zs) \<Longrightarrow> L z = rb_left m z"
    and r: "rb_right m' = (\<lambda>z. if hole_right zs z then h' else R z)" "\<And>z. z \<in> set (cids zs) \<Longrightarrow> R z = rb_right m z"
    and g: "rb_root m' = (if zs = [] then h' else rb_root m)"
    and pc: "\<And>z. z \<in> set (cids zs) \<Longrightarrow> rb_parent m' z = rb_parent m z \<and> rb_color m' z = rb_color m z"
  shows "repz m' h' zs"
proof (rule repz_rehole [OF z])
  show "rb_parent m' w = rb_parent m w \<and> rb_color m' w = rb_color m w \<and>
    (Some w \<noteq> cpar zs \<longrightarrow> rb_left m' w = rb_left m w \<and> rb_right m' w = rb_right m w)" if "w \<in> set (cids zs)" for w
    using that pc l r hole_cases by (auto simp: fun_eq_iff)
  show "case zs of [] \<Rightarrow> rb_root m' = h' | InL c x r # _ \<Rightarrow> rb_left m' x = h' \<and> rb_right m' x = rb_right m x
    | InR c l x # _ \<Rightarrow> rb_right m' x = h' \<and> rb_left m' x = rb_left m x"
    using l r g by (auto simp: hole_left_def hole_right_def split: list.splits frame.splits)
qed (simp add: g)

lemma redirect_hole:
  assumes "focus m t zs" and "t \<noteq> Lf" and "\<forall>z \<in> set (cids zs). rb_left m1 z = rb_left m z"
  shows "rb_left (redirect_left (cpar zs) (rid t) h' m1) = (\<lambda>z. if hole_left zs z then h' else rb_left m1 z)"
    and "rb_right (redirect_left (cpar zs) (rid t) h' m1) = (\<lambda>z. if hole_right zs z then h' else rb_right m1 z)"
    and "rb_root (redirect_left (cpar zs) (rid t) h' m1) = (if zs = [] then h' else rb_root m1)"
proof -
  have side: "rid t = rb_left m1 (fnode f) \<longleftrightarrow> (\<exists>c x r. f = InL c x r)" if "zs = f # zs'" for f zs'
  proof -
    have "rb_left m1 (fnode f) = rb_left m (fnode f)" using assms(3) that fnode_in [of f] by auto
    moreover have "rid t \<noteq> 0" "rid t \<in> set (inorder t)" using assms(1,2) rid_zero rid_in by (auto simp: focus_def)
    ultimately show ?thesis using assms(1) that rid_in [of "fsib f"] by (cases f; cases "fsib f") (auto simp: focus_def)
  qed
  show "rb_left (redirect_left (cpar zs) (rid t) h' m1) = (\<lambda>z. if hole_left zs z then h' else rb_left m1 z)"
    "rb_right (redirect_left (cpar zs) (rid t) h' m1) = (\<lambda>z. if hole_right zs z then h' else rb_right m1 z)"
    "rb_root (redirect_left (cpar zs) (rid t) h' m1) = (if zs = [] then h' else rb_root m1)"
    using side [of "hd zs" "tl zs"]
    by (cases zs; cases "hd zs"; auto simp: redirect_fields hole_left_def hole_right_def fun_eq_iff)+
qed

lemma unlink_focus:
  assumes F: "focus m (Nd c l y r) zs" and u: "l = Lf \<and> u = r \<or> r = Lf \<and> u = l"
  shows "dfocus (unlink_node y (rid u) m) u zs" and "rb_data (unlink_node y (rid u) m) = rb_data m"
    and "rb_live (unlink_node y (rid u) m) = rb_live m" and "rb_color (unlink_node y (rid u) m) = rb_color m"
proof -
  let ?m1 = "set_parent (rid u) (cpar zs) m" and ?m = "unlink_node y (rid u) m"
  have p: "rb_parent m y = cpar zs" "y \<noteq> rid u" using F u by (cases u; auto simp: focus_def)+
  have m: "?m = redirect_left (cpar zs) y (rid u) ?m1"
    using p by (simp add: unlink_node_def Let_def set_parent_def)
  note R = redirect_hole [OF F, of ?m1 "rid u", simplified]
  have f: "rb_left ?m = (\<lambda>z. if hole_left zs z then rid u else rb_left m z)"
    "rb_right ?m = (\<lambda>z. if hole_right zs z then rid u else rb_right m z)"
    "rb_root ?m = (if zs = [] then rid u else rb_root m)" "rb_parent ?m = (rb_parent m)(rid u := cpar zs)"
    using R unfolding m by (simp_all add: set_parent_def redirect_fields cong: if_cong)
  show d: "rb_data ?m = rb_data m" "rb_live ?m = rb_live m" "rb_color ?m = rb_color m"
    unfolding m by (simp_all add: set_parent_def redirect_fields)
  have U: "rep m (Some y) u" "distinct (inorder u @ cids zs)" "repz m y zs" "0 \<notin> set (cids zs)"
    using F u repz_nonzero [of m y zs] by (auto simp: focus_def)
  have h: "\<not> hole_left zs z \<and> \<not> hole_right zs z" if "z \<in> set (inorder u)" for z
    using that U(2) hole_in [of zs z] by auto
  have "rep ?m (cpar zs) u"
    using U h by (intro rep_reparent [OF U(1)]) (auto simp: f d)
  moreover have "rid u \<notin> set (cids zs)" using U(2,4) rid_in [of u] by (cases u) auto
  then have "repz ?m (rid u) zs"
    using U by (intro redirect_repz [OF U(3) _ f(1) _ f(2) _ f(3)]) (auto simp: f(4) d)
  ultimately show "dfocus ?m u zs" using U(2) F by (simp add: dfocus_def focus_def f(4) d)
qed

lemma leftmost_ok:
  assumes "rep m p t" and "t \<noteq> Lf"
  shows "\<exists>y c r zy. leftmost m (rid t) = Some y \<and> plug (Nd c Lf y r) zy = t \<and> cpre zy = []"
  using assms
proof (induction t arbitrary: p)
  case (Nd c l x r)
  then have x: "rb_left m x = rid l" "rep m (Some x) l" by simp_all
  show ?case
  proof (cases "l = Lf")
    case True
    then have "leftmost m (rid (Nd c l x r)) = Some x" using x by (subst leftmost.simps) simp
    then show ?thesis using True by (intro exI [of _ x] exI [of _ c] exI [of _ r] exI [of _ "[]"]) simp
  next
    case False
    then obtain y c' r' zy where y: "leftmost m (rid l) = Some y" "plug (Nd c' Lf y r') zy = l" "cpre zy = []"
      using Nd.IH(1) [OF x(2)] by blast
    have "leftmost m (rid (Nd c l x r)) = Some y"
      using x y(1) rid_zero [OF x(2)] False by (subst leftmost.simps) simp
    moreover have "plug (Nd c' Lf y r') (zy @ [InL c x r]) = Nd c l x r" "cpre (zy @ [InL c x r]) = []"
    proof -
      have "plug t (zs @ zs') = plug (plug t zs) zs'" for t zs zs' by (induction zs arbitrary: t) auto
      then show "plug (Nd c' Lf y r') (zy @ [InL c x r]) = Nd c l x r" using y(2) by simp
      show "cpre (zy @ [InL c x r]) = []" using y(3)
      proof (induction zy)
        case (Cons f zy)
        then show ?case by (cases f) auto
      qed simp
    qed
    ultimately show ?thesis by blast
  qed
qed simp

subsection \<open>Taking the place of a node\<close>

lemma replace_focus:
  assumes F: "focus m (Nd c l x r) zs" and y: "y \<noteq> 0" "y \<noteq> x" "y \<notin> set (inorder (Nd c l x r) @ cids zs)"
  shows "focus (ofi_rbmap_replace_node_ptr x y m) (Nd c l y r) zs"
    and "rb_data (ofi_rbmap_replace_node_ptr x y m) = (rb_data m)(y := rb_data m x)"
    and "rb_live (ofi_rbmap_replace_node_ptr x y m) = rb_live m"
proof -
  let ?m = "ofi_rbmap_replace_node_ptr x y m"
  have n: "rb_left m x = rid l" "rb_right m x = rid r" "rb_parent m x = cpar zs" "rb_color m x = c" "x \<noteq> 0"
    using focus_node [OF F] by simp_all
  define m1 where "m1 = m\<lparr>rb_left := (rb_left m)(y := rid l), rb_right := (rb_right m)(y := rid r),
    rb_parent := (rb_parent m)(y := cpar zs), rb_color := (rb_color m)(y := c), rb_data := (rb_data m)(y := rb_data m x)\<rparr>"
  define m2 where "m2 = redirect_left (cpar zs) x y m1"
  have out: "\<forall>z \<in> set (cids zs). rb_left m1 z = rb_left m z" using y(3) by (auto simp: m1_def)
  note R = redirect_hole [OF F _ out, of y, simplified, folded m2_def]
  have hx: "\<not> hole_left zs x \<and> \<not> hole_right zs x" using hole_in [of zs x] F by (auto simp: focus_def)
  have e: "?m = adopt (rid r) (Some y) (adopt (rid l) (Some y) m2)"
    using y n hx R by (simp add: ofi_rbmap_replace_node_ptr_def Let_def field_updates m1_def m2_def redirect_fields adopt_fields)
  show "rb_data ?m = (rb_data m)(y := rb_data m x)" "rb_live ?m = rb_live m"
    unfolding e by (simp_all add: adopt_fields m2_def redirect_fields m1_def)
  have f: "rb_left ?m = (\<lambda>z. if hole_left zs z then y else ((rb_left m)(y := rid l)) z)"
    "rb_right ?m = (\<lambda>z. if hole_right zs z then y else ((rb_right m)(y := rid r)) z)"
    "rb_root ?m = (if zs = [] then y else rb_root m)" "rb_color ?m = (rb_color m)(y := c)"
    unfolding e by (simp_all add: adopt_fields R) (simp_all add: m1_def m2_def redirect_fields cong: if_cong)
  have P: "rb_parent ?m z = (if r \<noteq> Lf \<and> z = rid r \<or> l \<noteq> Lf \<and> z = rid l then Some y else if z = y then cpar zs else rb_parent m z)" for z
    using F rid_zero [of m "Some x" l] rid_zero [of m "Some x" r]
    unfolding e by (auto simp: adopt_fields m1_def m2_def redirect_fields focus_def)
  have d: "distinct (inorder (Nd c l x r) @ cids zs)" "rep m (Some x) l" "rep m (Some x) r" "repz m x zs"
    using F by (simp_all add: focus_def)
  have h: "\<not> hole_left zs z \<and> \<not> hole_right zs z" if "z \<in> insert y (set (inorder (Nd c l x r)))" for z
    using that d(1) y(3) hole_in [of zs z] by auto
  have L: "rep ?m (Some y) l"
  proof (rule rep_reparent [OF d(2)])
    show "rb_left ?m w = rb_left m w \<and> rb_right ?m w = rb_right m w \<and> rb_color ?m w = rb_color m w \<and>
      (w \<noteq> rid l \<longrightarrow> rb_parent ?m w = rb_parent m w)" if "w \<in> set (inorder l)" for w
      using that d(1) y(3) h [of w] rid_in [of r] by (auto simp: f P)
  qed (use d in \<open>auto simp: P\<close>)
  have RR: "rep ?m (Some y) r"
  proof (rule rep_reparent [OF d(3)])
    show "rb_left ?m w = rb_left m w \<and> rb_right ?m w = rb_right m w \<and> rb_color ?m w = rb_color m w \<and>
      (w \<noteq> rid r \<longrightarrow> rb_parent ?m w = rb_parent m w)" if "w \<in> set (inorder r)" for w
      using that d(1) y(3) h [of w] rid_in [of l] by (auto simp: f P)
  qed (use d in \<open>auto simp: P\<close>)
  have Z: "repz ?m y zs"
    using d y(3) rid_in [of l] rid_in [of r] by (intro redirect_repz [OF d(4) _ f(1) _ f(2) _ f(3)]) (auto simp: f(4) P)
  have "rb_parent ?m y = cpar zs" using y(3) rid_in [of l] rid_in [of r] by (auto simp: P)
  then show "focus ?m (Nd c l y r) zs" using L RR Z d(1) y h [of y] F by (auto simp: focus_def f)
qed

subsection \<open>The whole operation\<close>

lemma plug_append: "plug t (zs @ zs') = plug (plug t zs) zs'"
  by (induction zs arbitrary: t) auto

lemma node_context: "x \<in> set (inorder t) \<Longrightarrow> \<exists>c l r zs. plug (Nd c l x r) zs = t"
proof (induction t)
  case (Nd c l y r)
  then consider "x = y" | "x \<in> set (inorder l)" | "x \<in> set (inorder r)" by auto
  then show ?case
  proof cases
    case 1
    then show ?thesis by (metis plug.simps(1))
  next
    case 2
    then obtain c' l' r' zs where "plug (Nd c' l' x r') zs = l" using Nd.IH(1) by blast
    then have "plug (Nd c' l' x r') (zs @ [InL c y r]) = Nd c l y r" by (simp add: plug_append)
    then show ?thesis by blast
  next
    case 3
    then obtain c' l' r' zs where "plug (Nd c' l' x r') zs = r" using Nd.IH(2) by blast
    then have "plug (Nd c' l' x r') (zs @ [InR c l y]) = Nd c l y r" by (simp add: plug_append)
    then show ?thesis by blast
  qed
qed simp

lemma unlinked_rebalance:
  assumes "dfocus m u zs" and t: "rb_ok (plug (Nd c l y r) zs)" and u: "l = Lf \<and> u = r \<or> r = Lf \<and> u = l"
  shows "\<exists>m'. (if c = BLACK then ofi_delete_rebalance m (rid u) else Some m) = Some m' \<and>
    rebalanced m' m (inorder (plug u zs))"
proof -
  obtain n where n: "ok n (Nd c l y r)" "okz n zs" "c = RED \<longrightarrow> zs \<noteq> [] \<and> fcol (hd zs) = BLACK"
    using ok_unplug [OF t] by auto
  show ?thesis
  proof (cases c)
    case BLACK
    have k: "n = Suc 0" "ok 0 u" using n(1) BLACK u by auto
    have "if col u = RED then ok (Suc 0) (paint BLACK u) else ok 0 u" using k by (cases u) auto
    then show ?thesis using delete_rebalance_ok [OF assms(1), of 0] n(2) k BLACK by simp
  next
    case RED
    have k: "ok n u" "col u = BLACK" using n(1) RED u by auto
    then have "rb_ok (plug u zs)" using n by (intro ok_plug [of n]) auto
    moreover have "focus m (plug u zs) []" using assms(1) focus_plug by (auto simp: dfocus_def)
    ultimately show ?thesis using RED by (auto simp: rebalanced_def)
  qed
qed

lemma focus_set_data [simp]: "focus (set_data p d m) t zs = focus m t zs" "dfocus (set_data p d m) t zs = dfocus m t zs"
proof -
  have "rep (set_data p d m) q t = rep m q t" for q t by (rule rep_cong) (simp add: set_data_def)
  moreover have "repz (set_data p d m) h zs = repz m h zs" for h by (rule repz_cong) (simp_all add: set_data_def)
  ultimately show "focus (set_data p d m) t zs = focus m t zs" by (simp add: focus_def) (simp add: set_data_def)
  then show "dfocus (set_data p d m) t zs = dfocus m t zs" by (simp add: dfocus_def) (simp add: set_data_def)
qed

lemma focus_set_live [simp]: "focus (m\<lparr>rb_live := S\<rparr>) t zs = focus m t zs"
proof -
  have "rep (m\<lparr>rb_live := S\<rparr>) q t = rep m q t" for q t by (rule rep_cong) simp
  moreover have "repz (m\<lparr>rb_live := S\<rparr>) h zs = repz m h zs" for h by (rule repz_cong) simp_all
  ultimately show ?thesis by (simp add: focus_def)
qed

lemma rename_node: "rb_ok (plug (Nd c l x r) zs) \<Longrightarrow> rb_ok (plug (Nd c l y r) zs)"
proof -
  assume "rb_ok (plug (Nd c l x r) zs)"
  then obtain n where n: "ok n (Nd c l x r)" "okz n zs" "col (Nd c l x r) = RED \<longrightarrow> zs \<noteq> [] \<and> fcol (hd zs) = BLACK"
    using ok_unplug by blast
  have "ok n (Nd c l y r)" using n(1) by (cases c) auto
  then show ?thesis using n by (intro ok_plug) auto
qed

lemma cids_sides: "set (cids zs) = set (cpre zs) \<union> set (cpost zs)"
proof (induction zs)
  case (Cons f zs)
  then show ?case by (cases f) auto
qed simp

text \<open>A node with at most one child is unlinked itself.\<close>

lemma delete_single:
  assumes inv: "rbmap_inv m (plug (Nd c l x r) zs)" and u: "l = Lf \<and> u = r \<or> r = Lf \<and> l \<noteq> Lf \<and> u = l"
  shows "\<exists>m' t'. ofi_rbmap_delete m x = Some m' \<and> rbmap_inv m' t' \<and> inorder t' = cpre zs @ inorder u @ cpost zs \<and>
    rb_data m' = rb_data m"
proof -
  have F: "focus m (Nd c l x r) zs" and ok: "rb_ok (plug (Nd c l x r) zs)"
    and live: "rb_live m = set (inorder (plug (Nd c l x r) zs))"
    using inv focus_plug by (auto simp: rbmap_inv_def)
  have u': "l = Lf \<and> u = r \<or> r = Lf \<and> u = l" using u by blast
  note U = unlink_focus [OF F u']
  obtain m2 where m2: "(if c = BLACK then ofi_delete_rebalance (unlink_node x (rid u) m) (rid u)
      else Some (unlink_node x (rid u) m)) = Some m2" "rebalanced m2 (unlink_node x (rid u) m) (inorder (plug u zs))"
    using unlinked_rebalance [OF U(1) ok u'] by blast
  then obtain t2 where t2: "focus m2 t2 []" "rb_ok t2" "inorder t2 = cpre zs @ inorder u @ cpost zs"
    "rb_data m2 = rb_data m" "rb_live m2 = rb_live m"
    using U(2,3) by (auto simp: rebalanced_def same_aux_def inorder_plug)
  have n: "rb_left m x = rid l" "rb_right m x = rid r" "rb_color m x = c" "rid l = 0 \<longleftrightarrow> l = Lf"
    using focus_node [OF F] F rid_zero by (auto simp: focus_def)
  have "ofi_rbmap_delete m x = Some (m2\<lparr>rb_live := rb_live m2 - {x}\<rparr>)"
    using n u m2(1) U(4) by (auto simp: ofi_rbmap_delete_def Let_def ofi_rbmap_replace_node_ptr_def split: if_splits)
  moreover have "rbmap_inv (m2\<lparr>rb_live := rb_live m2 - {x}\<rparr>) t2"
  proof -
    have "distinct (inorder (plug (Nd c l x r) zs))" using inv by (simp add: rbmap_inv_def focus_def)
    then have "x \<notin> set (inorder t2)" using t2(3) u by (auto simp: inorder_plug)
    then show ?thesis using t2 live u by (auto simp: rbmap_inv_def inorder_plug)
  qed
  ultimately show ?thesis using t2(3,4) by auto
qed

text \<open>For a node with two children its successor is unlinked and takes its place.\<close>

lemma delete_double:
  assumes inv: "rbmap_inv m (plug (Nd c l x r) zs)" and lr: "l \<noteq> Lf" "r \<noteq> Lf"
  shows "\<exists>m' t'. ofi_rbmap_delete m x = Some m' \<and> rbmap_inv m' t' \<and>
    inorder t' = cpre zs @ inorder l @ inorder r @ cpost zs \<and> (\<forall>z. z \<noteq> x \<longrightarrow> rb_data m' z = rb_data m z)"
proof -
  have F: "focus m (Nd c l x r) zs" and ok: "rb_ok (plug (Nd c l x r) zs)"
    and live: "rb_live m = set (inorder (plug (Nd c l x r) zs))"
    and dist: "distinct (inorder (plug (Nd c l x r) zs))"
    using inv focus_plug by (auto simp: rbmap_inv_def) (simp add: focus_def)
  have n: "rb_left m x = rid l" "rb_right m x = rid r" "rid l \<noteq> 0" "rid r \<noteq> 0"
    using focus_node [OF F] F lr rid_zero by (auto simp: focus_def)
  obtain y cy ry zy where y: "leftmost m (rid r) = Some y" "plug (Nd cy Lf y ry) zy = r" "cpre zy = []"
    using leftmost_ok [of m "Some x" r] F lr by (auto simp: focus_def)
  let ?zs = "zy @ InR c l x # zs"
  have T: "plug (Nd cy Lf y ry) ?zs = plug (Nd c l x r) zs" using y(2) by (simp add: plug_append)
  then have Fy: "focus m (Nd cy Lf y ry) ?zs" using focus_plug F by metis
  have ir: "inorder r = y # inorder ry @ cpost zy" using y(2,3) inorder_plug [of "Nd cy Lf y ry" zy] by simp
  have xy: "x \<noteq> y" "y \<noteq> 0" using dist ir focus_node(5) [OF Fy] by (auto simp: inorder_plug)
  note U = unlink_focus [OF Fy, of ry, simplified]
  let ?m1 = "set_data x (rb_data m y) (unlink_node y (rid ry) m)"
  have D1: "dfocus ?m1 ry ?zs" using U(1) by simp
  have ok': "rb_ok (plug (Nd cy Lf y ry) ?zs)" using ok T by simp
  obtain m2 where m2: "(if cy = BLACK then ofi_delete_rebalance ?m1 (rid ry) else Some ?m1) = Some m2"
    "rebalanced m2 ?m1 (inorder (plug ry ?zs))"
    using unlinked_rebalance [OF D1 ok'] by blast
  then obtain t2 where t2: "focus m2 t2 []" "rb_ok t2" "inorder t2 = inorder (plug ry ?zs)"
    "rb_data m2 = (rb_data m)(x := rb_data m y)" "rb_live m2 = rb_live m"
    using U(2,3) by (auto simp: rebalanced_def same_aux_def set_data_def)
  have i2: "inorder t2 = (cpre zs @ inorder l) @ x # inorder ry @ cpost zy @ cpost zs"
    using t2(3) y(3) by (simp add: plug_append inorder_plug)
  obtain c2 l2 r2 z2 where C: "plug (Nd c2 l2 x r2) z2 = t2" using node_context [of x t2] i2 by auto
  have F2: "focus m2 (Nd c2 l2 x r2) z2" using t2(1) C focus_plug by metis
  have "y \<notin> set (inorder t2)" using dist ir i2 by (auto simp: inorder_plug)
  moreover have "set (inorder t2) = set (inorder (Nd c2 l2 x r2) @ cids z2)"
    using C inorder_plug [of "Nd c2 l2 x r2" z2] cids_sides [of z2] by auto
  ultimately have yn: "y \<notin> set (inorder (Nd c2 l2 x r2) @ cids z2)" by simp
  note R = replace_focus [OF F2 xy(2) xy(1) [symmetric] yn]
  let ?m' = "(ofi_rbmap_replace_node_ptr x y m2)\<lparr>rb_live := rb_live m - {x}\<rparr>" and ?t' = "plug (Nd c2 l2 y r2) z2"
  have "rb_right m y = rid ry" "rb_color m y = cy" using focus_node [OF Fy] by simp_all
  then have del: "ofi_rbmap_delete m x = Some ?m'"
    using n y(1) m2(1) U(2,4) xy R(3) t2(5) by (simp add: ofi_rbmap_delete_def Let_def set_data_def split: if_splits)
  have "(cpre zs @ inorder l) @ x # (inorder ry @ cpost zy @ cpost zs) = (cpre z2 @ inorder l2) @ x # (inorder r2 @ cpost z2)"
    using i2 inorder_plug [of "Nd c2 l2 x r2" z2] C by simp
  moreover have "x \<notin> set (cpre zs @ inorder l)" "x \<notin> set (inorder ry @ cpost zy @ cpost zs)"
    using dist ir by (auto simp: inorder_plug)
  ultimately have "cpre z2 @ inorder l2 = cpre zs @ inorder l \<and> inorder r2 @ cpost z2 = inorder ry @ cpost zy @ cpost zs"
    by (metis append_Cons_eq_iff)
  then have i': "inorder ?t' = cpre zs @ inorder l @ inorder r @ cpost zs" using ir by (simp add: inorder_plug)
  moreover have "rbmap_inv ?m' ?t'"
    using R(1) focus_plug rename_node [of c2 l2 x r2 z2 y] t2(2) C live i' dist
    by (auto simp: rbmap_inv_def inorder_plug)
  moreover have "\<forall>z. z \<noteq> x \<longrightarrow> rb_data ?m' z = rb_data m z" using R(2) t2(4) by simp
  ultimately show ?thesis using del by blast
qed

theorem rbmap_delete_ok:
  assumes inv: "rbmap_inv m t" and x: "x \<in> set (inorder t)"
  shows "\<exists>m' t'. ofi_rbmap_delete m x = Some m' \<and> rbmap_inv m' t' \<and> inorder t' = remove1 x (inorder t) \<and>
    (\<forall>z. z \<noteq> x \<longrightarrow> rb_data m' z = rb_data m z)"
proof -
  obtain c l r zs where t: "plug (Nd c l x r) zs = t" using node_context [OF x] by blast
  have "distinct (inorder t)" using inv by (simp add: rbmap_inv_def focus_def)
  then have i: "remove1 x (inorder t) = cpre zs @ inorder l @ inorder r @ cpost zs"
    using inorder_plug [of "Nd c l x r" zs] t by (auto simp: remove1_append remove1_idem)
  consider "l = Lf" | "l \<noteq> Lf" "r = Lf" | "l \<noteq> Lf" "r \<noteq> Lf" by blast
  then show ?thesis
  proof cases
    case 1
    then show ?thesis using delete_single [of m c l x r zs r] inv t i by auto
  next
    case 2
    then show ?thesis using delete_single [of m c l x r zs l] inv t i by auto
  next
    case 3
    then show ?thesis using delete_double [of m c l x r zs] inv t i by auto
  qed
qed

end
