(* ===== verification/Ofi_Tree_Laws.thy ===== *)
theory Ofi_Tree_Laws
  imports Ofi_Tree_Del "HOL-Library.Multiset"
begin

section \<open>Laws of the red-black map\<close>

text \<open>
  What the clients of the map rely on: the states that can be reached, the contract of a map from keys
  to data (a locale), and its proof for every comparison that orders the keys linearly.
\<close>

subsection \<open>Reachable maps\<close>

lemma rbmap_create_inv: "ofi_rbmap_create null calloc = Some m \<Longrightarrow> rbmap_inv m Lf"
  by (auto simp: ofi_rbmap_create_def ofi_rbmap_init_def field_updates rbmap_inv_def focus_def rb_ok_def split: if_splits)

text \<open>The nodes are allocated at addresses that are not in use; only nodes of the map are deleted.\<close>

inductive rb_reachable :: "('k \<Rightarrow> 'd \<Rightarrow> int) \<Rightarrow> 'd ofi_rbmap \<Rightarrow> bool" for compare where
  created: "ofi_rbmap_create null calloc = Some m \<Longrightarrow> rb_reachable compare m"
| inserted: "rb_reachable compare m \<Longrightarrow> (\<And>node. malloc = Some node \<Longrightarrow> node \<noteq> 0 \<and> node \<notin> rb_live m) \<Longrightarrow>
    ofi_rbmap_insert compare malloc m key data = Some (r, m') \<Longrightarrow> rb_reachable compare m'"
| deleted: "rb_reachable compare m \<Longrightarrow> node \<in> rb_live m \<Longrightarrow> ofi_rbmap_delete m node = Some m' \<Longrightarrow> rb_reachable compare m'"

lemma insert_walk_root:
  assumes "rbmap_inv m t"
  shows "insert_walk compare m key (rb_root m) None = Some (Inl FI_EALREADY) \<and>
      (\<exists>y \<in> set (inorder t). compare key (rb_data m y) = 0) \<or>
    (\<exists>q. insert_walk compare m key (rb_root m) None = Some (Inr q) \<and>
      (descending compare key (map (rb_data m) (inorder t)) \<longrightarrow> (\<forall>y \<in> set (inorder t). compare key (rb_data m y) \<noteq> 0)))"
proof -
  have r: "rep m (cpar []) t" "rb_root m = rid t" using assms by (auto simp: rbmap_inv_def focus_def)
  obtain w where w: "insert_walk compare m key (rid t) (cpar []) = Some w"
    "case w of Inl e \<Rightarrow> e = FI_EALREADY \<and> (\<exists>y \<in> set (inorder t). compare key (rb_data m y) = 0)
     | Inr q \<Rightarrow> \<exists>path. plug Lf (path @ []) = plug t [] \<and> q = cpar (path @ []) \<and> (\<forall>f \<in> set path. turns compare m key f)"
    using insert_walk_ok [OF r(1), of compare key] by (elim exE conjE) (rule that)
  show ?thesis
  proof (cases w)
    case (Inl e)
    then show ?thesis using w r(2) by auto
  next
    case (Inr q)
    then obtain path where path: "plug Lf path = t" "\<forall>f \<in> set path. turns compare m key f" using w(2) by auto
    have "inorder t = cpre path @ cpost path" using path(1) inorder_plug [of Lf path] by simp
    then have "descending compare key (map (rb_data m) (inorder t)) \<longrightarrow> (\<forall>y \<in> set (inorder t). compare key (rb_data m y) \<noteq> 0)"
      using turns_sides [OF path(2), of Lf] path(1) by fastforce
    then show ?thesis using w(1) Inr r(2) by auto
  qed
qed

lemma insert_no_memory:
  assumes "rbmap_inv m t"
  shows "ofi_rbmap_insert compare None m key data = Some (Inl FI_EALREADY, m) \<or>
    ofi_rbmap_insert compare None m key data = Some (Inl FI_ENOMEM, m)"
  using insert_walk_root [OF assms, of compare key] by (auto simp: ofi_rbmap_insert_def)

lemma rb_reachable_inv: "rb_reachable compare m \<Longrightarrow> \<exists>t. rbmap_inv m t"
proof (induction rule: rb_reachable.induct)
  case (created null calloc m)
  show ?case using rbmap_create_inv [OF created] by (rule exI)
next
  case (inserted m malloc key data r m')
  then obtain t where t: "rbmap_inv m t" by blast
  show ?case
  proof (cases malloc)
    case None
    then show ?thesis using insert_no_memory [OF t, of compare key data] inserted.hyps(3) t by auto
  next
    case (Some node)
    then have "node \<noteq> 0" "node \<notin> rb_live m" using inserted.hyps(2) by auto
    from rbmap_insert_ok [OF t this, of compare key data] show ?thesis using inserted.hyps(3) Some t by auto
  qed
next
  case (deleted m node m')
  then obtain t where t: "rbmap_inv m t" by blast
  then have "node \<in> set (inorder t)" using deleted.hyps(2) by (simp add: rbmap_inv_def)
  from rbmap_delete_ok [OF t this] show ?case using deleted.hyps(3) by auto
qed

subsection \<open>Height\<close>

fun height :: "rbt \<Rightarrow> nat" where
  "height Lf = 0"
| "height (Nd c l x r) = Suc (max (height l) (height r))"

lemma height_bh: "invc t \<Longrightarrow> invh t \<Longrightarrow> height t \<le> 2 * bh t + (if col t = RED then 1 else 0)"
proof (induction t)
  case (Nd c l x r)
  then show ?case by (cases c) (auto simp: max_def split: if_splits)
qed simp

lemma bh_size: "invh t \<Longrightarrow> 2 ^ bh t \<le> length (inorder t) + 1"
proof (induction t)
  case (Nd c l x r)
  then have "2 ^ bh l \<le> length (inorder l) + 1" "2 ^ bh l \<le> length (inorder r) + 1" by simp_all
  then show ?case by simp
qed simp

subsection \<open>Destruction\<close>

lemma delete_tree_ok: "rep m p t \<Longrightarrow> \<exists>fs. ofi_delete_tree m (rid t) = Some fs \<and> mset fs = mset (inorder t)"
proof (induction t arbitrary: p)
  case Lf
  then show ?case by (simp add: ofi_delete_tree.simps)
next
  case (Nd c l x r)
  then obtain fl fr where "ofi_delete_tree m (rid l) = Some fl" "mset fl = mset (inorder l)"
    "ofi_delete_tree m (rid r) = Some fr" "mset fr = mset (inorder r)" by fastforce
  then show ?case using Nd.prems by (subst ofi_delete_tree.simps) simp
qed

subsection \<open>The contract of a map\<close>

text \<open>
  A map from keys to data items whose entries have handles: the lookup finds the entry of a key, an
  insertion of a new key adds an entry at a fresh handle and fails for a key that is there, and a
  deletion removes the entry of a handle and leaves the handles of the others valid.
\<close>

locale keyed_map =
  fixes inv :: "'s \<Rightarrow> bool" and handles :: "'s \<Rightarrow> 'h set" and item :: "'s \<Rightarrow> 'h \<Rightarrow> 'd" and key :: "'d \<Rightarrow> 'k"
    and fresh :: "'s \<Rightarrow> 'h \<Rightarrow> bool"
    and lookup :: "'s \<Rightarrow> 'k \<Rightarrow> 'h option option"
    and store :: "'h option \<Rightarrow> 's \<Rightarrow> 'k \<Rightarrow> 'd \<Rightarrow> ('h fi_result \<times> 's) option"
    and discard :: "'s \<Rightarrow> 'h \<Rightarrow> 's option"
  assumes unique: "inv s \<Longrightarrow> h \<in> handles s \<Longrightarrow> h' \<in> handles s \<Longrightarrow> key (item s h) = key (item s h') \<Longrightarrow> h = h'"
    and lookup_found: "inv s \<Longrightarrow> h \<in> handles s \<Longrightarrow> lookup s (key (item s h)) = Some (Some h)"
    and lookup_missing: "inv s \<Longrightarrow> (\<forall>h \<in> handles s. key (item s h) \<noteq> k) \<Longrightarrow> lookup s k = Some None"
    and store_new: "inv s \<Longrightarrow> fresh s h \<Longrightarrow> (\<forall>h' \<in> handles s. key (item s h') \<noteq> key d) \<Longrightarrow>
      \<exists>s'. store (Some h) s (key d) d = Some (Inr h, s') \<and> inv s' \<and> handles s' = insert h (handles s) \<and>
        item s' h = d \<and> (\<forall>h' \<in> handles s. item s' h' = item s h')"
    and store_twice: "inv s \<Longrightarrow> h' \<in> handles s \<Longrightarrow> store a s (key (item s h')) d = Some (Inl FI_EALREADY, s)"
    and store_no_memory: "inv s \<Longrightarrow> (\<forall>h' \<in> handles s. key (item s h') \<noteq> k) \<Longrightarrow> store None s k d = Some (Inl FI_ENOMEM, s)"
    and fresh_not_used: "inv s \<Longrightarrow> fresh s h \<Longrightarrow> h \<notin> handles s"
    and discard_one: "inv s \<Longrightarrow> h \<in> handles s \<Longrightarrow>
      \<exists>s'. discard s h = Some s' \<and> inv s' \<and> handles s' = handles s - {h} \<and> (\<forall>h' \<in> handles s'. item s' h' = item s h')"
begin

text \<open>The map the state stands for.\<close>

definition denotes :: "'s \<Rightarrow> ('k \<rightharpoonup> 'd) \<Rightarrow> bool" where
  "denotes s M \<longleftrightarrow> inv s \<and> (\<forall>k d. M k = Some d \<longleftrightarrow> (\<exists>h \<in> handles s. item s h = d \<and> key d = k))"

lemma denotes_unique: "denotes s M \<Longrightarrow> denotes s M' \<Longrightarrow> M = M'"
  unfolding denotes_def by (intro ext) (metis not_None_eq)

lemma lookup_denotes:
  assumes "denotes s M"
  shows "case M k of None \<Rightarrow> lookup s k = Some None
    | Some d \<Rightarrow> \<exists>h \<in> handles s. lookup s k = Some (Some h) \<and> item s h = d"
proof (cases "M k")
  case None
  then have "\<forall>h \<in> handles s. key (item s h) \<noteq> k" using assms unfolding denotes_def by (metis not_None_eq)
  then show ?thesis using None lookup_missing assms by (simp add: denotes_def)
next
  case (Some d)
  then obtain h where "h \<in> handles s" "item s h = d" "key d = k" using assms unfolding denotes_def by blast
  moreover have "inv s" using assms by (simp add: denotes_def)
  ultimately have "lookup s k = Some (Some h)" "h \<in> handles s" "item s h = d" using lookup_found [of s h] by simp_all
  then show ?thesis unfolding Some option.case by blast
qed

lemma store_denotes:
  assumes "denotes s M" and "M (key d) = None" and "fresh s h"
  shows "\<exists>s'. store (Some h) s (key d) d = Some (Inr h, s') \<and> denotes s' (M(key d \<mapsto> d)) \<and> item s' h = d"
proof -
  have inv: "inv s" using assms(1) by (simp add: denotes_def)
  have n: "\<forall>h' \<in> handles s. key (item s h') \<noteq> key d" using assms(1,2) unfolding denotes_def by (metis not_None_eq)
  obtain s' where s': "store (Some h) s (key d) d = Some (Inr h, s')" "inv s'" "handles s' = insert h (handles s)"
    "item s' h = d" "\<forall>h' \<in> handles s. item s' h' = item s h'"
    using store_new [OF inv assms(3) n] by blast
  have "denotes s' (M(key d \<mapsto> d))"
    using s' n assms(1) unfolding denotes_def by (auto split: if_splits)
  then show ?thesis using s' by blast
qed

lemma store_denotes_twice: "denotes s M \<Longrightarrow> M k \<noteq> None \<Longrightarrow> store a s k d = Some (Inl FI_EALREADY, s)"
  unfolding denotes_def using store_twice by (metis not_None_eq)

lemma discard_denotes:
  assumes "denotes s M" and "M k = Some d"
  shows "\<exists>h s'. lookup s k = Some (Some h) \<and> discard s h = Some s' \<and> denotes s' (M(k := None))"
proof -
  have inv: "inv s" using assms(1) by (simp add: denotes_def)
  obtain h where h: "h \<in> handles s" "item s h = d" "key d = k" using assms unfolding denotes_def by blast
  obtain s' where s': "discard s h = Some s'" "inv s'" "handles s' = handles s - {h}" "\<forall>h' \<in> handles s'. item s' h' = item s h'"
    using discard_one [OF inv h(1)] by blast
  have "(M(k := None)) k' = Some d' \<longleftrightarrow> (\<exists>h' \<in> handles s'. item s' h' = d' \<and> key d' = k')" for k' d'
  proof
    assume a: "(M(k := None)) k' = Some d'"
    then have "k' \<noteq> k" "M k' = Some d'" by (auto split: if_splits)
    then obtain h' where "h' \<in> handles s" "item s h' = d'" "key d' = k'" using assms(1) unfolding denotes_def by blast
    then show "\<exists>h' \<in> handles s'. item s' h' = d' \<and> key d' = k'" using s' h \<open>k' \<noteq> k\<close> by auto
  next
    assume "\<exists>h' \<in> handles s'. item s' h' = d' \<and> key d' = k'"
    then obtain h' where h': "h' \<in> handles s" "h' \<noteq> h" "item s h' = d'" "key d' = k'" using s' by auto
    then have "k' \<noteq> k" using unique [OF inv h'(1) h(1)] h by auto
    moreover have "M k' = Some d'" using assms(1) h' unfolding denotes_def by blast
    ultimately show "(M(k := None)) k' = Some d'" by simp
  qed
  then have "denotes s' (M(k := None))" using s'(2) unfolding denotes_def by blast
  then show ?thesis using lookup_found [OF inv h(1)] h s'(1) by auto
qed

end

subsection \<open>Linearly ordered keys\<close>

text \<open>A comparison that orders the keys makes the red-black map such a map: its nodes are the handles.\<close>

definition fresh_node :: "'d ofi_rbmap \<Rightarrow> nat \<Rightarrow> bool" where
  "fresh_node m node \<longleftrightarrow> node \<noteq> 0 \<and> node \<notin> rb_live m"

locale ordered_compare =
  fixes compare :: "'k::linorder \<Rightarrow> 'd \<Rightarrow> int" and key :: "'d \<Rightarrow> 'k"
  assumes compare_less: "compare k d < 0 \<longleftrightarrow> k < key d"
    and compare_equal: "compare k d = 0 \<longleftrightarrow> k = key d"
begin

definition keys_of :: "'d ofi_rbmap \<Rightarrow> nat list \<Rightarrow> 'k list" where
  "keys_of m xs = map (\<lambda>x. key (rb_data m x)) xs"

definition ord_inv :: "'d ofi_rbmap \<Rightarrow> bool" where
  "ord_inv m \<longleftrightarrow> (\<exists>t. rbmap_inv m t \<and> sorted_wrt (<) (keys_of m (inorder t)))"

lemma compare_greater: "compare k d > 0 \<longleftrightarrow> k > key d"
  using compare_less [of k d] compare_equal [of k d] by (cases "compare k d" "0 :: int" rule: linorder_cases) auto

lemma sorted_descending: "sorted_wrt (<) (keys_of m xs) \<Longrightarrow> descending compare k (map (rb_data m) xs)"
  unfolding descending_def keys_of_def sorted_wrt_map
proof (erule sorted_wrt_mono_rel [rotated])
  fix x y assume "key (rb_data m x) < key (rb_data m y)"
  then show "sgn (compare k (rb_data m y)) \<le> sgn (compare k (rb_data m x))"
    using compare_less [of k "rb_data m x"] compare_less [of k "rb_data m y"] compare_greater [of k "rb_data m x"]
    by (fastforce simp: sgn_if)
qed

lemma keys_distinct:
  assumes "sorted_wrt (<) (keys_of m xs)" "x \<in> set xs" "y \<in> set xs" "key (rb_data m x) = key (rb_data m y)"
  shows "x = y"
proof -
  have "distinct (keys_of m xs)" using assms(1) strict_sorted_iff by blast
  then show ?thesis using assms(2-4) unfolding keys_of_def by (auto simp: distinct_map inj_on_def)
qed

lemma find_ok:
  assumes "rbmap_inv m t" and "sorted_wrt (<) (keys_of m (inorder t))"
  shows "\<exists>r. ofi_rbmap_find compare m k = Some r \<and>
    (case r of Some y \<Rightarrow> y \<in> set (inorder t) \<and> key (rb_data m y) = k | None \<Rightarrow> \<forall>y \<in> set (inorder t). key (rb_data m y) \<noteq> k)"
proof -
  have r: "rep m None t" "rb_root m = rid t" using assms by (auto simp: rbmap_inv_def focus_def)
  obtain q where q: "search_loop compare m k (rid t) = Some q"
    "case q of Some y \<Rightarrow> y \<in> set (inorder t) \<and> compare k (rb_data m y) = 0
     | None \<Rightarrow> descending compare k (map (rb_data m) (inorder t)) \<longrightarrow> (\<forall>y \<in> set (inorder t). compare k (rb_data m y) \<noteq> 0)"
    using search_loop_ok [OF r(1), of compare k] by (elim exE conjE) (rule that)
  then show ?thesis using r(2) sorted_descending [OF assms(2), of k] compare_equal
    by (cases q) (auto simp: ofi_rbmap_find_def)
qed

lemma insert_new:
  assumes inv: "ord_inv m" and f: "fresh_node m node" and new: "\<forall>y \<in> rb_live m. key (rb_data m y) \<noteq> key d"
  shows "\<exists>m'. ofi_rbmap_insert compare (Some node) m (key d) d = Some (Inr node, m') \<and> ord_inv m' \<and>
    rb_live m' = insert node (rb_live m) \<and> rb_data m' node = d \<and> (\<forall>y \<in> rb_live m. rb_data m' y = rb_data m y)"
proof -
  obtain t where t: "rbmap_inv m t" "sorted_wrt (<) (keys_of m (inorder t))" using inv by (auto simp: ord_inv_def)
  have live: "rb_live m = set (inorder t)" using t(1) by (simp add: rbmap_inv_def)
  have n: "node \<noteq> 0" "node \<notin> rb_live m" using f by (simp_all add: fresh_node_def)
  have ne: "\<not> (\<exists>y \<in> set (inorder t). compare (key d) (rb_data m y) = 0)" using new live compare_equal by auto
  obtain m' t' xs ys where m': "ofi_rbmap_insert compare (Some node) m (key d) d = Some (Inr node, m')" "rbmap_inv m' t'"
    "inorder t = xs @ ys" "inorder t' = xs @ node # ys" "rb_data m' = (rb_data m)(node := d)"
    "(\<forall>x \<in> set xs. compare (key d) (rb_data m x) > 0) \<and> (\<forall>y \<in> set ys. compare (key d) (rb_data m y) < 0)"
    using rbmap_insert_ok [OF t(1) n, of compare "key d" d] ne sorted_descending [OF t(2), of "key d"] by blast
  have e: "keys_of m' xs = keys_of m xs" "keys_of m' ys = keys_of m ys"
    using n(2) live m'(3,5) by (auto simp: keys_of_def)
  have "sorted_wrt (<) (keys_of m' (inorder t'))"
  proof -
    have "sorted_wrt (<) (keys_of m xs @ key d # keys_of m ys)"
      using t(2) m'(3,6) compare_less compare_greater by (auto simp: keys_of_def sorted_wrt_append)
    moreover have "keys_of m' (inorder t') = keys_of m xs @ key d # keys_of m ys"
      using e m'(4,5) by (simp add: keys_of_def)
    ultimately show ?thesis by simp
  qed
  moreover have "rb_live m' = insert node (rb_live m)" using m'(2,3,4) live by (simp add: rbmap_inv_def)
  ultimately show ?thesis using m'(1,2,5) n(2) by (auto simp: ord_inv_def)
qed

lemma insert_present:
  assumes inv: "ord_inv m" and y: "y \<in> rb_live m"
  shows "ofi_rbmap_insert compare malloc m (key (rb_data m y)) d = Some (Inl FI_EALREADY, m)"
proof -
  obtain t where t: "rbmap_inv m t" "sorted_wrt (<) (keys_of m (inorder t))" using inv by (auto simp: ord_inv_def)
  have "y \<in> set (inorder t)" using t(1) y by (simp add: rbmap_inv_def)
  moreover have "compare (key (rb_data m y)) (rb_data m y) = 0" by (simp add: compare_equal)
  ultimately show ?thesis
    using insert_walk_root [OF t(1), of compare "key (rb_data m y)"] sorted_descending [OF t(2)]
    by (auto simp: ofi_rbmap_insert_def)
qed

lemma insert_missing_no_memory:
  assumes inv: "ord_inv m" and new: "\<forall>y \<in> rb_live m. key (rb_data m y) \<noteq> k"
  shows "ofi_rbmap_insert compare None m k d = Some (Inl FI_ENOMEM, m)"
proof -
  obtain t where t: "rbmap_inv m t" using inv by (auto simp: ord_inv_def)
  then have "\<forall>y \<in> set (inorder t). compare k (rb_data m y) \<noteq> 0" using new compare_equal by (auto simp: rbmap_inv_def)
  then show ?thesis using insert_walk_root [OF t, of compare k] by (auto simp: ofi_rbmap_insert_def)
qed

lemma delete_one:
  assumes inv: "ord_inv m" and x: "x \<in> rb_live m"
  shows "\<exists>m'. ofi_rbmap_delete m x = Some m' \<and> ord_inv m' \<and> rb_live m' = rb_live m - {x} \<and>
    (\<forall>y \<in> rb_live m'. rb_data m' y = rb_data m y)"
proof -
  obtain t where t: "rbmap_inv m t" "sorted_wrt (<) (keys_of m (inorder t))" using inv by (auto simp: ord_inv_def)
  have live: "rb_live m = set (inorder t)" and d: "distinct (inorder t)" using t(1) by (simp_all add: rbmap_inv_def focus_def)
  obtain m' t' where m': "ofi_rbmap_delete m x = Some m'" "rbmap_inv m' t'" "inorder t' = remove1 x (inorder t)"
    "\<forall>z. z \<noteq> x \<longrightarrow> rb_data m' z = rb_data m z"
    using rbmap_delete_ok [OF t(1)] x live by blast
  have l': "rb_live m' = rb_live m - {x}" using m'(2,3) live d by (simp add: rbmap_inv_def set_remove1_eq)
  have "keys_of m' (inorder t') = keys_of m (remove1 x (inorder t))"
    using m'(3,4) d by (auto simp: keys_of_def distinct_remove1 dest: in_set_remove1 [THEN iffD1, rotated])
  moreover have "sorted_wrt (<) (keys_of m (remove1 x (inorder t)))"
    using t(2) d unfolding keys_of_def sorted_wrt_map distinct_remove1_removeAll [OF d] removeAll_filter_not_eq
    by (simp add: sorted_wrt_filter)
  ultimately have "ord_inv m'" using m'(2) by (auto simp: ord_inv_def)
  then show ?thesis using m'(1,4) l' by auto
qed

end

sublocale ordered_compare \<subseteq> rbm: keyed_map ord_inv rb_live rb_data key fresh_node "ofi_rbmap_find compare"
    "ofi_rbmap_insert compare" ofi_rbmap_delete
proof
  fix s :: "'d ofi_rbmap" and h h' k d a
  assume inv: "ord_inv s"
  then obtain t where t: "rbmap_inv s t" "sorted_wrt (<) (keys_of s (inorder t))" by (auto simp: ord_inv_def)
  have live: "rb_live s = set (inorder t)" using t(1) by (simp add: rbmap_inv_def)
  show un: "h = h'" if "h \<in> rb_live s" "h' \<in> rb_live s" "key (rb_data s h) = key (rb_data s h')"
    using keys_distinct [OF t(2)] that live by blast
  show "ofi_rbmap_find compare s (key (rb_data s h)) = Some (Some h)" if "h \<in> rb_live s"
    using find_ok [OF t, of "key (rb_data s h)"] keys_distinct [OF t(2)] that live by (auto split: option.splits)
  show "ofi_rbmap_find compare s k = Some None" if "\<forall>h \<in> rb_live s. key (rb_data s h) \<noteq> k"
    using find_ok [OF t, of k] that live by (auto split: option.splits)
  show "h \<notin> rb_live s" if "fresh_node s h" using that by (simp add: fresh_node_def)
qed (auto intro: insert_new insert_present insert_missing_no_memory delete_one)

section \<open>Properties\<close>

text \<open>C3. In every state of a map that is reached from its creation by insertions and deletions, whatever the
  comparison, the pointers form a red-black tree of exactly the allocated nodes, and its height is
  logarithmic in their number.\<close>

theorem rbmap_stays_balanced:
  assumes "rb_reachable compare m"
  shows "\<exists>t. focus m t [] \<and> rb_ok t \<and> rb_live m = set (inorder t) \<and> distinct (inorder t) \<and>
    2 ^ ((height t + 1) div 2) \<le> card (rb_live m) + 1"
proof -
  obtain t where t: "rbmap_inv m t" using rb_reachable_inv [OF assms] by blast
  then have d: "distinct (inorder t)" and f: "focus m t []" "rb_ok t" "rb_live m = set (inorder t)"
    by (simp_all add: rbmap_inv_def focus_def)
  have "height t \<le> 2 * bh t" using f(2) height_bh [of t] by (simp add: rb_ok_def)
  then have "(height t + 1) div 2 \<le> bh t" by linarith
  then have "(2 :: nat) ^ ((height t + 1) div 2) \<le> 2 ^ bh t" by simp
  also have "\<dots> \<le> length (inorder t) + 1" using bh_size [of t] f(2) by (simp add: rb_ok_def)
  finally show ?thesis using f d distinct_card [OF d] by auto
qed

definition ex_compare :: "nat \<Rightarrow> nat \<Rightarrow> int" where
  "ex_compare k d = int k - int d"

lemma ex_reachable: "\<exists>m. rb_reachable ex_compare m \<and> rb_live m = {1}"
proof -
  obtain m0 where m0: "ofi_rbmap_create (0 :: nat) True = Some m0" by (simp add: ofi_rbmap_create_def)
  have 0: "rb_reachable ex_compare m0" "rbmap_inv m0 Lf" using rb_reachable.created [OF m0] rbmap_create_inv [OF m0] .
  have n: "(1 :: nat) \<noteq> 0" "1 \<notin> rb_live m0" using 0(2) by (simp_all add: rbmap_inv_def)
  obtain m1 t1 where 1: "ofi_rbmap_insert ex_compare (Some 1) m0 5 5 = Some (Inr 1, m1)" "rbmap_inv m1 t1" "inorder t1 = [1]"
    using rbmap_insert_ok [OF 0(2) n, of ex_compare 5 5] by auto
  have "rb_reachable ex_compare m1" using rb_reachable.inserted [OF 0(1) _ 1(1)] n by auto
  then show ?thesis using 1(2,3) by (auto simp: rbmap_inv_def)
qed

theorem rbmap_stays_balanced_witness:
  "\<exists>m t. rb_reachable ex_compare m \<and> rb_live m = {1} \<and> focus m t [] \<and> rb_ok t"
  using ex_reachable rbmap_stays_balanced [of ex_compare] by metis

text \<open>C9. Deleting a node of a reachable map returns, frees exactly that node and leaves every other node with
  its data in its place in the order, although the code moves data between nodes: pointers to the
  other nodes stay valid.\<close>

theorem rbmap_delete_keeps_handles:
  assumes "rb_reachable compare m" and "node \<in> rb_live m"
  shows "\<exists>m' t t'. ofi_rbmap_delete m node = Some m' \<and> rb_reachable compare m' \<and> rb_live m' = rb_live m - {node} \<and>
    focus m t [] \<and> focus m' t' [] \<and> inorder t' = remove1 node (inorder t) \<and>
    (\<forall>x. x \<noteq> node \<longrightarrow> rb_data m' x = rb_data m x)"
proof -
  obtain t where t: "rbmap_inv m t" using rb_reachable_inv [OF assms(1)] by blast
  have d: "distinct (inorder t)" and live: "rb_live m = set (inorder t)" using t by (simp_all add: rbmap_inv_def focus_def)
  obtain m' t' where m': "ofi_rbmap_delete m node = Some m'" "rbmap_inv m' t'" "inorder t' = remove1 node (inorder t)"
    "\<forall>z. z \<noteq> node \<longrightarrow> rb_data m' z = rb_data m z"
    using rbmap_delete_ok [OF t] assms(2) live by blast
  moreover have "rb_live m' = rb_live m - {node}" using m'(2,3) live d by (simp add: rbmap_inv_def set_remove1_eq)
  moreover have "rb_reachable compare m'" using rb_reachable.deleted [OF assms m'(1)] .
  ultimately show ?thesis using t by (auto simp: rbmap_inv_def)
qed

theorem rbmap_delete_keeps_handles_witness:
  "\<exists>m m'. rb_reachable ex_compare m \<and> rb_live m = {1} \<and> ofi_rbmap_delete m 1 = Some m' \<and> rb_live m' = {}"
proof -
  obtain m where m: "rb_reachable ex_compare m" "rb_live m = {1}" using ex_reachable by blast
  then have "1 \<in> rb_live m" by simp
  from rbmap_delete_keeps_handles [OF m(1) this] m show ?thesis by auto
qed

text \<open>C36. Destroying a reachable map frees every allocated node exactly once and no other.\<close>

theorem rbmap_destroy_frees_once:
  assumes "rb_reachable compare m"
  shows "\<exists>freed. ofi_rbmap_destroy m = Some freed \<and> distinct freed \<and> set freed = rb_live m"
proof -
  obtain t where t: "rbmap_inv m t" using rb_reachable_inv [OF assms] by blast
  then have r: "rep m None t" "rb_root m = rid t" "distinct (inorder t)" "rb_live m = set (inorder t)"
    by (auto simp: rbmap_inv_def focus_def)
  obtain fs where fs: "ofi_delete_tree m (rid t) = Some fs" "mset fs = mset (inorder t)" using delete_tree_ok [OF r(1)] by blast
  have "set fs = set (inorder t)" "distinct fs"
    using mset_eq_setD [OF fs(2)] mset_eq_imp_distinct_iff [OF fs(2)] r(3) by simp_all
  then show ?thesis using fs(1) r by (simp add: ofi_rbmap_destroy_def ofi_rbmap_cleanup_def)
qed

theorem rbmap_destroy_frees_once_witness:
  "\<exists>m freed. rb_reachable ex_compare m \<and> ofi_rbmap_destroy m = Some freed \<and> set freed = {1}"
proof -
  obtain m where m: "rb_reachable ex_compare m" "rb_live m = {1}" using ex_reachable by blast
  from rbmap_destroy_frees_once [OF m(1)] m show ?thesis by auto
qed

end
