(* ===== verification/Ofi_Mr.thy ===== *)
theory Ofi_Mr
  imports Ofi_Iov Ofi_Tree_Laws
begin

unbundle bit_operations_syntax

section \<open>Software memory registration\<close>

text \<open>
  \<^verbatim>\<open>prov/util/src/util_mr_map.c\<close>: the map from keys to registered regions, and the registration calls of
  a domain that use it.  The map is the red-black map of \<^verbatim>\<open>src/tree.c\<close>, whose nodes hold the attributes
  themselves.  \<open>None\<close> is undefined behaviour.  Pointers (\<open>context\<close>) are addresses.
\<close>

record fi_mr_attr =
  mr_iov :: "iovec list"
  mr_access :: u64
  mr_offset :: u64
  requested_key :: u64
  mr_context :: u64
  auth_key_size :: size_t
  auth_key :: u64
  hmem_iface :: int
  hmem_device :: u64

record ofi_mr_map =
  mm_rbtree :: "fi_mr_attr ofi_rbmap"
  mm_key :: u64
  mm_mode :: u32

definition OFI_MR_BASIC_MAP :: u32 where
  "OFI_MR_BASIC_MAP = FI_MR_ALLOCATED OR FI_MR_PROV_KEY OR FI_MR_VIRT_ADDR"

definition compare_mr_keys :: "u64 \<Rightarrow> fi_mr_attr \<Rightarrow> int" where
  "compare_mr_keys mrkey attr =
    (if mrkey < requested_key attr then -1 else if mrkey > requested_key attr then 1 else 0)"

text \<open>The copy of the attributes; \<open>calloc\<close> may fail.\<close>

definition dup_mr_attr :: "bool \<Rightarrow> fi_mr_attr \<Rightarrow> fi_mr_attr option" where
  "dup_mr_attr calloc attr = (if calloc then Some attr else None)"

text \<open>The attributes as they are put into the map; without \<open>FI_MR_VIRT_ADDR\<close> the first entry of the vector
  is read, which an empty one does not have.\<close>

definition prepare_item :: "ofi_mr_map \<Rightarrow> fi_mr_attr \<Rightarrow> (fi_mr_attr \<times> ofi_mr_map) option" where
  "prepare_item mm attr =
    Option.bind (if mm_mode mm AND FI_MR_VIRT_ADDR = 0
                 then (case mr_iov attr of [] \<Rightarrow> None | v # _ \<Rightarrow> Some (attr\<lparr>mr_offset := iov_base v\<rparr>))
                 else Some attr)
      (\<lambda>item. Some (if mm_mode mm AND FI_MR_PROV_KEY \<noteq> 0
                    then (item\<lparr>requested_key := mm_key mm\<rparr>, mm\<lparr>mm_key := mm_key mm + 1\<rparr>)
                    else (item, mm)))"

text \<open>\<open>malloc\<close> is the address of the new tree node.  The result is the key.\<close>

definition ofi_mr_map_insert ::
    "bool \<Rightarrow> nat option \<Rightarrow> ofi_mr_map \<Rightarrow> fi_mr_attr \<Rightarrow> u64 \<Rightarrow> (u64 fi_result \<times> ofi_mr_map) option" where
  "ofi_mr_map_insert calloc malloc mm attr context =
    (case dup_mr_attr calloc attr of
       None \<Rightarrow> Some (Inl FI_ENOMEM, mm)
     | Some item0 \<Rightarrow>
         Option.bind (prepare_item mm item0) (\<lambda>(item, map1).
           Option.bind (ofi_rbmap_insert compare_mr_keys malloc (mm_rbtree map1) (requested_key item) item) (\<lambda>(ret, tree).
             case ret of
               Inl e \<Rightarrow> Some (Inl (if e = FI_EALREADY then FI_ENOKEY else e), map1\<lparr>mm_rbtree := tree\<rparr>)
             | Inr node \<Rightarrow>
                 Some (Inr (requested_key item),
                   map1\<lparr>mm_rbtree := set_data node ((rb_data tree node)\<lparr>mr_context := context\<rparr>) tree\<rparr>))))"

text \<open>The context of a key, \<open>NULL\<close> (\<open>None\<close>) when there is none.\<close>

definition ofi_mr_map_get :: "ofi_mr_map \<Rightarrow> u64 \<Rightarrow> u64 option option" where
  "ofi_mr_map_get mm key =
    map_option (map_option (\<lambda>node. mr_context (rb_data (mm_rbtree mm) node)))
      (ofi_rbmap_find compare_mr_keys (mm_rbtree mm) key)"

text \<open>The check of an access against the attributes that were found: the address and the context.\<close>

definition verify_attr :: "fi_mr_attr \<Rightarrow> u64 \<Rightarrow> size_t \<Rightarrow> u64 \<Rightarrow> (u64 \<times> u64) fi_result option" where
  "verify_attr attr io_addr len access =
    (if access AND mr_access attr \<noteq> access then Some (Inl FI_EACCES)
     else case mr_iov attr of
            [] \<Rightarrow> None
          | v # _ \<Rightarrow>
              let addr = io_addr + mr_offset attr
              in if addr < iov_base v \<or> addr + len > iov_base v + iov_len v then Some (Inl FI_EACCES)
                 else Some (Inr (addr, mr_context attr)))"

definition ofi_mr_map_verify :: "ofi_mr_map \<Rightarrow> u64 \<Rightarrow> size_t \<Rightarrow> u64 \<Rightarrow> u64 \<Rightarrow> (u64 \<times> u64) fi_result option" where
  "ofi_mr_map_verify mm io_addr len key access =
    Option.bind (ofi_rbmap_find compare_mr_keys (mm_rbtree mm) key) (\<lambda>r.
      case r of
        None \<Rightarrow> Some (Inl FI_EINVAL)
      | Some node \<Rightarrow> verify_attr (rb_data (mm_rbtree mm) node) io_addr len access)"

definition ofi_mr_map_remove :: "ofi_mr_map \<Rightarrow> u64 \<Rightarrow> (unit fi_result \<times> ofi_mr_map) option" where
  "ofi_mr_map_remove mm key =
    Option.bind (ofi_rbmap_find compare_mr_keys (mm_rbtree mm) key) (\<lambda>r.
      case r of
        None \<Rightarrow> Some (Inl FI_ENOKEY, mm)
      | Some node \<Rightarrow> map_option (\<lambda>tree. (Inr (), mm\<lparr>mm_rbtree := tree\<rparr>)) (ofi_rbmap_delete (mm_rbtree mm) node))"

definition ofi_mr_map_init :: "fi_mr_attr \<Rightarrow> bool \<Rightarrow> u32 \<Rightarrow> ofi_mr_map fi_result" where
  "ofi_mr_map_init null calloc mode =
    (case ofi_rbmap_create null calloc of
       None \<Rightarrow> Inl FI_ENOMEM
     | Some tree \<Rightarrow>
         Inr \<lparr>mm_rbtree = tree, mm_key = 1,
              mm_mode = (if mode = FI_MR_BASIC then OFI_MR_BASIC_MAP else if mode = FI_MR_SCALABLE then 0 else mode)\<rparr>)"

text \<open>The tree nodes freed; the attributes they hold are not.\<close>

definition ofi_mr_map_close :: "ofi_mr_map \<Rightarrow> nat list option" where
  "ofi_mr_map_close mm = ofi_rbmap_destroy (mm_rbtree mm)"

subsection \<open>Registration with a domain\<close>

record mr_domain =
  dom_mr_map :: ofi_mr_map
  dom_ref :: u32

record ofi_mr =
  mr_fclass :: fi_class
  mr_fid_context :: u64
  mr_fid_key :: u64
  mr_mem_desc :: u64
  mr_key :: u64
  mr_flags :: u64

text \<open>The address of the new \<open>ofi_mr\<close>, or \<open>None\<close> when its allocation fails, and the object there.\<close>

definition ofi_mr_regattr ::
    "u64 option \<Rightarrow> bool \<Rightarrow> nat option \<Rightarrow> fi_class \<Rightarrow> mr_domain \<Rightarrow> fi_mr_attr option \<Rightarrow> u64 \<Rightarrow>
      (ofi_mr fi_result \<times> mr_domain) option" where
  "ofi_mr_regattr mr_calloc calloc malloc fclass domain attr flags =
    (case attr of
       None \<Rightarrow> Some (Inl FI_EINVAL, domain)
     | Some a \<Rightarrow>
         if fclass \<noteq> FI_CLASS_DOMAIN \<or> length (mr_iov a) = 0 then Some (Inl FI_EINVAL, domain)
         else case mr_calloc of
                None \<Rightarrow> Some (Inl FI_ENOMEM, domain)
              | Some mr \<Rightarrow>
                  map_option (\<lambda>(ret, mm).
                    case ret of
                      Inl e \<Rightarrow> (Inl e, domain\<lparr>dom_mr_map := mm\<rparr>)
                    | Inr key \<Rightarrow>
                        (Inr \<lparr>mr_fclass = FI_CLASS_MR, mr_fid_context = mr_context a, mr_fid_key = key, mr_mem_desc = key,
                              mr_key = key, mr_flags = flags\<rparr>,
                         domain\<lparr>dom_mr_map := mm, dom_ref := dom_ref domain + 1\<rparr>))
                    (ofi_mr_map_insert calloc malloc (dom_mr_map domain) a mr))"

text \<open>The fields that are not set have the contents \<open>junk\<close> of the stack.\<close>

definition ofi_mr_regv ::
    "fi_mr_attr \<Rightarrow> u64 option \<Rightarrow> bool \<Rightarrow> nat option \<Rightarrow> fi_class \<Rightarrow> mr_domain \<Rightarrow> iovec list \<Rightarrow> u64 \<Rightarrow> u64 \<Rightarrow> u64 \<Rightarrow> u64 \<Rightarrow> u64 \<Rightarrow>
      (ofi_mr fi_result \<times> mr_domain) option" where
  "ofi_mr_regv junk mr_calloc calloc malloc fclass domain iov access offset key flags context =
    ofi_mr_regattr mr_calloc calloc malloc fclass domain
      (Some (junk\<lparr>mr_iov := iov, mr_access := access, mr_offset := offset, requested_key := key, mr_context := context\<rparr>)) flags"

definition ofi_mr_reg ::
    "fi_mr_attr \<Rightarrow> u64 option \<Rightarrow> bool \<Rightarrow> nat option \<Rightarrow> fi_class \<Rightarrow> mr_domain \<Rightarrow> u64 \<Rightarrow> size_t \<Rightarrow> u64 \<Rightarrow> u64 \<Rightarrow> u64 \<Rightarrow> u64 \<Rightarrow> u64 \<Rightarrow>
      (ofi_mr fi_result \<times> mr_domain) option" where
  "ofi_mr_reg junk mr_calloc calloc malloc fclass domain buf len access offset key flags context =
    ofi_mr_regv junk mr_calloc calloc malloc fclass domain [\<lparr>iov_base = buf, iov_len = len\<rparr>] access offset key flags context"

definition ofi_mr_close :: "mr_domain \<Rightarrow> ofi_mr \<Rightarrow> (unit fi_result \<times> mr_domain) option" where
  "ofi_mr_close domain mr =
    map_option (\<lambda>(ret, mm).
      case ret of
        Inl e \<Rightarrow> (Inl e, domain\<lparr>dom_mr_map := mm\<rparr>)
      | Inr _ \<Rightarrow> (Inr (), domain\<lparr>dom_mr_map := mm, dom_ref := dom_ref domain - 1\<rparr>))
      (ofi_mr_map_remove (dom_mr_map domain) (mr_key mr))"

text \<open>The signed length is converted to \<open>size_t\<close>; the address is updated on success.\<close>

definition ofi_mr_verify :: "mr_domain \<Rightarrow> 64 word \<Rightarrow> u64 \<Rightarrow> u64 \<Rightarrow> u64 \<Rightarrow> u64 fi_result option" where
  "ofi_mr_verify domain len addr key access =
    map_option (map_sum id fst) (ofi_mr_map_verify (dom_mr_map domain) addr len key access)"

section \<open>The map of regions\<close>

text \<open>The comparison orders the keys, so the red-black map is a map from keys to attributes.\<close>

interpretation mrk: ordered_compare compare_mr_keys requested_key
  by unfold_locales (auto simp: compare_mr_keys_def)

definition regions :: "ofi_mr_map \<Rightarrow> (u64 \<rightharpoonup> fi_mr_attr) \<Rightarrow> bool" where
  "regions mm M \<longleftrightarrow> mrk.rbm.denotes (mm_rbtree mm) M"

lemma set_data_inv: "rbmap_inv (set_data p d m) t = rbmap_inv m t"
  by (simp add: rbmap_inv_def) (simp add: set_data_def)

lemma set_data_denotes:
  assumes M: "mrk.rbm.denotes m M" and n: "node \<in> rb_live m" and k: "requested_key d = requested_key (rb_data m node)"
  shows "mrk.rbm.denotes (set_data node d m) (M(requested_key d \<mapsto> d))"
proof -
  have inv: "mrk.ord_inv m" using M by (simp add: mrk.rbm.denotes_def)
  have keys: "requested_key (rb_data (set_data node d m) x) = requested_key (rb_data m x)" for x
    using k by (simp add: set_data_def)
  have "mrk.keys_of (set_data node d m) xs = mrk.keys_of m xs" for xs
    by (simp add: mrk.keys_of_def keys)
  then have "mrk.ord_inv (set_data node d m)" using inv by (simp add: mrk.ord_inv_def set_data_inv)
  moreover have "rb_live (set_data node d m) = rb_live m" "rb_data (set_data node d m) = (rb_data m)(node := d)"
    by (simp_all add: set_data_def)
  moreover have "(M(requested_key d \<mapsto> d)) key = Some d' \<longleftrightarrow>
      (\<exists>h \<in> rb_live m. ((rb_data m)(node := d)) h = d' \<and> requested_key d' = key)" for key d'
  proof (cases "key = requested_key d")
    case True
    have un: "h = node" if "h \<in> rb_live m" "requested_key (rb_data m h) = requested_key d" for h
      using mrk.rbm.unique [OF inv that(1) n] that(2) k by simp
    have "(\<exists>h \<in> rb_live m. ((rb_data m)(node := d)) h = d' \<and> requested_key d' = key) \<longleftrightarrow> d' = d"
    proof
      assume "\<exists>h \<in> rb_live m. ((rb_data m)(node := d)) h = d' \<and> requested_key d' = key"
      then obtain h where h: "h \<in> rb_live m" "((rb_data m)(node := d)) h = d'" "requested_key d' = key" by blast
      have "h = node"
      proof (rule ccontr)
        assume "h \<noteq> node"
        then have "requested_key (rb_data m h) = requested_key d" using h(2,3) True by simp
        from un [OF h(1) this] show False using \<open>h \<noteq> node\<close> by contradiction
      qed
      then show "d' = d" using h(2) by simp
    next
      assume "d' = d"
      then show "\<exists>h \<in> rb_live m. ((rb_data m)(node := d)) h = d' \<and> requested_key d' = key"
        using n True by (intro bexI [of _ node]) simp_all
    qed
    then show ?thesis using True by auto
  next
    case False
    have "M key = Some d' \<longleftrightarrow> (\<exists>h \<in> rb_live m. rb_data m h = d' \<and> requested_key d' = key)"
      using M unfolding mrk.rbm.denotes_def by blast
    moreover have "((rb_data m)(node := d)) h = d' \<and> requested_key d' = key \<longleftrightarrow> rb_data m h = d' \<and> requested_key d' = key" for h
      using False k by (cases "h = node") auto
    ultimately show ?thesis using False by simp
  qed
  ultimately show ?thesis unfolding mrk.rbm.denotes_def by simp
qed

text \<open>The attributes a registration stores under its key.\<close>

definition stored :: "ofi_mr_map \<Rightarrow> fi_mr_attr \<Rightarrow> fi_mr_attr" where
  "stored mm attr =
    (let a = (if mm_mode mm AND FI_MR_VIRT_ADDR = 0 then attr\<lparr>mr_offset := iov_base (hd (mr_iov attr))\<rparr> else attr)
     in if mm_mode mm AND FI_MR_PROV_KEY \<noteq> 0 then a\<lparr>requested_key := mm_key mm\<rparr> else a)"

lemma prepare_stored:
  assumes "mr_iov attr \<noteq> []"
  shows "prepare_item mm attr =
    Some (stored mm attr, mm\<lparr>mm_key := if mm_mode mm AND FI_MR_PROV_KEY \<noteq> 0 then mm_key mm + 1 else mm_key mm\<rparr>)"
  using assms by (cases "mr_iov attr") (simp_all add: prepare_item_def stored_def Let_def)

lemma map_insert_new:
  assumes M: "regions mm M" and f: "fresh_node (mm_rbtree mm) node" and v: "mr_iov attr \<noteq> []"
    and n: "M (requested_key (stored mm attr)) = None"
  shows "\<exists>mm'. ofi_mr_map_insert True (Some node) mm attr context = Some (Inr (requested_key (stored mm attr)), mm') \<and>
    regions mm' (M(requested_key (stored mm attr) \<mapsto> (stored mm attr)\<lparr>mr_context := context\<rparr>)) \<and>
    mm_mode mm' = mm_mode mm \<and> mm_key mm' = (if mm_mode mm AND FI_MR_PROV_KEY \<noteq> 0 then mm_key mm + 1 else mm_key mm)"
proof -
  let ?item = "stored mm attr"
  obtain tree where t: "ofi_rbmap_insert compare_mr_keys (Some node) (mm_rbtree mm) (requested_key ?item) ?item = Some (Inr node, tree)"
    "mrk.rbm.denotes tree (M(requested_key ?item \<mapsto> ?item))" "rb_data tree node = ?item"
    using mrk.rbm.store_denotes [OF M [unfolded regions_def] n f] by blast
  have live: "node \<in> rb_live tree"
  proof -
    have "\<forall>h' \<in> rb_live (mm_rbtree mm). requested_key (rb_data (mm_rbtree mm) h') \<noteq> requested_key ?item"
      using M n unfolding regions_def mrk.rbm.denotes_def by (metis not_None_eq)
    then show ?thesis using mrk.rbm.store_new [OF _ f, of ?item] M t(1) by (auto simp: regions_def mrk.rbm.denotes_def)
  qed
  have "mrk.rbm.denotes (set_data node (?item\<lparr>mr_context := context\<rparr>) tree)
      (M(requested_key ?item \<mapsto> ?item\<lparr>mr_context := context\<rparr>))"
    using set_data_denotes [OF t(2) live, of "?item\<lparr>mr_context := context\<rparr>"] t(3) by simp
  then show ?thesis using t v by (simp add: ofi_mr_map_insert_def dup_mr_attr_def prepare_stored regions_def)
qed

lemma map_insert_twice:
  assumes M: "regions mm M" and v: "mr_iov attr \<noteq> []" and n: "M (requested_key (stored mm attr)) \<noteq> None"
  shows "\<exists>mm'. ofi_mr_map_insert True malloc mm attr context = Some (Inl FI_ENOKEY, mm') \<and> regions mm' M"
  using mrk.rbm.store_denotes_twice [OF M [unfolded regions_def] n, of malloc "stored mm attr"] M v
  by (simp add: ofi_mr_map_insert_def dup_mr_attr_def prepare_stored regions_def)

lemma map_find:
  assumes "regions mm M"
  shows "case M key of None \<Rightarrow> ofi_rbmap_find compare_mr_keys (mm_rbtree mm) key = Some None
    | Some a \<Rightarrow> \<exists>node. ofi_rbmap_find compare_mr_keys (mm_rbtree mm) key = Some (Some node) \<and> rb_data (mm_rbtree mm) node = a"
  using mrk.rbm.lookup_denotes [OF assms [unfolded regions_def], of key] by (auto split: option.splits)

lemma map_get: "regions mm M \<Longrightarrow> ofi_mr_map_get mm key = Some (map_option mr_context (M key))"
  using map_find [of mm M key] by (auto simp: ofi_mr_map_get_def split: option.splits)

lemma map_verify: "regions mm M \<Longrightarrow> ofi_mr_map_verify mm io_addr len key access =
    (case M key of None \<Rightarrow> Some (Inl FI_EINVAL) | Some a \<Rightarrow> verify_attr a io_addr len access)"
  using map_find [of mm M key] by (auto simp: ofi_mr_map_verify_def split: option.splits)

lemma map_remove:
  assumes "regions mm M"
  shows "\<exists>mm'. ofi_mr_map_remove mm key = Some (if M key = None then Inl FI_ENOKEY else Inr (), mm') \<and>
    regions mm' (M(key := None)) \<and> mm_mode mm' = mm_mode mm \<and> mm_key mm' = mm_key mm"
proof (cases "M key")
  case None
  then have "M(key := None) = M" by auto
  then show ?thesis using None map_find [OF assms, of key] assms by (simp add: ofi_mr_map_remove_def)
next
  case (Some d)
  from mrk.rbm.discard_denotes [OF assms [unfolded regions_def] Some] show ?thesis
    using Some by (auto simp: ofi_mr_map_remove_def regions_def)
qed

lemma map_init:
  assumes "ofi_mr_map_init null calloc mode = Inr mm"
  shows "regions mm Map.empty" and "mm_key mm = 1"
proof -
  obtain tree where t: "ofi_rbmap_create null calloc = Some tree" "mm_rbtree mm = tree" "mm_key mm = 1"
    using assms by (auto simp: ofi_mr_map_init_def split: option.splits)
  have inv: "rbmap_inv tree Lf" using rbmap_create_inv [OF t(1)] .
  then have "mrk.ord_inv tree" unfolding mrk.ord_inv_def by (intro exI [of _ Lf]) (simp add: mrk.keys_of_def)
  moreover have "rb_live tree = {}" using inv by (simp add: rbmap_inv_def)
  ultimately show "regions mm Map.empty" "mm_key mm = 1" using t by (simp_all add: regions_def mrk.rbm.denotes_def)
qed

lemma verify_attr_exact:
  assumes v: "mr_iov a = v # vs" and r: "unat (iov_base v) + unat (iov_len v) < 2 ^ 64"
    and w: "unat (io_addr + mr_offset a) + unat len < 2 ^ 64"
  shows "verify_attr a io_addr len access =
    (if access AND mr_access a = access \<and> iov_base v \<le> io_addr + mr_offset a \<and>
        unat (io_addr + mr_offset a) + unat len \<le> unat (iov_base v) + unat (iov_len v)
     then Some (Inr (io_addr + mr_offset a, mr_context a)) else Some (Inl FI_EACCES))"
proof -
  have "unat (io_addr + mr_offset a + len) = unat (io_addr + mr_offset a) + unat len"
    "unat (iov_base v + iov_len v) = unat (iov_base v) + unat (iov_len v)"
    using r w by (simp_all add: unat_add_lem [symmetric])
  then show ?thesis using v by (auto simp: verify_attr_def Let_def not_less word_less_nat_alt word_le_nat_alt)
qed

section \<open>Properties\<close>

text \<open>C5. The registration map is a partial map from keys to attributes: for every state of it, lookups and
  access checks look at the entry of the key, removal deletes it or fails with \<open>FI_ENOKEY\<close>, and an
  insertion adds the attributes under the key they ask for or the next provider key, with the new
  context and, without virtual addressing, the base address as offset; a key that is taken is
  refused and the map stays as it is.\<close>

theorem mr_map_refines_map:
  assumes "regions mm M" and "mr_iov attr \<noteq> []" and "fresh_node (mm_rbtree mm) node" and "k = requested_key (stored mm attr)"
  shows "ofi_mr_map_get mm key = Some (map_option mr_context (M key)) \<and>
    ofi_mr_map_verify mm io_addr len key access =
      (case M key of None \<Rightarrow> Some (Inl FI_EINVAL) | Some a \<Rightarrow> verify_attr a io_addr len access) \<and>
    (\<exists>mm'. ofi_mr_map_remove mm key = Some (if M key = None then Inl FI_ENOKEY else Inr (), mm') \<and>
      regions mm' (M(key := None))) \<and>
    (if M k = None
     then \<exists>mm'. ofi_mr_map_insert True (Some node) mm attr ctx = Some (Inr k, mm') \<and>
       regions mm' (M(k \<mapsto> (stored mm attr)\<lparr>mr_context := ctx\<rparr>))
     else \<exists>mm'. ofi_mr_map_insert True (Some node) mm attr ctx = Some (Inl FI_ENOKEY, mm') \<and> regions mm' M)"
  using map_insert_new [OF assms(1,3,2), of ctx] map_insert_twice [OF assms(1,2), of "Some node" ctx]
    map_remove [OF assms(1), of key] map_get [OF assms(1)] map_verify [OF assms(1)] assms(4)
  by auto

definition ex_attr :: fi_mr_attr where
  "ex_attr = \<lparr>mr_iov = [\<lparr>iov_base = 100, iov_len = 10\<rparr>], mr_access = 3, mr_offset = 0, requested_key = 7, mr_context = 0,
     auth_key_size = 0, auth_key = 0, hmem_iface = 0, hmem_device = 0\<rparr>"

lemma ex_map: "\<exists>mm. ofi_mr_map_init ex_attr True 0 = Inr mm \<and> regions mm Map.empty \<and> mm_mode mm = 0 \<and> fresh_node (mm_rbtree mm) 1"
proof -
  obtain mm where mm: "ofi_mr_map_init ex_attr True 0 = Inr mm" "mm_mode mm = 0"
    by (simp add: ofi_mr_map_init_def ofi_rbmap_create_def fi_consts)
  have "fresh_node (mm_rbtree mm) 1"
    using mm(1) by (auto simp: ofi_mr_map_init_def ofi_rbmap_create_def ofi_rbmap_init_def field_updates fresh_node_def)
  then show ?thesis using mm map_init [OF mm(1)] by blast
qed

theorem mr_map_refines_map_witness:
  "\<exists>mm mm'. ofi_mr_map_init ex_attr True 0 = Inr mm \<and>
    ofi_mr_map_insert True (Some 1) mm ex_attr 5 = Some (Inr 7, mm') \<and> ofi_mr_map_get mm' 7 = Some (Some 5)"
proof -
  obtain mm where mm: "ofi_mr_map_init ex_attr True 0 = Inr mm" "regions mm Map.empty" "mm_mode mm = 0" "fresh_node (mm_rbtree mm) 1"
    using ex_map by blast
  have k: "requested_key (stored mm ex_attr) = 7" using mm(3) by (simp add: stored_def ex_attr_def Let_def)
  have "mr_iov ex_attr \<noteq> []" by (simp add: ex_attr_def)
  from mr_map_refines_map [OF mm(2) this mm(4) k [symmetric], of 7 0 0 0 5] obtain mm' where
    m': "ofi_mr_map_insert True (Some 1) mm ex_attr 5 = Some (Inr 7, mm')"
    "regions mm' (Map.empty(7 \<mapsto> (stored mm ex_attr)\<lparr>mr_context := 5\<rparr>))"
    by auto
  then show ?thesis using mm(1) map_get [OF m'(2), of 7] by auto
qed

text \<open>C38. An access check succeeds exactly for a registered key, allowed access bits and a range inside the first
  region of the registration, as long as the end of the range and the end of the region fit into 64
  bits; it then returns the translated address and the context.\<close>

theorem mr_verify_exact:
  assumes "regions mm M" and "M key = Some a" and "mr_iov a = v # vs" and "unat (iov_base v) + unat (iov_len v) < 2 ^ 64"
    and "addr = io_addr + mr_offset a" and "unat addr + unat len < 2 ^ 64" and "len \<noteq> 0"
  shows "ofi_mr_map_verify mm io_addr len key access =
    (if access AND mr_access a = access \<and> set (region addr (unat len)) \<subseteq> iov_set v
     then Some (Inr (addr, mr_context a)) else Some (Inl FI_EACCES))"
proof -
  have l: "unat len \<noteq> 0" using assms(7) by (simp add: unat_eq_0)
  have wf: "iov_wf \<lparr>iov_base = addr, iov_len = len\<rparr>" using assms(6,7) by (simp add: iov_wf_def)
  have "iov_base v \<le> addr \<and> unat addr + unat len \<le> unat (iov_base v) + unat (iov_len v) \<longleftrightarrow>
      set (region addr (unat len)) \<subseteq> iov_set v"
  proof (cases "iov_len v = 0")
    case True
    have "region addr (unat len) \<noteq> []" using l length_region [of addr "unat len"] by (metis list.size(3))
    then show ?thesis using l True by (auto simp: iov_set_def word_le_nat_alt)
  next
    case False
    then have wv: "iov_wf v" using assms(4) by (simp add: iov_wf_def)
    have "set (region addr (unat len)) \<subseteq> iov_set v \<longleftrightarrow> ofi_iov_within \<lparr>iov_base = addr, iov_len = len\<rparr> v"
      using iov_within_subset [OF wf wv] by (simp add: iov_set_def)
    moreover have "unat (iov_len v) \<noteq> 0" using False by (simp add: unat_eq_0)
    ultimately show ?thesis using unat_iov_end [OF wf] unat_iov_end [OF wv] l
      by (auto simp: ofi_iov_within_def word_le_nat_alt)
  qed
  then show ?thesis
    using map_verify [OF assms(1), of io_addr len key access] verify_attr_exact [of a v vs io_addr len access] assms(2-6)
    by auto
qed

theorem mr_verify_exact_witness:
  "\<exists>mm. ofi_mr_map_verify mm 2 5 7 1 = Some (Inr (102, 5))"
proof -
  obtain mm where mm: "ofi_mr_map_init ex_attr True 0 = Inr mm" "regions mm Map.empty" "mm_mode mm = 0" "fresh_node (mm_rbtree mm) 1"
    using ex_map by blast
  let ?a = "(stored mm ex_attr)\<lparr>mr_context := 5\<rparr>"
  have s: "requested_key (stored mm ex_attr) = 7" "mr_iov ?a = [\<lparr>iov_base = 100, iov_len = 10\<rparr>]" "mr_offset ?a = 100"
    "mr_access ?a = 3" using mm(3) by (simp_all add: stored_def ex_attr_def Let_def)
  have "mr_iov ex_attr \<noteq> []" by (simp add: ex_attr_def)
  from map_insert_new [OF mm(2,4) this, of 5] obtain mm' where m': "regions mm' (Map.empty(7 \<mapsto> ?a))" by (auto simp: s)
  have "set (region 102 (unat (5 :: u64))) \<subseteq> iov_set \<lparr>iov_base = 100, iov_len = 10\<rparr>"
    by (simp add: iov_set_def region_def upt_rec)
  moreover have "(1 :: u64) AND 3 = 1" by simp
  ultimately show ?thesis using mr_verify_exact [OF m', of 7 ?a _ "[]" 102 2 5 1] s by (auto simp: iov_set_def)
qed

text \<open>C39. The end of the range is computed with 64-bit wrap-around: for every registered region there is a length
  far beyond its end that the access check accepts, with an address inside the region.\<close>

theorem mr_verify_wraps:
  assumes "regions mm M" and "M key = Some a" and "mr_iov a = v # vs" and "iov_len v < iov_base v"
    and "unat (iov_base v) + unat (iov_len v) < 2 ^ 64"
  shows "\<exists>io_addr len. unat len > unat (iov_len v) \<and>
    ofi_mr_map_verify mm io_addr len key (mr_access a) = Some (Inr (iov_base v, mr_context a))"
proof -
  let ?io = "iov_base v - mr_offset a" and ?len = "- iov_base v :: u64"
  have b: "unat (iov_base v) > unat (iov_len v)" using assms(4) by (simp add: word_less_nat_alt)
  then have "unat ?len = 2 ^ 64 - unat (iov_base v)" using unat_sub_if' [of 0 "iov_base v"] by simp
  then have l: "unat ?len > unat (iov_len v)" using assms(5) by simp
  have "verify_attr a ?io ?len (mr_access a) = Some (Inr (iov_base v, mr_context a))"
    using assms(3) by (simp add: verify_attr_def Let_def)
  then show ?thesis using map_verify [OF assms(1), of ?io ?len key "mr_access a"] assms(2) l by auto
qed

theorem mr_verify_wraps_witness:
  "\<exists>mm io_addr len. unat len > 10 \<and> ofi_mr_map_verify mm io_addr len 7 3 = Some (Inr (100, 5))"
proof -
  obtain mm where mm: "ofi_mr_map_init ex_attr True 0 = Inr mm" "regions mm Map.empty" "mm_mode mm = 0" "fresh_node (mm_rbtree mm) 1"
    using ex_map by blast
  let ?a = "(stored mm ex_attr)\<lparr>mr_context := 5\<rparr>"
  have s: "requested_key (stored mm ex_attr) = 7" "mr_iov ?a = [\<lparr>iov_base = 100, iov_len = 10\<rparr>]" "mr_access ?a = 3"
    using mm(3) by (simp_all add: stored_def ex_attr_def Let_def)
  have "mr_iov ex_attr \<noteq> []" by (simp add: ex_attr_def)
  from map_insert_new [OF mm(2,4) this, of 5] obtain mm' where m': "regions mm' (Map.empty(7 \<mapsto> ?a))" by (auto simp: s)
  from mr_verify_wraps [OF m' _ s(2), of 7] show ?thesis using s by auto
qed

text \<open>C37. Registering a buffer and closing the registration: a successful \<open>ofi_mr_reg\<close> stores the buffer under a
  key that was free, with the registration as context, and takes a reference on the domain;
  \<open>ofi_mr_close\<close> of it succeeds and gives back the map of regions and the reference count.\<close>

theorem mr_reg_close_roundtrip:
  assumes "regions (dom_mr_map d) M" and "fresh_node (mm_rbtree (dom_mr_map d)) node"
    and "ofi_mr_reg junk (Some mr) True (Some node) FI_CLASS_DOMAIN d buf len access offset key flags ctx = Some (Inr obj, d1)"
  shows "M (mr_key obj) = None \<and>
    (\<exists>a. regions (dom_mr_map d1) (M(mr_key obj \<mapsto> a)) \<and> mr_iov a = [\<lparr>iov_base = buf, iov_len = len\<rparr>] \<and>
      mr_access a = access \<and> mr_context a = mr) \<and>
    dom_ref d1 = dom_ref d + 1 \<and>
    (\<exists>d2. ofi_mr_close d1 obj = Some (Inr (), d2) \<and> regions (dom_mr_map d2) M \<and> dom_ref d2 = dom_ref d)"
proof -
  let ?attr = "junk\<lparr>mr_iov := [\<lparr>iov_base = buf, iov_len = len\<rparr>], mr_access := access, mr_offset := offset,
    requested_key := key, mr_context := ctx\<rparr>" and ?mm = "dom_mr_map d"
  have ne: "mr_iov ?attr \<noteq> []" by simp
  let ?k = "requested_key (stored ?mm ?attr)" and ?a = "(stored ?mm ?attr)\<lparr>mr_context := mr\<rparr>"
  obtain ret mm' where ret: "ofi_mr_map_insert True (Some node) ?mm ?attr mr = Some (ret, mm')"
    using assms(3) by (auto simp: ofi_mr_reg_def ofi_mr_regv_def ofi_mr_regattr_def)
  then have i: "ret = Inr (mr_key obj)" "d1 = d\<lparr>dom_mr_map := mm', dom_ref := dom_ref d + 1\<rparr>"
    using assms(3) by (cases ret; auto simp: ofi_mr_reg_def ofi_mr_regv_def ofi_mr_regattr_def)+
  note i = ret [unfolded i(1)] i(2)
  have free: "M ?k = None"
  proof (rule ccontr)
    assume "M ?k \<noteq> None"
    from map_insert_twice [OF assms(1) ne this, of "Some node" mr] i(1) show False by auto
  qed
  have r: "mr_key obj = ?k" "regions mm' (M(?k \<mapsto> ?a))"
    using map_insert_new [OF assms(1,2) ne free, of mr] i(1) by auto
  have a: "mr_iov ?a = [\<lparr>iov_base = buf, iov_len = len\<rparr>]" "mr_access ?a = access" "mr_context ?a = mr"
    by (simp_all add: stored_def Let_def)
  obtain mm2 where c: "ofi_mr_map_remove mm' ?k = Some (Inr (), mm2)" "regions mm2 ((M(?k \<mapsto> ?a))(?k := None))"
    using map_remove [OF r(2), of ?k] by auto
  have "(M(?k \<mapsto> ?a))(?k := None) = M" using free by auto
  then have "ofi_mr_close d1 obj = Some (Inr (), d1\<lparr>dom_mr_map := mm2, dom_ref := dom_ref d\<rparr>)" "regions mm2 M"
    using c r(1) i(2) by (simp_all add: ofi_mr_close_def)
  then show ?thesis using free r i(2) a by (auto intro!: exI [of _ ?a])
qed

theorem mr_reg_close_roundtrip_witness:
  "\<exists>d obj d1 d2. ofi_mr_reg ex_attr (Some 5) True (Some 1) FI_CLASS_DOMAIN d 100 10 3 0 7 0 0 = Some (Inr obj, d1) \<and>
    ofi_mr_close d1 obj = Some (Inr (), d2) \<and> dom_ref d2 = 0"
proof -
  obtain mm where mm: "ofi_mr_map_init ex_attr True 0 = Inr mm" "regions mm Map.empty" "mm_mode mm = 0" "fresh_node (mm_rbtree mm) 1"
    using ex_map by blast
  let ?d = "\<lparr>dom_mr_map = mm, dom_ref = 0\<rparr>"
  let ?attr = "ex_attr\<lparr>mr_iov := [\<lparr>iov_base = 100, iov_len = 10\<rparr>], mr_access := 3, mr_offset := 0,
    requested_key := 7, mr_context := 0\<rparr>"
  obtain obj d1 where r: "ofi_mr_reg ex_attr (Some 5) True (Some 1) FI_CLASS_DOMAIN ?d 100 10 3 0 7 0 0 = Some (Inr obj, d1)"
    using map_insert_new [OF mm(2,4), of ?attr 5]
    by (auto simp: ofi_mr_reg_def ofi_mr_regv_def ofi_mr_regattr_def)
  have "regions (dom_mr_map ?d) Map.empty" "fresh_node (mm_rbtree (dom_mr_map ?d)) 1" using mm by simp_all
  from mr_reg_close_roundtrip [OF this r] show ?thesis using r by auto
qed

end
