(* ===== verification/Ofi_Mr_Cache.thy ===== *)
theory Ofi_Mr_Cache
  imports Ofi_Mr "HOL-Library.Monad_Syntax"
begin

section \<open>The memory registration cache\<close>

text \<open>
  \<^verbatim>\<open>prov/util/src/util_mr_cache.c\<close>.  The entries live in a memory from addresses to entries; an address that
  is not allocated has none, and a value \<open>None\<close> of an operation is an access to such an address, a
  \<open>NULL\<close> function pointer, a failed assertion, a signed overflow or a loop that does not return.  The cache
  calls its storage through the function pointers of \<open>struct ofi_mr_storage\<close>, as the code does.

  The provider's \<open>add_region\<close> and \<open>delete_region\<close> and the subscription to the memory monitor are outside
  the cache: \<open>mc_hist\<close> is the history of these calls, and the result of a call is any function of the
  history before it.  The memory allocator gives an address for the state it is called in.
\<close>

record ofi_mr_entry =
  en_iov :: iovec
  storage_context :: "nat option"
  subscribed :: bool
  use_cnt :: int

type_synonym mr_heap = "nat \<rightharpoonup> ofi_mr_entry"

datatype (plugins only: code size) mr_event =
    AddRegion nat iovec "fi_errno option"
  | DeleteRegion nat iovec
  | Subscribe u64 size_t "fi_errno option"

datatype (plugins only: code size) ofi_mr_storage_type =
    OFI_MR_STORAGE_DEFAULT | OFI_MR_STORAGE_RBT | OFI_MR_STORAGE_USER | OFI_MR_STORAGE_OTHER

record 's ofi_mr_storage =
  st_type :: ofi_mr_storage_type
  st_storage :: "'s option"
  st_find :: "(mr_heap \<Rightarrow> 's \<Rightarrow> iovec \<Rightarrow> nat option option) option"
  st_overlap :: "(mr_heap \<Rightarrow> 's \<Rightarrow> iovec \<Rightarrow> nat option option) option"
  st_insert :: "(nat option \<Rightarrow> mr_heap \<Rightarrow> 's \<Rightarrow> iovec \<Rightarrow> nat \<Rightarrow> (unit fi_result \<times> mr_heap \<times> 's) option) option"
  st_erase :: "(mr_heap \<Rightarrow> 's \<Rightarrow> nat \<Rightarrow> (mr_heap \<times> 's) option) option"
  st_destroy :: "('s \<Rightarrow> nat list option) option"

record 's ofi_mr_cache =
  mc_domain :: bool
  mc_storage :: "'s ofi_mr_storage"
  mc_entries :: mr_heap
  mc_lru :: "nat list"
  cached_cnt :: size_t
  cached_size :: size_t
  uncached_cnt :: size_t
  uncached_size :: size_t
  search_cnt :: size_t
  delete_cnt :: size_t
  hit_cnt :: size_t
  notify_cnt :: size_t
  mc_hist :: "mr_event list"

record ofi_mr_cache_params =
  max_cnt :: size_t
  max_size :: size_t
  merge_regions :: bool

text \<open>The parameters, the allocators of entries (with the old contents of the bit) and of nodes, and the
  results of the calls out of the cache.\<close>

record 's mr_env =
  cache_params :: ofi_mr_cache_params
  entry_alloc :: "mr_heap \<Rightarrow> (nat \<times> bool) option"
  node_alloc :: "'s \<Rightarrow> nat option"
  add_region :: "mr_event list \<Rightarrow> nat \<Rightarrow> iovec \<Rightarrow> fi_errno option"
  mon_subscribe :: "mr_event list \<Rightarrow> u64 \<Rightarrow> size_t \<Rightarrow> fi_errno option"

subsection \<open>Calls through the storage\<close>

definition storage_find :: "'s ofi_mr_cache \<Rightarrow> iovec \<Rightarrow> nat option option" where
  "storage_find c key =
    do { s \<leftarrow> st_storage (mc_storage c); f \<leftarrow> st_find (mc_storage c); f (mc_entries c) s key }"

definition storage_overlap :: "'s ofi_mr_cache \<Rightarrow> iovec \<Rightarrow> nat option option" where
  "storage_overlap c key =
    do { s \<leftarrow> st_storage (mc_storage c); f \<leftarrow> st_overlap (mc_storage c); f (mc_entries c) s key }"

definition storage_insert :: "'s mr_env \<Rightarrow> 's ofi_mr_cache \<Rightarrow> iovec \<Rightarrow> nat \<Rightarrow> (unit fi_result \<times> 's ofi_mr_cache) option" where
  "storage_insert env c key entry =
    do { s \<leftarrow> st_storage (mc_storage c); f \<leftarrow> st_insert (mc_storage c);
         (ret, h, s') \<leftarrow> f (node_alloc env s) (mc_entries c) s key entry;
         Some (ret, c\<lparr>mc_entries := h, mc_storage := (mc_storage c)\<lparr>st_storage := Some s'\<rparr>\<rparr>) }"

definition storage_erase :: "'s ofi_mr_cache \<Rightarrow> nat \<Rightarrow> 's ofi_mr_cache option" where
  "storage_erase c entry =
    do { s \<leftarrow> st_storage (mc_storage c); f \<leftarrow> st_erase (mc_storage c);
         (h, s') \<leftarrow> f (mc_entries c) s entry;
         Some (c\<lparr>mc_entries := h, mc_storage := (mc_storage c)\<lparr>st_storage := Some s'\<rparr>\<rparr>) }"

text \<open>An entry that is not in the list has no valid links.\<close>

definition lru_remove :: "'s ofi_mr_cache \<Rightarrow> nat \<Rightarrow> 's ofi_mr_cache option" where
  "lru_remove c entry = (if entry \<in> set (mc_lru c) then Some (c\<lparr>mc_lru := remove1 entry (mc_lru c)\<rparr>) else None)"

definition update_entry :: "nat \<Rightarrow> ofi_mr_entry \<Rightarrow> 's ofi_mr_cache \<Rightarrow> 's ofi_mr_cache" where
  "update_entry entry en c = c\<lparr>mc_entries := (mc_entries c)(entry \<mapsto> en)\<rparr>"

definition count_cached :: "size_t \<Rightarrow> 's ofi_mr_cache \<Rightarrow> 's ofi_mr_cache" where
  "count_cached len c = c\<lparr>cached_cnt := cached_cnt c + 1, cached_size := cached_size c + len\<rparr>"

definition uncount_cached :: "size_t \<Rightarrow> 's ofi_mr_cache \<Rightarrow> 's ofi_mr_cache" where
  "uncount_cached len c = c\<lparr>cached_cnt := cached_cnt c - 1, cached_size := cached_size c - len\<rparr>"

definition count_uncached :: "size_t \<Rightarrow> 's ofi_mr_cache \<Rightarrow> 's ofi_mr_cache" where
  "count_uncached len c = c\<lparr>uncached_cnt := uncached_cnt c + 1, uncached_size := uncached_size c + len\<rparr>"

definition uncount_uncached :: "size_t \<Rightarrow> 's ofi_mr_cache \<Rightarrow> 's ofi_mr_cache" where
  "uncount_uncached len c = c\<lparr>uncached_cnt := uncached_cnt c - 1, uncached_size := uncached_size c - len\<rparr>"

definition entry_free :: "nat \<Rightarrow> 's ofi_mr_cache \<Rightarrow> 's ofi_mr_cache" where
  "entry_free entry c = c\<lparr>mc_entries := (mc_entries c)(entry := None)\<rparr>"

subsection \<open>Removing entries\<close>

definition util_mr_free_entry :: "'s ofi_mr_cache \<Rightarrow> nat \<Rightarrow> 's ofi_mr_cache option" where
  "util_mr_free_entry c entry =
    do { en \<leftarrow> mc_entries c entry;
         if storage_context en \<noteq> None then None
         else Some (entry_free entry (c\<lparr>mc_hist := mc_hist c @ [DeleteRegion entry (en_iov en)]\<rparr>)) }"

definition util_mr_uncache_entry_storage :: "'s ofi_mr_cache \<Rightarrow> nat \<Rightarrow> 's ofi_mr_cache option" where
  "util_mr_uncache_entry_storage c entry =
    do { c \<leftarrow> storage_erase c entry; en \<leftarrow> mc_entries c entry; Some (uncount_cached (iov_len (en_iov en)) c) }"

definition util_mr_uncache_entry :: "'s ofi_mr_cache \<Rightarrow> nat \<Rightarrow> 's ofi_mr_cache option" where
  "util_mr_uncache_entry c entry =
    do { c \<leftarrow> util_mr_uncache_entry_storage c entry;
         en \<leftarrow> mc_entries c entry;
         if use_cnt en = 0 then do { c \<leftarrow> lru_remove c entry; util_mr_free_entry c entry }
         else Some (count_uncached (iov_len (en_iov en)) c) }"

partial_function (option) notify_loop :: "'s ofi_mr_cache \<Rightarrow> iovec \<Rightarrow> 's ofi_mr_cache option" where
  "notify_loop c iov =
    do { r \<leftarrow> storage_overlap c iov;
         case r of
           None \<Rightarrow> Some c
         | Some entry \<Rightarrow> do { c \<leftarrow> util_mr_uncache_entry c entry; notify_loop c iov } }"

definition ofi_mr_cache_notify :: "'s ofi_mr_cache \<Rightarrow> u64 \<Rightarrow> size_t \<Rightarrow> 's ofi_mr_cache option" where
  "ofi_mr_cache_notify c addr len =
    notify_loop (c\<lparr>notify_cnt := notify_cnt c + 1\<rparr>) \<lparr>iov_base = addr, iov_len = len\<rparr>"

definition mr_cache_flush :: "'s ofi_mr_cache \<Rightarrow> (bool \<times> 's ofi_mr_cache) option" where
  "mr_cache_flush c =
    (case mc_lru c of
       [] \<Rightarrow> Some (False, c)
     | entry # rest \<Rightarrow>
         do { c \<leftarrow> util_mr_uncache_entry_storage (c\<lparr>mc_lru := rest\<rparr>) entry;
              c \<leftarrow> util_mr_free_entry c entry;
              Some (True, c) })"

definition ofi_mr_cache_flush :: "'s ofi_mr_cache \<Rightarrow> (bool \<times> 's ofi_mr_cache) option" where
  "ofi_mr_cache_flush c = mr_cache_flush c"

definition ofi_mr_cache_delete :: "'s ofi_mr_cache \<Rightarrow> nat \<Rightarrow> 's ofi_mr_cache option" where
  "ofi_mr_cache_delete c entry =
    do { en \<leftarrow> mc_entries c entry;
         if use_cnt en = - (2 ^ 31) then None
         else let en = en\<lparr>use_cnt := use_cnt en - 1\<rparr>;
                  c = update_entry entry en (c\<lparr>delete_cnt := delete_cnt c + 1\<rparr>)
              in if use_cnt en = 0
                 then (if storage_context en \<noteq> None then Some (c\<lparr>mc_lru := mc_lru c @ [entry]\<rparr>)
                       else util_mr_free_entry (uncount_uncached (iov_len (en_iov en)) c) entry)
                 else Some c }"

subsection \<open>Adding entries\<close>

definition call_add_region :: "'s mr_env \<Rightarrow> 's ofi_mr_cache \<Rightarrow> nat \<Rightarrow> iovec \<Rightarrow> fi_errno option \<times> 's ofi_mr_cache" where
  "call_add_region env c entry iov =
    (let ret = add_region env (mc_hist c) entry iov
     in (ret, c\<lparr>mc_hist := mc_hist c @ [AddRegion entry iov ret]\<rparr>))"

definition ofi_monitor_subscribe :: "'s mr_env \<Rightarrow> 's ofi_mr_cache \<Rightarrow> u64 \<Rightarrow> size_t \<Rightarrow> fi_errno option \<times> 's ofi_mr_cache" where
  "ofi_monitor_subscribe env c addr len =
    (let ret = mon_subscribe env (mc_hist c) addr len
     in (ret, c\<lparr>mc_hist := mc_hist c @ [Subscribe addr len ret]\<rparr>))"

text \<open>The loop that flushes idle entries until the provider accepts the region, and the whole registration.\<close>

partial_function (option) retry_loop ::
    "'s mr_env \<Rightarrow> nat \<Rightarrow> iovec \<Rightarrow> fi_errno option \<Rightarrow> 's ofi_mr_cache \<Rightarrow> (fi_errno option \<times> 's ofi_mr_cache) option" where
  "retry_loop env entry iov ret c =
    (if ret = None then Some (ret, c)
     else do { (flushed, c) \<leftarrow> mr_cache_flush c;
               if flushed then (let (ret, c) = call_add_region env c entry iov in retry_loop env entry iov ret c)
               else Some (ret, c) })"

definition cache_full :: "'s mr_env \<Rightarrow> 's ofi_mr_cache \<Rightarrow> bool" where
  "cache_full env c \<longleftrightarrow>
    cached_cnt c \<ge> max_cnt (cache_params env) \<or> cached_size c \<ge> max_size (cache_params env)"

text \<open>A region that is in the storage is subscribed to; when that fails, it leaves the storage and stays
  registered.\<close>

definition subscribe_region :: "'s mr_env \<Rightarrow> 's ofi_mr_cache \<Rightarrow> iovec \<Rightarrow> nat \<Rightarrow> (nat fi_result \<times> 's ofi_mr_cache) option" where
  "subscribe_region env c iov entry =
    (let (ret, c) = ofi_monitor_subscribe env c (iov_base iov) (iov_len iov)
     in if ret \<noteq> None then do { c \<leftarrow> util_mr_uncache_entry c entry; Some (Inr entry, c) }
        else do { en \<leftarrow> mc_entries c entry; Some (Inr entry, update_entry entry (en\<lparr>subscribed := True\<rparr>) c) })"

definition keep_region :: "'s mr_env \<Rightarrow> 's ofi_mr_cache \<Rightarrow> iovec \<Rightarrow> nat \<Rightarrow> (nat fi_result \<times> 's ofi_mr_cache) option" where
  "keep_region env c iov entry =
    (if cache_full env c then Some (Inr entry, count_uncached (iov_len iov) c)
     else do { (r, c) \<leftarrow> storage_insert env c iov entry;
               case r of
                 Inl _ \<Rightarrow> do { c \<leftarrow> util_mr_free_entry c entry; Some (Inl FI_ENOMEM, c) }
               | Inr _ \<Rightarrow> subscribe_region env (count_cached (iov_len iov) c) iov entry })"

definition util_mr_cache_create ::
    "'s mr_env \<Rightarrow> 's ofi_mr_cache \<Rightarrow> iovec \<Rightarrow> (nat fi_result \<times> 's ofi_mr_cache) option" where
  "util_mr_cache_create env c iov =
    (case entry_alloc env (mc_entries c) of
       None \<Rightarrow> Some (Inl FI_ENOMEM, c)
     | Some (entry, old_bit) \<Rightarrow>
         let c = update_entry entry \<lparr>en_iov = iov, storage_context = None, subscribed = old_bit, use_cnt = 1\<rparr> c;
             (ret, c) = call_add_region env c entry iov
         in do { (ret, c) \<leftarrow> retry_loop env entry iov ret c;
                 case ret of
                   Some e \<Rightarrow> if mc_lru c \<noteq> [] then None else Some (Inl e, entry_free entry c)
                 | None \<Rightarrow> keep_region env c iov entry })"

text \<open>The smallest region around two regions.\<close>

definition merged_iov :: "iovec \<Rightarrow> iovec \<Rightarrow> iovec" where
  "merged_iov iov old =
    \<lparr>iov_base = min (iov_base iov) (iov_base old),
     iov_len = max (ofi_iov_end iov) (ofi_iov_end old) + 1 - min (iov_base iov) (iov_base old)\<rparr>"

partial_function (option) merge_loop ::
    "'s ofi_mr_cache \<Rightarrow> iovec \<Rightarrow> nat \<Rightarrow> (iovec \<times> 's ofi_mr_cache) option" where
  "merge_loop c iov old_entry =
    do { old \<leftarrow> mc_entries c old_entry;
         let iov = merged_iov iov (en_iov old);
         c \<leftarrow> util_mr_uncache_entry (update_entry old_entry (old\<lparr>subscribed := False\<rparr>) c) old_entry;
         r \<leftarrow> storage_find c iov;
         case r of
           Some old_entry \<Rightarrow> merge_loop c iov old_entry
         | None \<Rightarrow> Some (iov, c) }"

definition util_mr_cache_merge ::
    "'s mr_env \<Rightarrow> 's ofi_mr_cache \<Rightarrow> iovec \<Rightarrow> nat \<Rightarrow> (nat fi_result \<times> 's ofi_mr_cache) option" where
  "util_mr_cache_merge env c miov old_entry =
    do { (iov, c) \<leftarrow> merge_loop c miov old_entry; util_mr_cache_create env c iov }"

partial_function (option) flush_loop :: "'s mr_env \<Rightarrow> 's ofi_mr_cache \<Rightarrow> 's ofi_mr_cache option" where
  "flush_loop env c =
    (if cache_full env c
     then do { (flushed, c) \<leftarrow> mr_cache_flush c; if flushed then flush_loop env c else Some c }
     else Some c)"

text \<open>The single region of the attributes, which an assertion demands.\<close>

definition attr_iov :: "fi_mr_attr \<Rightarrow> iovec option" where
  "attr_iov attr = (case mr_iov attr of [v] \<Rightarrow> Some v | _ \<Rightarrow> None)"

text \<open>One more user of an entry that was found.\<close>

definition use_entry :: "'s ofi_mr_cache \<Rightarrow> nat \<Rightarrow> 's ofi_mr_cache option" where
  "use_entry c entry =
    do { en \<leftarrow> mc_entries c entry;
         if use_cnt en = 2 ^ 31 - 1 then None
         else let c = update_entry entry (en\<lparr>use_cnt := use_cnt en + 1\<rparr>) (c\<lparr>hit_cnt := hit_cnt c + 1\<rparr>)
              in if use_cnt en = 0 then lru_remove c entry else Some c }"

definition ofi_mr_cache_search :: "'s mr_env \<Rightarrow> 's ofi_mr_cache \<Rightarrow> fi_mr_attr \<Rightarrow> (nat fi_result \<times> 's ofi_mr_cache) option" where
  "ofi_mr_cache_search env c attr =
    do { miov \<leftarrow> attr_iov attr;
         c \<leftarrow> flush_loop env (c\<lparr>search_cnt := search_cnt c + 1\<rparr>);
         r \<leftarrow> storage_find c miov;
         case r of
           None \<Rightarrow> util_mr_cache_create env c miov
         | Some entry \<Rightarrow>
             do { en \<leftarrow> mc_entries c entry;
                  if \<not> ofi_iov_within miov (en_iov en) then util_mr_cache_merge env c miov entry
                  else do { c \<leftarrow> use_entry c entry; Some (Inr entry, c) } } }"

definition ofi_mr_cache_find :: "'s ofi_mr_cache \<Rightarrow> fi_mr_attr \<Rightarrow> (nat option \<times> 's ofi_mr_cache) option" where
  "ofi_mr_cache_find c attr =
    (let c = c\<lparr>search_cnt := search_cnt c + 1\<rparr>
     in do { miov \<leftarrow> attr_iov attr;
             r \<leftarrow> storage_find c miov;
             case r of
               None \<Rightarrow> Some (None, c)
             | Some entry \<Rightarrow>
                 do { en \<leftarrow> mc_entries c entry;
                      if \<not> ofi_iov_within miov (en_iov en) then Some (None, c)
                      else do { c \<leftarrow> use_entry c entry; Some (Some entry, c) } } })"

definition ofi_mr_cache_reg ::
    "'s mr_env \<Rightarrow> 's ofi_mr_cache \<Rightarrow> fi_mr_attr \<Rightarrow> (nat fi_result \<times> 's ofi_mr_cache) option" where
  "ofi_mr_cache_reg env c attr =
    do { miov \<leftarrow> attr_iov attr;
         case entry_alloc env (mc_entries c) of
           None \<Rightarrow> Some (Inl FI_ENOMEM, c)
         | Some (entry, old_bit) \<Rightarrow>
             let c = count_uncached (iov_len miov) c;
                 c = update_entry entry \<lparr>en_iov = miov, storage_context = None, subscribed = old_bit, use_cnt = 1\<rparr> c;
                 (ret, c) = call_add_region env c entry miov
             in case ret of
                  None \<Rightarrow> Some (Inr entry, c)
                | Some e \<Rightarrow> Some (Inl e, uncount_uncached (iov_len miov) (entry_free entry c)) }"

subsection \<open>The memory monitor\<close>

text \<open>
  \<^verbatim>\<open>prov/util/src/util_mem_monitor.c\<close>: the caches that are notified, by identifier, and whether the monitor
  has been started.  Starting it (\<open>ofi_uffd_init\<close>, \<open>ofi_memhooks_init\<close>) is a call to the system with a
  result.
\<close>

datatype (plugins only: code size) monitor_kind = UffdMonitor | MemhooksMonitor | OtherMonitor

record ofi_mem_monitor =
  mon_kind :: monitor_kind
  mon_list :: "nat list"
  mon_started :: bool

definition ofi_monitor_add_cache ::
    "(monitor_kind \<Rightarrow> fi_errno option) \<Rightarrow> ofi_mem_monitor option \<Rightarrow> nat \<Rightarrow> unit fi_result \<times> ofi_mem_monitor option" where
  "ofi_monitor_add_cache start monitor cache =
    (case monitor of
       None \<Rightarrow> (Inl FI_ENOSYS, monitor)
     | Some mon \<Rightarrow>
         (case (if mon_list mon = []
                then (if mon_kind mon = OtherMonitor then Inl FI_ENOSYS
                      else case start (mon_kind mon) of Some e \<Rightarrow> Inl e | None \<Rightarrow> Inr (mon\<lparr>mon_started := True\<rparr>))
                else Inr mon) of
            Inl e \<Rightarrow> (Inl e, monitor)
          | Inr mon \<Rightarrow> (Inr (), Some (mon\<lparr>mon_list := mon_list mon @ [cache]\<rparr>))))"

definition ofi_monitor_del_cache :: "ofi_mem_monitor \<Rightarrow> nat \<Rightarrow> ofi_mem_monitor" where
  "ofi_monitor_del_cache mon cache =
    (let mon = mon\<lparr>mon_list := remove1 cache (mon_list mon)\<rparr>
     in if mon_list mon = [] \<and> mon_kind mon \<noteq> OtherMonitor then mon\<lparr>mon_started := False\<rparr> else mon)"

fun notify_caches ::
    "(nat \<rightharpoonup> 's ofi_mr_cache) \<Rightarrow> nat list \<Rightarrow> u64 \<Rightarrow> size_t \<Rightarrow> (nat \<rightharpoonup> 's ofi_mr_cache) option" where
  "notify_caches caches [] addr len = Some caches"
| "notify_caches caches (i # is) addr len =
    do { c \<leftarrow> caches i; c \<leftarrow> ofi_mr_cache_notify c addr len; notify_caches (caches(i \<mapsto> c)) is addr len }"

definition ofi_monitor_notify ::
    "ofi_mem_monitor \<Rightarrow> (nat \<rightharpoonup> 's ofi_mr_cache) \<Rightarrow> u64 \<Rightarrow> size_t \<Rightarrow> (nat \<rightharpoonup> 's ofi_mr_cache) option" where
  "ofi_monitor_notify mon caches addr len = notify_caches caches (mon_list mon) addr len"

subsection \<open>Storage in a red-black map\<close>

text \<open>The nodes of the tree hold the addresses of the entries; the comparison reads the entry.\<close>

definition entry_iov :: "mr_heap \<Rightarrow> nat \<Rightarrow> iovec" where
  "entry_iov h entry = en_iov (the (h entry))"

definition util_mr_find_within :: "mr_heap \<Rightarrow> iovec \<Rightarrow> nat \<Rightarrow> int" where
  "util_mr_find_within h key entry =
    (if ofi_iov_shifted_left key (entry_iov h entry) then -1
     else if ofi_iov_shifted_right key (entry_iov h entry) then 1 else 0)"

definition util_mr_find_overlap :: "mr_heap \<Rightarrow> iovec \<Rightarrow> nat \<Rightarrow> int" where
  "util_mr_find_overlap h key entry =
    (if ofi_iov_left key (entry_iov h entry) then -1
     else if ofi_iov_right key (entry_iov h entry) then 1 else 0)"

definition ofi_mr_rbt_destroy :: "nat ofi_rbmap \<Rightarrow> nat list option" where
  "ofi_mr_rbt_destroy storage = ofi_rbmap_destroy storage"

text \<open>The comparison the tree was created with is an argument.\<close>

definition ofi_mr_rbt_find ::
    "(mr_heap \<Rightarrow> iovec \<Rightarrow> nat \<Rightarrow> int) \<Rightarrow> mr_heap \<Rightarrow> nat ofi_rbmap \<Rightarrow> iovec \<Rightarrow> nat option option" where
  "ofi_mr_rbt_find compare h storage key =
    map_option (map_option (rb_data storage)) (ofi_rbmap_find (compare h) storage key)"

definition ofi_mr_rbt_overlap :: "mr_heap \<Rightarrow> nat ofi_rbmap \<Rightarrow> iovec \<Rightarrow> nat option option" where
  "ofi_mr_rbt_overlap h storage key =
    map_option (map_option (rb_data storage)) (ofi_rbmap_search (util_mr_find_overlap h) storage key)"

definition ofi_mr_rbt_insert ::
    "(mr_heap \<Rightarrow> iovec \<Rightarrow> nat \<Rightarrow> int) \<Rightarrow> nat option \<Rightarrow> mr_heap \<Rightarrow> nat ofi_rbmap \<Rightarrow> iovec \<Rightarrow> nat \<Rightarrow>
      (unit fi_result \<times> mr_heap \<times> nat ofi_rbmap) option" where
  "ofi_mr_rbt_insert compare malloc h storage key entry =
    do { en \<leftarrow> h entry;
         if storage_context en \<noteq> None then None
         else do { (ret, storage) \<leftarrow> ofi_rbmap_insert (compare h) malloc storage key entry;
                   Some (case ret of
                           Inl e \<Rightarrow> (Inl e, h, storage)
                         | Inr node \<Rightarrow> (Inr (), h(entry \<mapsto> en\<lparr>storage_context := Some node\<rparr>), storage)) } }"

definition ofi_mr_rbt_erase :: "mr_heap \<Rightarrow> nat ofi_rbmap \<Rightarrow> nat \<Rightarrow> (mr_heap \<times> nat ofi_rbmap) option" where
  "ofi_mr_rbt_erase h storage entry =
    do { en \<leftarrow> h entry;
         node \<leftarrow> storage_context en;
         storage \<leftarrow> ofi_rbmap_delete storage node;
         Some (h(entry \<mapsto> en\<lparr>storage_context := None\<rparr>), storage) }"

subsection \<open>Initialization and cleanup\<close>

definition ofi_mr_cache_init_rbt ::
    "ofi_mr_cache_params \<Rightarrow> bool \<Rightarrow> nat ofi_rbmap ofi_mr_storage \<Rightarrow> nat ofi_rbmap ofi_mr_storage fi_result" where
  "ofi_mr_cache_init_rbt params calloc st =
    (let compare = (if merge_regions params then util_mr_find_overlap else util_mr_find_within)
     in case ofi_rbmap_create 0 calloc of
          None \<Rightarrow> Inl FI_ENOMEM
        | Some tree \<Rightarrow>
            Inr (st\<lparr>st_storage := Some tree, st_overlap := Some ofi_mr_rbt_overlap, st_destroy := Some ofi_mr_rbt_destroy,
                    st_find := Some (ofi_mr_rbt_find compare), st_insert := Some (ofi_mr_rbt_insert compare),
                    st_erase := Some ofi_mr_rbt_erase\<rparr>))"

definition ofi_mr_cache_init_storage ::
    "ofi_mr_cache_params \<Rightarrow> bool \<Rightarrow> nat ofi_rbmap ofi_mr_storage \<Rightarrow> nat ofi_rbmap ofi_mr_storage fi_result" where
  "ofi_mr_cache_init_storage params calloc st =
    (case st_type st of
       OFI_MR_STORAGE_DEFAULT \<Rightarrow> ofi_mr_cache_init_rbt params calloc st
     | OFI_MR_STORAGE_RBT \<Rightarrow> ofi_mr_cache_init_rbt params calloc st
     | OFI_MR_STORAGE_USER \<Rightarrow>
         if st_storage st \<noteq> None \<and> st_overlap st \<noteq> None \<and> st_destroy st \<noteq> None \<and> st_find st \<noteq> None \<and>
            st_insert st \<noteq> None \<and> st_erase st \<noteq> None
         then Inr st else Inl FI_EINVAL
     | OFI_MR_STORAGE_OTHER \<Rightarrow> Inl FI_EINVAL)"

text \<open>Destroying the storage; a destroyed storage is not accessible.\<close>

definition storage_destroy :: "'s ofi_mr_cache \<Rightarrow> (nat list \<times> 's ofi_mr_cache) option" where
  "storage_destroy c =
    do { s \<leftarrow> st_storage (mc_storage c); f \<leftarrow> st_destroy (mc_storage c); freed \<leftarrow> f s;
         Some (freed, c\<lparr>mc_storage := (mc_storage c)\<lparr>st_storage := None\<rparr>\<rparr>) }"

definition drop_domain :: "'s ofi_mr_cache \<Rightarrow> 's ofi_mr_cache" where
  "drop_domain c = c\<lparr>mc_domain := False\<rparr>"

text \<open>\<open>ref\<close> is the reference count of the domain, \<open>pool\<close> the result of creating the pool of entries, \<open>self\<close> the
  identifier of the cache.  The new cache has no history.\<close>

definition ofi_mr_cache_init ::
    "ofi_mr_cache_params \<Rightarrow> bool \<Rightarrow> (monitor_kind \<Rightarrow> fi_errno option) \<Rightarrow> fi_errno option \<Rightarrow> u32 \<Rightarrow> ofi_mem_monitor option \<Rightarrow>
      nat \<Rightarrow> nat ofi_rbmap ofi_mr_cache \<Rightarrow>
      (unit fi_result \<times> nat ofi_rbmap ofi_mr_cache \<times> u32 \<times> ofi_mem_monitor option) option" where
  "ofi_mr_cache_init params calloc start pool ref monitor self c =
    (if max_cnt params = 0 \<or> max_size params = 0 then Some (Inl FI_ENOSPC, c, ref, monitor)
     else let c = c\<lparr>mc_lru := [], cached_cnt := 0, cached_size := 0, uncached_cnt := 0, uncached_size := 0,
                    search_cnt := 0, delete_cnt := 0, hit_cnt := 0, notify_cnt := 0, mc_domain := True\<rparr>;
              ref = ref + 1
          in case ofi_mr_cache_init_storage params calloc (mc_storage c) of
               Inl e \<Rightarrow> Some (Inl e, drop_domain c, ref - 1, monitor)
             | Inr st \<Rightarrow>
                 let c = c\<lparr>mc_storage := st\<rparr>
                 in case ofi_monitor_add_cache start monitor self of
                      (Inl e, monitor) \<Rightarrow>
                        do { (_, c) \<leftarrow> storage_destroy c; Some (Inl e, drop_domain c, ref - 1, monitor) }
                    | (Inr _, monitor) \<Rightarrow>
                        (case pool of
                           Some e \<Rightarrow>
                             do { mon \<leftarrow> monitor;
                                  (_, c) \<leftarrow> storage_destroy c;
                                  Some (Inl e, drop_domain c, ref - 1, Some (ofi_monitor_del_cache mon self)) }
                         | None \<Rightarrow> Some (Inr (), c\<lparr>mc_entries := Map.empty, mc_hist := []\<rparr>, ref, monitor)))"

text \<open>The walk along the list of idle entries, whose next pointer is read before an entry is removed.\<close>

fun cleanup_loop :: "'s ofi_mr_cache \<Rightarrow> nat list \<Rightarrow> 's ofi_mr_cache option" where
  "cleanup_loop c [] = Some c"
| "cleanup_loop c (entry # es) =
    do { en \<leftarrow> mc_entries c entry;
         if use_cnt en \<noteq> 0 then None else do { c \<leftarrow> util_mr_uncache_entry c entry; cleanup_loop c es } }"

text \<open>The nodes of the storage that are freed are returned as well.\<close>

definition ofi_mr_cache_cleanup ::
    "u32 \<Rightarrow> ofi_mem_monitor \<Rightarrow> nat \<Rightarrow> 's ofi_mr_cache \<Rightarrow> (nat list \<times> 's ofi_mr_cache \<times> u32 \<times> ofi_mem_monitor) option" where
  "ofi_mr_cache_cleanup ref monitor self c =
    (if \<not> mc_domain c then Some ([], c, ref, monitor)
     else do { c \<leftarrow> cleanup_loop c (mc_lru c);
               let monitor = ofi_monitor_del_cache monitor self;
               (freed, c) \<leftarrow> storage_destroy c;
               if cached_cnt c \<noteq> 0 \<or> cached_size c \<noteq> 0 \<or> uncached_cnt c \<noteq> 0 \<or> uncached_size c \<noteq> 0 then None
               else Some (freed, c\<lparr>mc_entries := Map.empty\<rparr>, ref - 1, monitor) })"

end
