(* ===== verification/Ofi_Mr_Cache_Inv.thy ===== *)
theory Ofi_Mr_Cache_Inv
  imports Ofi_Mr_Cache
begin

section \<open>The invariant of the registration cache\<close>

text \<open>
  The invariant of the cache and the contract of its storage (a locale), with the steps of the operations:
  removing an entry, flushing, notification, the attempts to register a region and its entry into the cache.
\<close>

subsection \<open>What the storage sees of the entries\<close>

text \<open>The cached entries with their handles and regions.\<close>

definition view :: "mr_heap \<Rightarrow> nat \<rightharpoonup> nat \<times> iovec" where
  "view h e = Option.bind (h e) (\<lambda>en. map_option (\<lambda>n. (n, en_iov en)) (storage_context en))"

lemma view_upd [simp]:
  "view (h(e \<mapsto> en)) = (view h)(e := map_option (\<lambda>n. (n, en_iov en)) (storage_context en))"
  "view (h(e := None)) = (view h)(e := None)"
  by (auto simp: view_def fun_eq_iff)

lemma view_uncached: "h e = None \<Longrightarrow> view h e = None" "h e = Some en \<Longrightarrow> storage_context en = None \<Longrightarrow> view h e = None"
  by (simp_all add: view_def)

lemma view_SomeD: "view h e = Some (n, v) \<Longrightarrow> \<exists>en. h e = Some en \<and> storage_context en = Some n \<and> en_iov en = v"
  by (auto simp: view_def bind_eq_Some_conv)

lemma view_SomeI: "h e = Some en \<Longrightarrow> storage_context en = Some n \<Longrightarrow> view h e = Some (n, en_iov en)"
  by (simp add: view_def)

lemma dom_view: "dom (view h) \<subseteq> dom h"
  by (auto simp: view_def bind_eq_Some_conv)

lemma fun_upd_view_None: "view h e = None \<Longrightarrow> (view h)(e := None) = view h"
  by (simp add: fun_upd_idem)

subsection \<open>Sums over the entries\<close>

definition tally :: "(nat \<Rightarrow> ofi_mr_entry \<Rightarrow> 'b::cancel_comm_monoid_add) \<Rightarrow> mr_heap \<Rightarrow> 'b" where
  "tally f h = (\<Sum>e \<in> dom h. f e (the (h e)))"

lemma tally_empty [simp]: "tally f Map.empty = 0"
  by (simp add: tally_def)

lemma tally_new:
  assumes "finite (dom h)" "h e = None"
  shows "tally f (h(e \<mapsto> en)) = f e en + tally f h"
proof -
  have "(\<Sum>x \<in> dom h. f x (the ((h(e \<mapsto> en)) x))) = (\<Sum>x \<in> dom h. f x (the (h x)))"
    using assms(2) by (intro sum.cong) auto
  then show ?thesis using assms by (simp add: tally_def domIff)
qed

lemma tally_split: "finite (dom h) \<Longrightarrow> h e = Some en \<Longrightarrow> tally f h = f e en + tally f (h(e := None))"
  using tally_new [of "h(e := None)" e f en] by (simp add: fun_upd_idem)

lemma tally_upd: "finite (dom h) \<Longrightarrow> tally f (h(e \<mapsto> en)) = f e en + tally f (h(e := None))"
  using tally_new [of "h(e := None)" e f en] by simp

lemma tally_change:
  assumes "finite (dom h)" "h e = Some en" "e \<noteq> p"
  shows "tally f ((h(e \<mapsto> en'))(p := None)) + f e en = tally f (h(p := None)) + f e en'"
    and "tally f ((h(e := None))(p := None)) + f e en = tally f (h(p := None))"
proof -
  define g where "g = h(p := None)"
  have g: "finite (dom g)" "g e = Some en" using assms by (simp_all add: g_def)
  have t: "(h(e := x))(p := None) = g(e := x)" for x using assms(3) by (simp add: g_def fun_upd_twist)
  show "tally f ((h(e \<mapsto> en'))(p := None)) + f e en = tally f (h(p := None)) + f e en'"
    unfolding t g_def [symmetric] using tally_split [OF g, of f] tally_upd [OF g(1), of f e en'] by (simp add: ac_simps)
  show "tally f ((h(e := None))(p := None)) + f e en = tally f (h(p := None))"
    unfolding t g_def [symmetric] using tally_split [OF g, of f] by (simp add: ac_simps)
qed

lemma tally_same:
  assumes "finite (dom h)" "h e = Some en" "f e en' = f e en"
  shows "tally f ((h(e \<mapsto> en'))(p := None)) = tally f (h(p := None))"
  using tally_change(1) [OF assms(1,2), of p f en'] assms(3) by (cases "e = p") simp_all

text \<open>The quantities the cache counts: \<open>cnt_of p\<close> and \<open>size_of p\<close> for the entries in a state \<open>p\<close>, and the
  regions.\<close>

definition cnt_of :: "bool \<Rightarrow> nat \<Rightarrow> ofi_mr_entry \<Rightarrow> size_t" where
  "cnt_of k e en = (if (storage_context en \<noteq> None) = k then 1 else 0)"

definition size_of :: "bool \<Rightarrow> nat \<Rightarrow> ofi_mr_entry \<Rightarrow> size_t" where
  "size_of k e en = (if (storage_context en \<noteq> None) = k then iov_len (en_iov en) else 0)"

definition reg_of :: "nat \<Rightarrow> ofi_mr_entry \<Rightarrow> (nat \<times> iovec) multiset" where
  "reg_of e en = {#(e, en_iov en)#}"

lemmas counted = cnt_of_def size_of_def reg_of_def

lemma tally_cnt:
  assumes "finite (dom h)"
  shows "tally (cnt_of True) h = of_nat (card (dom (view h)))"
    and "tally (cnt_of False) h = of_nat (card (dom h - dom (view h)))"
proof -
  have "tally (cnt_of True) h = (\<Sum>e \<in> dom h. if e \<in> dom (view h) then 1 else 0)"
    "tally (cnt_of False) h = (\<Sum>e \<in> dom h. if e \<in> dom (view h) then 0 else 1)"
    unfolding tally_def by (intro sum.cong; auto simp: cnt_of_def view_def)+
  then have "tally (cnt_of True) h = of_nat (card (dom h \<inter> dom (view h)))" "tally (cnt_of False) h = of_nat (card (dom h - dom (view h)))"
    using assms by (simp_all add: sum.If_cases Diff_eq Compl_eq flip: Int_def)
  then show "tally (cnt_of True) h = of_nat (card (dom (view h)))" "tally (cnt_of False) h = of_nat (card (dom h - dom (view h)))"
    using dom_view [of h] by (simp_all add: Int_absorb1)
qed

lemma tally_size:
  assumes "finite (dom h)"
  shows "tally (size_of True) h = (\<Sum>e \<in> dom (view h). iov_len (en_iov (the (h e))))"
    and "tally (size_of False) h = (\<Sum>e \<in> dom h - dom (view h). iov_len (en_iov (the (h e))))"
proof -
  have "tally (size_of True) h = (\<Sum>e \<in> dom h. if e \<in> dom (view h) then iov_len (en_iov (the (h e))) else 0)"
    "tally (size_of False) h = (\<Sum>e \<in> dom h. if e \<in> dom (view h) then 0 else iov_len (en_iov (the (h e))))"
    unfolding tally_def by (intro sum.cong; auto simp: size_of_def view_def)+
  then have "tally (size_of True) h = (\<Sum>e \<in> dom h \<inter> dom (view h). iov_len (en_iov (the (h e))))"
    "tally (size_of False) h = (\<Sum>e \<in> dom h - dom (view h). iov_len (en_iov (the (h e))))"
    using assms by (simp_all add: sum.If_cases Diff_eq Compl_eq flip: Int_def)
  then show "tally (size_of True) h = (\<Sum>e \<in> dom (view h). iov_len (en_iov (the (h e))))"
    "tally (size_of False) h = (\<Sum>e \<in> dom h - dom (view h). iov_len (en_iov (the (h e))))"
    using dom_view [of h] by (simp_all add: Int_absorb1)
qed

fun added :: "mr_event list \<Rightarrow> (nat \<times> iovec) multiset" where
  "added [] = {#}"
| "added (AddRegion e v None # es) = add_mset (e, v) (added es)"
| "added (_ # es) = added es"

fun deleted :: "mr_event list \<Rightarrow> (nat \<times> iovec) multiset" where
  "deleted [] = {#}"
| "deleted (DeleteRegion e v # es) = add_mset (e, v) (deleted es)"
| "deleted (_ # es) = deleted es"

lemma added_append [simp]: "added (xs @ ys) = added xs + added ys"
  by (induction xs rule: added.induct) simp_all

lemma deleted_append [simp]: "deleted (xs @ ys) = deleted xs + deleted ys"
  by (induction xs rule: deleted.induct) simp_all

subsection \<open>The invariant\<close>

text \<open>Regions in the address space of a process: not empty and not reaching its end.\<close>

definition region_ok :: "iovec \<Rightarrow> bool" where
  "region_ok v \<longleftrightarrow> iov_len v \<noteq> 0 \<and> unat (iov_base v) + unat (iov_len v) < 2 ^ 64"

definition entry_ok :: "ofi_mr_entry \<Rightarrow> bool" where
  "entry_ok en \<longleftrightarrow> 0 \<le> use_cnt en \<and> (storage_context en = None \<longrightarrow> 0 < use_cnt en) \<and>
    (storage_context en \<noteq> None \<longrightarrow> region_ok (en_iov en))"

definition idle :: "mr_heap \<Rightarrow> nat set" where
  "idle h = {e. \<exists>en. h e = Some en \<and> use_cnt en = 0}"

lemma idle_upd [simp]:
  "idle (h(e \<mapsto> en)) = (if use_cnt en = 0 then insert e (idle h) else idle h - {e})"
  "idle (h(e := None)) = idle h - {e}"
  by (auto simp: idle_def)

text \<open>The counters are exact, except for an entry \<open>p\<close> that is being created, and the regions that were added
  and not deleted are those of the entries, except \<open>q\<close>.\<close>

definition counts_ok :: "nat \<Rightarrow> nat \<Rightarrow> 's ofi_mr_cache \<Rightarrow> bool" where
  "counts_ok p q c \<longleftrightarrow>
    cached_cnt c = tally (cnt_of True) ((mc_entries c)(p := None)) \<and>
    cached_size c = tally (size_of True) ((mc_entries c)(p := None)) \<and>
    uncached_cnt c = tally (cnt_of False) ((mc_entries c)(p := None)) \<and>
    uncached_size c = tally (size_of False) ((mc_entries c)(p := None)) \<and>
    added (mc_hist c) = deleted (mc_hist c) + tally reg_of ((mc_entries c)(q := None))"

definition lists_ok :: "'s ofi_mr_cache \<Rightarrow> bool" where
  "lists_ok c \<longleftrightarrow> finite (dom (mc_entries c)) \<and> mc_entries c 0 = None \<and>
    (\<forall>e en. mc_entries c e = Some en \<longrightarrow> entry_ok en) \<and>
    distinct (mc_lru c) \<and> set (mc_lru c) = idle (mc_entries c)"

text \<open>The entries in use, with the number of their users and their region: what the clients of the cache
  know of it.\<close>

definition held :: "mr_heap \<Rightarrow> nat \<rightharpoonup> int \<times> iovec" where
  "held h e = Option.bind (h e) (\<lambda>en. if 0 < use_cnt en then Some (use_cnt en, en_iov en) else None)"

lemma held_upd [simp]:
  "held (h(e \<mapsto> en)) = (held h)(e := if 0 < use_cnt en then Some (use_cnt en, en_iov en) else None)"
  "held (h(e := None)) = (held h)(e := None)"
  by (auto simp: held_def fun_eq_iff)

lemma held_same:
  "h e = Some en \<Longrightarrow> use_cnt en' = use_cnt en \<Longrightarrow> en_iov en' = en_iov en \<Longrightarrow> held (h(e \<mapsto> en')) = held h"
  by (auto simp: held_def fun_eq_iff)

lemma held_idle: "h e = Some en \<Longrightarrow> use_cnt en \<le> 0 \<Longrightarrow> held (h(e := None)) = held h" "h e = None \<Longrightarrow> held h e = None"
  by (auto simp: held_def fun_eq_iff)

text \<open>Entries only leave the storage or, when they are idle, the memory; those that are not cached stay as
  they are.\<close>

definition shrinks :: "mr_heap \<Rightarrow> mr_heap \<Rightarrow> bool" where
  "shrinks h h' \<longleftrightarrow> held h' = held h \<and> view h' \<subseteq>\<^sub>m view h \<and> dom h' \<subseteq> dom h \<and>
    (\<forall>e en. h e = Some en \<longrightarrow> storage_context en = None \<longrightarrow> h' e = Some en)"

lemma shrinks_refl [simp]: "shrinks h h"
  by (simp add: shrinks_def)

lemma shrinks_trans: "shrinks h h1 \<Longrightarrow> shrinks h1 h2 \<Longrightarrow> shrinks h h2"
  unfolding shrinks_def by (metis map_le_trans order_trans)

lemma shrinks_upd:
  assumes "h e = Some en" "storage_context en = Some n" "use_cnt en' = use_cnt en" "en_iov en' = en_iov en"
    "storage_context en' = None \<or> storage_context en' = Some n"
  shows "shrinks h (h(e \<mapsto> en'))"
  using assms held_same [of h e en en'] by (auto simp: shrinks_def map_le_def view_def)

lemma shrinks_free:
  assumes "h e = Some en" "storage_context en = Some n" "use_cnt en \<le> 0"
  shows "shrinks h (h(e := None))"
  using assms held_idle(1) [of h e en] by (auto simp: shrinks_def map_le_def)

text \<open>Merging regions.\<close>

lemma merged_end: "ofi_iov_end (merged_iov k v) = max (ofi_iov_end k) (ofi_iov_end v)"
  by (simp add: ofi_iov_end_def merged_iov_def)

lemma region_end:
  assumes "region_ok v"
  shows "iov_base v \<le> ofi_iov_end v" "ofi_iov_end v < - 1"
proof -
  have "iov_wf v" using assms by (simp add: region_ok_def iov_wf_def)
  then show "iov_base v \<le> ofi_iov_end v" by (rule iov_end_ge)
  have "unat (ofi_iov_end v) < 2 ^ 64 - 1" using unat_iov_end [OF \<open>iov_wf v\<close>] assms
    by (cases "unat (iov_len v)") (simp_all add: region_ok_def unat_eq_0)
  then show "ofi_iov_end v < - 1" by (simp add: word_less_nat_alt unsigned_minus_1_eq_mask mask_eq_exp_minus_1)
qed

lemma unat_successor: "x < - 1 \<Longrightarrow> unat (x + 1) = unat x + 1" for x :: u64
  by (metis add.commute add.left_neutral eq_neg_iff_add_eq_0 less_irrefl unatSuc Suc_eq_plus1)

lemma merged_ok:
  assumes "region_ok k" "region_ok v"
  shows "region_ok (merged_iov k v)" "ofi_iov_within k (merged_iov k v)"
proof -
  let ?b = "min (iov_base k) (iov_base v)" and ?e = "max (ofi_iov_end k) (ofi_iov_end v)"
  have e: "?b \<le> ?e" "?e < - 1" using region_end [OF assms(1)] region_end [OF assms(2)] by (auto simp: min_def max_def)
  then have u: "unat (?e + 1) = unat ?e + 1" by (intro unat_successor)
  then have "?b < ?e + 1" using e(1) by (simp add: word_less_nat_alt word_le_nat_alt)
  then have "unat (?e + 1 - ?b) = unat (?e + 1) - unat ?b" "unat ?b < unat (?e + 1)"
    by (simp_all add: unat_sub word_less_nat_alt word_le_nat_alt)
  moreover have "unat (?e + 1) < 2 ^ 64" using unsigned_less [of "?e + 1"] by simp
  ultimately show "region_ok (merged_iov k v)"
    unfolding region_ok_def merged_iov_def by (auto simp: unat_eq_0 [symmetric] simp del: unat_eq_0)
  show "ofi_iov_within k (merged_iov k v)"
    unfolding ofi_iov_within_def merged_end by (simp add: merged_iov_def)
qed

definition touches :: "iovec \<Rightarrow> iovec \<Rightarrow> bool" where
  "touches k v \<longleftrightarrow> \<not> ofi_iov_left k v \<and> \<not> ofi_iov_right k v"

text \<open>The allocators return addresses that are not in use, and the number of cached entries is bounded.\<close>

definition env_ok :: "('s \<Rightarrow> nat \<Rightarrow> bool) \<Rightarrow> 's mr_env \<Rightarrow> bool" where
  "env_ok fresh env \<longleftrightarrow> (\<forall>h e b. entry_alloc env h = Some (e, b) \<longrightarrow> e \<noteq> 0 \<and> h e = None) \<and>
    (\<forall>s n. node_alloc env s = Some n \<longrightarrow> fresh s n)"

definition bounded :: "'s mr_env \<Rightarrow> mr_heap \<Rightarrow> bool" where
  "bounded env h \<longleftrightarrow> card (dom (view h)) \<le> unat (max_cnt (cache_params env))"

lemma finite_view: "finite (dom h) \<Longrightarrow> finite (dom (view h))"
  by (rule finite_subset [OF dom_view])

lemma bounded_shrinks: "finite (dom h) \<Longrightarrow> bounded env h \<Longrightarrow> shrinks h h' \<Longrightarrow> bounded env h'"
  unfolding bounded_def shrinks_def using card_mono [OF finite_view] map_le_implies_dom_le order_trans by metis

subsection \<open>The contract of a storage\<close>

locale mr_storage =
  fixes find overlap :: "mr_heap \<Rightarrow> 's \<Rightarrow> iovec \<Rightarrow> nat option option"
    and ins :: "nat option \<Rightarrow> mr_heap \<Rightarrow> 's \<Rightarrow> iovec \<Rightarrow> nat \<Rightarrow> (unit fi_result \<times> mr_heap \<times> 's) option"
    and erase :: "mr_heap \<Rightarrow> 's \<Rightarrow> nat \<Rightarrow> (mr_heap \<times> 's) option"
    and destroy :: "'s \<Rightarrow> nat list option"
    and sinv :: "(nat \<rightharpoonup> nat \<times> iovec) \<Rightarrow> 's \<Rightarrow> bool"
    and hits :: "iovec \<Rightarrow> iovec \<Rightarrow> bool"
    and fresh :: "'s \<Rightarrow> nat \<Rightarrow> bool"
  assumes find_hit: "sinv (view h) s \<Longrightarrow> find h s k \<noteq> None"
    and find_some: "sinv (view h) s \<Longrightarrow> find h s k = Some (Some e) \<Longrightarrow> \<exists>n v. view h e = Some (n, v) \<and> hits k v"
    and find_none: "sinv (view h) s \<Longrightarrow> find h s k = Some None \<Longrightarrow> view h e = Some (n, v) \<Longrightarrow> \<not> hits k v"
    and overlap_hit: "sinv (view h) s \<Longrightarrow> overlap h s k \<noteq> None"
    and overlap_some: "sinv (view h) s \<Longrightarrow> overlap h s k = Some (Some e) \<Longrightarrow> \<exists>n v. view h e = Some (n, v) \<and> touches k v"
    and overlap_none: "sinv (view h) s \<Longrightarrow> overlap h s k = Some None \<Longrightarrow> view h e = Some (n, v) \<Longrightarrow> \<not> touches k v"
    and ins_new: "sinv (view h) s \<Longrightarrow> fresh s n \<Longrightarrow> h e = Some en \<Longrightarrow> storage_context en = None \<Longrightarrow> region_ok (en_iov en) \<Longrightarrow>
      (\<forall>e' n' v. view h e' = Some (n', v) \<longrightarrow> \<not> hits (en_iov en) v) \<Longrightarrow>
      \<exists>s'. ins (Some n) h s (en_iov en) e = Some (Inr (), h(e \<mapsto> en\<lparr>storage_context := Some n\<rparr>), s') \<and>
        sinv ((view h)(e \<mapsto> (n, en_iov en))) s'"
    and ins_no_memory: "sinv (view h) s \<Longrightarrow> h e = Some en \<Longrightarrow> storage_context en = None \<Longrightarrow>
      (\<forall>e' n' v. view h e' = Some (n', v) \<longrightarrow> \<not> hits (en_iov en) v) \<Longrightarrow> ins None h s (en_iov en) e = Some (Inl FI_ENOMEM, h, s)"
    and erase_one: "sinv (view h) s \<Longrightarrow> h e = Some en \<Longrightarrow> storage_context en = Some n \<Longrightarrow>
      \<exists>s'. erase h s e = Some (h(e \<mapsto> en\<lparr>storage_context := None\<rparr>), s') \<and> sinv ((view h)(e := None)) s'"
    and destroy_all: "sinv V s \<Longrightarrow> \<exists>freed. destroy s = Some freed \<and> distinct freed \<and> set freed = fst ` ran V"
    and apart: "sinv V s \<Longrightarrow> V e = Some (n, v) \<Longrightarrow> V e' = Some (n', v') \<Longrightarrow> e \<noteq> e' \<Longrightarrow> \<not> hits v v'"
    and hits_covered: "ofi_iov_within k v \<Longrightarrow> hits k v' \<Longrightarrow> \<not> hits v v' \<Longrightarrow> ofi_iov_within k v'"
    and covered_hits: "region_ok k \<Longrightarrow> region_ok v \<Longrightarrow> ofi_iov_within k v \<Longrightarrow> hits k v"
begin

definition linked :: "'s ofi_mr_cache \<Rightarrow> bool" where
  "linked c \<longleftrightarrow> st_find (mc_storage c) = Some find \<and> st_overlap (mc_storage c) = Some overlap \<and>
    st_insert (mc_storage c) = Some ins \<and> st_erase (mc_storage c) = Some erase \<and> st_destroy (mc_storage c) = Some destroy \<and>
    (\<exists>s. st_storage (mc_storage c) = Some s \<and> sinv (view (mc_entries c)) s)"

definition cinv :: "nat \<Rightarrow> nat \<Rightarrow> 's ofi_mr_cache \<Rightarrow> bool" where
  "cinv p q c \<longleftrightarrow> lists_ok c \<and> counts_ok p q c \<and> linked c \<and> view (mc_entries c) p = None \<and> view (mc_entries c) q = None"

lemma uncache_storage_eq:
  assumes "linked c" "mc_entries c e = Some en" "storage_context en = Some n"
  shows "\<exists>st. util_mr_uncache_entry_storage c e = Some (uncount_cached (iov_len (en_iov en))
      (c\<lparr>mc_entries := (mc_entries c)(e \<mapsto> en\<lparr>storage_context := None\<rparr>), mc_storage := st\<rparr>)) \<and>
    (\<forall>c'. mc_storage c' = st \<longrightarrow> view (mc_entries c') = (view (mc_entries c))(e := None) \<longrightarrow> linked c')"
proof -
  obtain s where s: "st_storage (mc_storage c) = Some s" "sinv (view (mc_entries c)) s" using assms(1) by (auto simp: linked_def)
  obtain s' where s': "erase (mc_entries c) s e = Some ((mc_entries c)(e \<mapsto> en\<lparr>storage_context := None\<rparr>), s')"
    "sinv ((view (mc_entries c))(e := None)) s'" using erase_one [OF s(2) assms(2,3)] by blast
  show ?thesis using assms(1) s(1) s'
    by (intro exI [of _ "(mc_storage c)\<lparr>st_storage := Some s'\<rparr>"])
      (auto simp: util_mr_uncache_entry_storage_def storage_erase_def linked_def)
qed

lemma uncache_entry_ok:
  assumes inv: "cinv p q c" and e: "view (mc_entries c) e = Some (n, v)"
  shows "\<exists>c'. util_mr_uncache_entry c e = Some c' \<and> cinv p q c' \<and> shrinks (mc_entries c) (mc_entries c') \<and>
    view (mc_entries c') = (view (mc_entries c))(e := None) \<and> mc_lru c' = remove1 e (mc_lru c)"
proof -
  obtain en where en: "mc_entries c e = Some en" "storage_context en = Some n" "en_iov en = v" using view_SomeD [OF e] by blast
  have L: "lists_ok c" "counts_ok p q c" "linked c" "view (mc_entries c) p = None" "view (mc_entries c) q = None" and ne: "e \<noteq> p" "e \<noteq> q"
    using inv e by (auto simp: cinv_def)
  have fin: "finite (dom (mc_entries c))" "distinct (mc_lru c)" "set (mc_lru c) = idle (mc_entries c)" using L(1) by (simp_all add: lists_ok_def)
  obtain st where st: "util_mr_uncache_entry_storage c e = Some (uncount_cached (iov_len (en_iov en))
      (c\<lparr>mc_entries := (mc_entries c)(e \<mapsto> en\<lparr>storage_context := None\<rparr>), mc_storage := st\<rparr>))"
    "\<And>c'. mc_storage c' = st \<Longrightarrow> view (mc_entries c') = (view (mc_entries c))(e := None) \<Longrightarrow> linked c'"
    using uncache_storage_eq [OF L(3) en(1,2)] by blast
  note T = tally_change [OF fin(1) en(1) ne(1)] tally_change [OF fin(1) en(1) ne(2)]
  show ?thesis
  proof (cases "use_cnt en = 0")
    case True
    let ?c = "uncount_cached (iov_len (en_iov en)) (c\<lparr>mc_entries := (mc_entries c)(e := None), mc_storage := st,
      mc_lru := remove1 e (mc_lru c), mc_hist := mc_hist c @ [DeleteRegion e (en_iov en)]\<rparr>)"
    have mem: "e \<in> set (mc_lru c)" using fin(3) en(1) True by (simp add: idle_def)
    have "util_mr_uncache_entry c e = Some ?c"
      using st(1) True mem by (simp add: util_mr_uncache_entry_def util_mr_free_entry_def lru_remove_def uncount_cached_def entry_free_def)
    moreover have "lists_ok ?c" using L(1) fin(2,3) by (auto simp: lists_ok_def uncount_cached_def)
    moreover have "counts_ok p q ?c"
      using L(2) T(2) [of "cnt_of True"] T(2) [of "cnt_of False"] T(2) [of "size_of True"] T(2) [of "size_of False"] T(4) [of reg_of] en(2)
      by (simp add: counts_ok_def uncount_cached_def counted algebra_simps)
    moreover have "linked ?c" using st(2) by (simp add: uncount_cached_def)
    moreover have "shrinks (mc_entries c) (mc_entries ?c)" using shrinks_free [of "mc_entries c", OF en(1,2)] True by (simp add: uncount_cached_def)
    ultimately show ?thesis using L(4,5) by (auto simp: cinv_def uncount_cached_def)
  next
    case False
    let ?c = "count_uncached (iov_len (en_iov en)) (uncount_cached (iov_len (en_iov en))
      (c\<lparr>mc_entries := (mc_entries c)(e \<mapsto> en\<lparr>storage_context := None\<rparr>), mc_storage := st\<rparr>))"
    have ok: "entry_ok en" using L(1) en(1) by (simp add: lists_ok_def)
    then have "0 < use_cnt en" using False by (simp add: entry_ok_def)
    note ok = ok this
    have mem: "e \<notin> set (mc_lru c)" using fin(3) en(1) False by (simp add: idle_def)
    have ne0: "e \<noteq> 0" using L(1) en(1) by (cases "e = 0") (simp_all add: lists_ok_def)
    have "util_mr_uncache_entry c e = Some ?c"
      using st(1) False by (simp add: util_mr_uncache_entry_def uncount_cached_def)
    moreover have "lists_ok ?c" using L(1) fin(2,3) ok mem ne0 by (auto simp: lists_ok_def uncount_cached_def count_uncached_def entry_ok_def)
    moreover have "counts_ok p q ?c"
      using L(2) T(1) [of "cnt_of True"] T(1) [of "cnt_of False"] T(1) [of "size_of True"] T(1) [of "size_of False"] T(3) [of reg_of "en\<lparr>storage_context := None\<rparr>"] en(2)
      by (simp add: counts_ok_def uncount_cached_def count_uncached_def counted algebra_simps)
    moreover have "linked ?c" using st(2) by (simp add: uncount_cached_def count_uncached_def)
    moreover have "shrinks (mc_entries c) (mc_entries ?c)" using shrinks_upd [of "mc_entries c", OF en(1,2)] by (simp add: uncount_cached_def count_uncached_def)
    ultimately show ?thesis using L(4,5) mem by (auto simp: cinv_def uncount_cached_def count_uncached_def remove1_idem)
  qed
qed

lemma uncache_storage_lru:
  "util_mr_uncache_entry_storage (c\<lparr>mc_lru := l\<rparr>) e = map_option (\<lambda>c. c\<lparr>mc_lru := l\<rparr>) (util_mr_uncache_entry_storage c e)"
  by (auto simp: util_mr_uncache_entry_storage_def storage_erase_def uncount_cached_def map_option_case
      split: option.splits Option.bind_splits)

lemma flush_ok:
  assumes inv: "cinv p q c"
  shows "case mc_lru c of [] \<Rightarrow> mr_cache_flush c = Some (False, c)
    | e # rest \<Rightarrow> \<exists>c'. mr_cache_flush c = Some (True, c') \<and> cinv p q c' \<and> shrinks (mc_entries c) (mc_entries c') \<and> mc_lru c' = rest"
proof (cases "mc_lru c")
  case Nil
  then show ?thesis by (simp add: mr_cache_flush_def)
next
  case (Cons e rest)
  have L: "lists_ok c" "linked c" using inv by (auto simp: cinv_def)
  have "e \<in> idle (mc_entries c)" "e \<notin> set rest" using L(1) Cons by (auto simp: lists_ok_def)
  then obtain en where en: "mc_entries c e = Some en" "use_cnt en = 0" by (auto simp: idle_def)
  then have "entry_ok en" using L(1) by (simp add: lists_ok_def)
  then obtain n where n: "storage_context en = Some n" using en(2) by (cases "storage_context en") (auto simp: entry_ok_def)
  obtain c' where c': "util_mr_uncache_entry c e = Some c'" "cinv p q c'" "shrinks (mc_entries c) (mc_entries c')"
    "mc_lru c' = remove1 e (mc_lru c)" using uncache_entry_ok [OF inv view_SomeI [of "mc_entries c", OF en(1) n]] by blast
  have "mr_cache_flush c = map_option (Pair True) (util_mr_uncache_entry c e)"
    using uncache_storage_eq [OF L(2) en(1) n] en n Cons
    by (auto simp: mr_cache_flush_def uncache_storage_lru util_mr_uncache_entry_def util_mr_free_entry_def lru_remove_def
        uncount_cached_def entry_free_def)
  then show ?thesis using c' Cons by auto
qed

lemma cinv_linked: "cinv p q c \<Longrightarrow> linked c" and cinv_finite: "cinv p q c \<Longrightarrow> finite (dom (mc_entries c))"
  by (simp_all add: cinv_def lists_ok_def)

lemma cinv_nonzero: "cinv p q c \<Longrightarrow> mc_entries c e = Some en \<Longrightarrow> e \<noteq> 0"
  by (cases "e = 0") (simp_all add: cinv_def lists_ok_def)

text \<open>Fields that no part of the invariant mentions.\<close>

lemma cinv_cong:
  assumes "mc_storage c' = mc_storage c" "mc_entries c' = mc_entries c" "mc_lru c' = mc_lru c"
    "cached_cnt c' = cached_cnt c" "cached_size c' = cached_size c" "uncached_cnt c' = uncached_cnt c"
    "uncached_size c' = uncached_size c" "added (mc_hist c') = added (mc_hist c)" "deleted (mc_hist c') = deleted (mc_hist c)"
  shows "cinv p q c' = cinv p q c"
  using assms by (simp add: cinv_def lists_ok_def counts_ok_def linked_def)

lemma storage_overlap_ok:
  assumes "linked c"
  shows "(storage_overlap c k = Some None \<and> (\<forall>e n v. view (mc_entries c) e = Some (n, v) \<longrightarrow> \<not> touches k v)) \<or>
    (\<exists>e n v. storage_overlap c k = Some (Some e) \<and> view (mc_entries c) e = Some (n, v) \<and> touches k v)"
proof -
  obtain s where s: "st_storage (mc_storage c) = Some s" "sinv (view (mc_entries c)) s" "st_overlap (mc_storage c) = Some overlap"
    using assms by (auto simp: linked_def)
  obtain r where r: "overlap (mc_entries c) s k = Some r" using overlap_hit [OF s(2)] by blast
  then have "storage_overlap c k = Some r" using s by (simp add: storage_overlap_def)
  then show ?thesis using overlap_some [OF s(2)] overlap_none [OF s(2)] r by (cases r) blast+
qed

lemma storage_find_ok:
  assumes "linked c"
  shows "(storage_find c k = Some None \<and> (\<forall>e n v. view (mc_entries c) e = Some (n, v) \<longrightarrow> \<not> hits k v)) \<or>
    (\<exists>e n v. storage_find c k = Some (Some e) \<and> view (mc_entries c) e = Some (n, v) \<and> hits k v)"
proof -
  obtain s where s: "st_storage (mc_storage c) = Some s" "sinv (view (mc_entries c)) s" "st_find (mc_storage c) = Some find"
    using assms by (auto simp: linked_def)
  obtain r where r: "find (mc_entries c) s k = Some r" using find_hit [OF s(2)] by blast
  then have "storage_find c k = Some r" using s by (simp add: storage_find_def)
  then show ?thesis using find_some [OF s(2)] find_none [OF s(2)] r by (cases r) blast+
qed

lemma notify_loop_ok:
  assumes "cinv p q c"
  shows "\<exists>c'. notify_loop c k = Some c' \<and> cinv p q c' \<and> shrinks (mc_entries c) (mc_entries c') \<and>
    view (mc_entries c') = view (mc_entries c) |` {e. \<forall>n v. view (mc_entries c) e = Some (n, v) \<longrightarrow> \<not> touches k v}"
  using assms
proof (induction "card (dom (view (mc_entries c)))" arbitrary: c rule: less_induct)
  case less
  from storage_overlap_ok [OF cinv_linked [OF less.prems], of k] show ?case
  proof (elim disjE conjE exE)
    assume n: "storage_overlap c k = Some None" "\<forall>e n v. view (mc_entries c) e = Some (n, v) \<longrightarrow> \<not> touches k v"
    have "view (mc_entries c) = view (mc_entries c) |` {e. \<forall>n v. view (mc_entries c) e = Some (n, v) \<longrightarrow> \<not> touches k v}"
      using n(2) by (auto simp: restrict_map_def fun_eq_iff)
    then show ?thesis using n(1) less.prems by (subst notify_loop.simps) simp
  next
    fix e n v
    assume e: "storage_overlap c k = Some (Some e)" "view (mc_entries c) e = Some (n, v)" "touches k v"
    obtain c1 where c1: "util_mr_uncache_entry c e = Some c1" "cinv p q c1" "shrinks (mc_entries c) (mc_entries c1)"
      "view (mc_entries c1) = (view (mc_entries c))(e := None)" using uncache_entry_ok [OF less.prems e(2)] by blast
    have "finite (dom (view (mc_entries c)))" using cinv_finite [OF less.prems] by (rule finite_view)
    then have "card (dom (view (mc_entries c1))) < card (dom (view (mc_entries c)))"
      unfolding c1(4) using e(2) by (intro psubset_card_mono) auto
    from less.hyps [OF this c1(2)] obtain c2 where c2: "notify_loop c1 k = Some c2" "cinv p q c2" "shrinks (mc_entries c1) (mc_entries c2)"
      "view (mc_entries c2) = view (mc_entries c1) |` {e. \<forall>n v. view (mc_entries c1) e = Some (n, v) \<longrightarrow> \<not> touches k v}" by blast
    have "view (mc_entries c2) = view (mc_entries c) |` {e. \<forall>n v. view (mc_entries c) e = Some (n, v) \<longrightarrow> \<not> touches k v}"
      unfolding c2(4) c1(4) using e(2,3) by (auto simp: restrict_map_def fun_eq_iff)
    moreover have "notify_loop c k = Some c2" using e(1) c1(1) c2(1) by (subst notify_loop.simps) simp
    ultimately show ?thesis using c2(2) shrinks_trans [OF c1(3) c2(3)] by blast
  qed
qed

lemma flush_loop_ok:
  assumes "cinv p q c"
  shows "\<exists>c'. flush_loop env c = Some c' \<and> cinv p q c' \<and> shrinks (mc_entries c) (mc_entries c') \<and>
    (cache_full env c' \<longrightarrow> mc_lru c' = [])"
  using assms
proof (induction "mc_lru c" arbitrary: c)
  case Nil
  then show ?case using flush_ok [OF Nil.prems] by (subst flush_loop.simps) (auto split: list.splits)
next
  case (Cons e rest)
  obtain c1 where c1: "mr_cache_flush c = Some (True, c1)" "cinv p q c1" "shrinks (mc_entries c) (mc_entries c1)" "mc_lru c1 = rest"
    using flush_ok [OF Cons.prems] Cons.hyps(2) by (auto split: list.splits)
  obtain c2 where c2: "flush_loop env c1 = Some c2" "cinv p q c2" "shrinks (mc_entries c1) (mc_entries c2)"
    "cache_full env c2 \<longrightarrow> mc_lru c2 = []" using Cons.hyps(1) [OF c1(4) [symmetric] c1(2)] by blast
  show ?case
  proof (cases "cache_full env c")
    case True
    then have "flush_loop env c = Some c2" using c1(1) c2(1) by (subst flush_loop.simps) simp
    then show ?thesis using c2(2,4) shrinks_trans [OF c1(3) c2(3)] by blast
  next
    case False
    then show ?thesis using Cons.prems by (subst flush_loop.simps) simp
  qed
qed

lemma call_add_ok:
  assumes inv: "cinv e e c" and en: "mc_entries c e = Some en" and call: "call_add_region env c e (en_iov en) = (ret, c')"
  shows "cinv e (if ret = None then 0 else e) c'" and "mc_entries c' = mc_entries c" and "mc_lru c' = mc_lru c"
proof -
  have c': "c' = c\<lparr>mc_hist := mc_hist c @ [AddRegion e (en_iov en) ret]\<rparr>"
    using call by (auto simp: call_add_region_def Let_def)
  then show "mc_entries c' = mc_entries c" "mc_lru c' = mc_lru c" by simp_all
  have z: "mc_entries c 0 = None" and f: "finite (dom (mc_entries c))" using inv by (simp_all add: cinv_def lists_ok_def)
  have a: "added [AddRegion e (en_iov en) ret] = (if ret = None then {#(e, en_iov en)#} else {#})" by (cases ret) simp_all
  have "counts_ok e (if ret = None then 0 else e) c'"
    using inv z a tally_split [OF f en, of reg_of] by (auto simp: cinv_def counts_ok_def c' reg_of_def fun_upd_idem)
  then show "cinv e (if ret = None then 0 else e) c'"
    using inv z by (auto simp: cinv_def lists_ok_def linked_def c' view_uncached)
qed

lemma retry_loop_ok:
  assumes "cinv e (if ret = None then 0 else e) c" and "mc_entries c e = Some en" and "storage_context en = None"
  shows "\<exists>ret' c'. retry_loop env e (en_iov en) ret c = Some (ret', c') \<and> cinv e (if ret' = None then 0 else e) c' \<and>
    shrinks (mc_entries c) (mc_entries c') \<and> (ret' \<noteq> None \<longrightarrow> mc_lru c' = [])"
  using assms
proof (induction "mc_lru c" arbitrary: c ret)
  case Nil
  then show ?case using flush_ok [OF Nil.prems(1)] by (subst retry_loop.simps) (auto split: list.splits)
next
  case (Cons x rest)
  show ?case
  proof (cases ret)
    case None
    then show ?thesis using Cons.prems by (subst retry_loop.simps) simp
  next
    case (Some err)
    then have inv: "cinv e e c" using Cons.prems(1) by simp
    obtain c1 where c1: "mr_cache_flush c = Some (True, c1)" "cinv e e c1" "shrinks (mc_entries c) (mc_entries c1)" "mc_lru c1 = rest"
      using flush_ok [OF inv] Cons.hyps(2) by (auto split: list.splits)
    have en: "mc_entries c1 e = Some en" using c1(3) Cons.prems(2,3) by (simp add: shrinks_def)
    obtain ret2 c2 where c2: "call_add_region env c1 e (en_iov en) = (ret2, c2)" by fastforce
    note A = call_add_ok [OF c1(2) en c2]
    obtain ret3 c3 where c3: "retry_loop env e (en_iov en) ret2 c2 = Some (ret3, c3)" "cinv e (if ret3 = None then 0 else e) c3"
      "shrinks (mc_entries c2) (mc_entries c3)" "ret3 \<noteq> None \<longrightarrow> mc_lru c3 = []"
      using Cons.hyps(1) [OF _ A(1)] A(2,3) c1(4) en Cons.prems(3) by metis
    have "retry_loop env e (en_iov en) ret c = Some (ret3, c3)" using Some c1(1) c2 c3(1) by (subst retry_loop.simps) simp
    then show ?thesis using c3(2,3,4) shrinks_trans [OF c1(3)] A(2) by metis
  qed
qed

lemma storage_insert_ok:
  assumes inv: "linked c" and env: "env_ok fresh env" and en: "mc_entries c e = Some en" "storage_context en = None" "region_ok (en_iov en)"
    and new: "\<forall>e' n v. view (mc_entries c) e' = Some (n, v) \<longrightarrow> \<not> hits (en_iov en) v"
  shows "\<exists>st. (storage_insert env c (en_iov en) e = Some (Inl FI_ENOMEM, c\<lparr>mc_storage := st\<rparr>) \<and>
      (\<forall>c'. mc_storage c' = st \<longrightarrow> view (mc_entries c') = view (mc_entries c) \<longrightarrow> linked c')) \<or>
    (\<exists>n. storage_insert env c (en_iov en) e = Some (Inr (),
        c\<lparr>mc_entries := (mc_entries c)(e \<mapsto> en\<lparr>storage_context := Some n\<rparr>), mc_storage := st\<rparr>) \<and>
      (\<forall>c'. mc_storage c' = st \<longrightarrow> view (mc_entries c') = (view (mc_entries c))(e \<mapsto> (n, en_iov en)) \<longrightarrow> linked c'))"
proof -
  obtain s where s: "st_storage (mc_storage c) = Some s" "sinv (view (mc_entries c)) s" using inv by (auto simp: linked_def)
  show ?thesis
  proof (cases "node_alloc env s")
    case None
    then show ?thesis using ins_no_memory [OF s(2) en(1,2) new] inv s
      by (intro exI [of _ "(mc_storage c)\<lparr>st_storage := Some s\<rparr>"]) (auto simp: storage_insert_def linked_def)
  next
    case (Some n)
    then have "fresh s n" using env by (simp add: env_ok_def)
    from ins_new [OF s(2) this en new] obtain s' where
      "ins (Some n) (mc_entries c) s (en_iov en) e = Some (Inr (), (mc_entries c)(e \<mapsto> en\<lparr>storage_context := Some n\<rparr>), s')"
      "sinv ((view (mc_entries c))(e \<mapsto> (n, en_iov en))) s'" by blast
    then show ?thesis using inv s Some
      by (intro exI [of _ "(mc_storage c)\<lparr>st_storage := Some s'\<rparr>"]) (auto simp: storage_insert_def linked_def)
  qed
qed

lemma tally_pending:
  assumes "cinv e q c" "mc_entries c e = Some en"
  shows "tally f ((mc_entries c)(0 := None)) = f e en + tally f ((mc_entries c)(e := None))"
  using assms tally_split [of "mc_entries c" e en f] by (simp add: cinv_def lists_ok_def fun_upd_idem)

lemma count_pending_ok:
  assumes inv: "cinv e 0 c" and en: "mc_entries c e = Some en" "storage_context en = None"
  shows "cinv 0 0 (count_uncached (iov_len (en_iov en)) c)"
proof -
  note T = tally_pending [OF inv en(1)]
  show ?thesis using inv en(2) T [of "cnt_of True"] T [of "cnt_of False"] T [of "size_of True"] T [of "size_of False"]
    by (auto simp: cinv_def lists_ok_def counts_ok_def linked_def count_uncached_def counted view_uncached)
qed

lemma room_left:
  assumes "cinv e q c" and "mc_entries c e = Some en" "storage_context en = None" and "bounded env (mc_entries c)" and "\<not> cache_full env c"
  shows "card (dom (view (mc_entries c))) < unat (max_cnt (cache_params env))"
proof -
  have "cached_cnt c = of_nat (card (dom (view ((mc_entries c)(e := None)))))"
    using assms(1) by (simp add: cinv_def counts_ok_def lists_ok_def tally_cnt del: view_upd)
  also have "view ((mc_entries c)(e := None)) = view (mc_entries c)"
    using assms(2,3) by (simp add: fun_upd_view_None view_uncached(2))
  finally have "cached_cnt c = of_nat (card (dom (view (mc_entries c))))" .
  moreover have "unat (max_cnt (cache_params env)) < 2 ^ 64" using unsigned_less [of "max_cnt (cache_params env)"] by simp
  then have "card (dom (view (mc_entries c))) < 2 ^ 64" using assms(4) by (simp add: bounded_def)
  ultimately have "unat (cached_cnt c) = card (dom (view (mc_entries c)))" by (simp add: unsigned_of_nat take_bit_nat_eq_self)
  then show ?thesis using assms(5) by (auto simp: cache_full_def word_le_nat_alt)
qed

lemma cinv_subscribe:
  "cinv p q (snd (ofi_monitor_subscribe env c addr len)) = cinv p q c"
  "mc_entries (snd (ofi_monitor_subscribe env c addr len)) = mc_entries c"
  by (rule cinv_cong; simp add: ofi_monitor_subscribe_def Let_def) (simp add: ofi_monitor_subscribe_def Let_def)

lemma cinv_update:
  assumes "cinv p q c" "mc_entries c e = Some en" "en_iov en' = en_iov en" "storage_context en' = storage_context en" "use_cnt en' = use_cnt en"
  shows "cinv p q (update_entry e en' c)"
proof -
  have f: "finite (dom (mc_entries c))" using assms(1) by (rule cinv_finite)
  note S = tally_same [OF f assms(2)]
  have v: "view ((mc_entries c)(e \<mapsto> en')) = view (mc_entries c)" using assms(2-4) by (auto simp: fun_eq_iff view_def)
  have i: "idle ((mc_entries c)(e \<mapsto> en')) = idle (mc_entries c)" using assms(2,5) by (auto simp: idle_def)
  have "counts_ok p q (update_entry e en' c)"
    using assms S [of "cnt_of True"] S [of "cnt_of False"] S [of "size_of True"] S [of "size_of False"] S [of reg_of]
    by (simp add: cinv_def counts_ok_def update_entry_def counted)
  moreover have "linked (update_entry e en' c)" using assms(1) v by (simp add: cinv_def linked_def update_entry_def del: view_upd)
  moreover have "lists_ok (update_entry e en' c)"
    using assms i cinv_nonzero [OF assms(1,2)] by (auto simp: cinv_def lists_ok_def update_entry_def entry_ok_def simp del: idle_upd)
  ultimately show ?thesis using assms(1) v by (simp add: cinv_def update_entry_def del: view_upd)
qed

text \<open>A region that has just been put into the storage is counted; when the subscription fails it is taken out
  again.\<close>

lemma cached_region_ok:
  assumes inv: "cinv e 0 c" and bnd: "card (dom (view (mc_entries c))) < unat (max_cnt (cache_params env))"
    and en: "mc_entries c e = Some en" "storage_context en = None" "use_cnt en = 1" "region_ok (en_iov en)"
    and l: "\<forall>c'. mc_storage c' = st \<longrightarrow> view (mc_entries c') = (view (mc_entries c))(e \<mapsto> (n, en_iov en)) \<longrightarrow> linked c'"
    and c': "c' = count_cached (iov_len (en_iov en)) (c\<lparr>mc_entries := (mc_entries c)(e \<mapsto> en\<lparr>storage_context := Some n\<rparr>), mc_storage := st\<rparr>)"
  shows "cinv 0 0 c'" and "bounded env (mc_entries c')" and "held (mc_entries c') = held (mc_entries c)"
proof -
  let ?h = "mc_entries c"
  have L: "lists_ok c" "counts_ok e 0 c" "?h 0 = None" "finite (dom ?h)" using inv by (simp_all add: cinv_def lists_ok_def)
  have h': "mc_entries c' = ?h(e \<mapsto> en\<lparr>storage_context := Some n\<rparr>)" by (simp add: c' count_cached_def)
  have ne: "e \<noteq> 0" "view ?h e = None" "view ?h 0 = None" using en(1,2) L(3) cinv_nonzero [OF inv] by (auto simp: view_uncached)
  have z: "(mc_entries c')(0 := None) = mc_entries c'" using L(3) ne(1) by (simp add: h' fun_upd_idem_iff)
  have t: "tally f (mc_entries c') = f e (en\<lparr>storage_context := Some n\<rparr>) + tally f (?h(e := None))" for f :: "nat \<Rightarrow> ofi_mr_entry \<Rightarrow> size_t"
    unfolding h' by (rule tally_upd [OF L(4)])
  have "tally reg_of (mc_entries c') = tally reg_of ?h"
    using tally_same [OF L(4) en(1), of reg_of "en\<lparr>storage_context := Some n\<rparr>" 0] z L(3) by (simp add: h' reg_of_def fun_upd_idem)
  then have "counts_ok 0 0 c'"
    using L(2,3) t [of "cnt_of True"] t [of "cnt_of False"] t [of "size_of True"] t [of "size_of False"]
    unfolding counts_ok_def z by (simp add: c' count_cached_def counted fun_upd_idem)
  moreover have "lists_ok c'"
    using L(1) en ne(1) by (auto simp: lists_ok_def c' count_cached_def entry_ok_def idle_def)
  moreover have "linked c'" using l by (simp add: c' count_cached_def)
  ultimately show "cinv 0 0 c'" using ne by (simp add: cinv_def h')
  show "bounded env (mc_entries c')" using bnd ne(2) finite_view [OF L(4)] by (simp add: bounded_def h' domIff)
  show "held (mc_entries c') = held ?h" using en(1) unfolding h' by (intro held_same) simp_all
qed

lemma subscribe_region_ok:
  assumes inv: "cinv 0 0 c" "bounded env (mc_entries c)" and e: "view (mc_entries c) e = Some (n, v)"
  shows "\<exists>c'. subscribe_region env c iov e = Some (Inr e, c') \<and> cinv 0 0 c' \<and> bounded env (mc_entries c') \<and>
    held (mc_entries c') = held (mc_entries c)"
proof -
  obtain ret c2 where c2: "ofi_monitor_subscribe env c (iov_base iov) (iov_len iov) = (ret, c2)" by fastforce
  have i2: "cinv 0 0 c2" "mc_entries c2 = mc_entries c" using inv(1) cinv_subscribe(1) [of 0 0 env c] cinv_subscribe(2) [of env c] c2 by (metis snd_conv)+
  obtain en where en: "mc_entries c2 e = Some en" "storage_context en = Some n" "en_iov en = v" using view_SomeD [OF e] i2(2) by auto
  show ?thesis
  proof (cases ret)
    case None
    let ?c = "update_entry e (en\<lparr>subscribed := True\<rparr>) c2"
    have "subscribe_region env c iov e = Some (Inr e, ?c)" using c2 None en(1) by (simp add: subscribe_region_def)
    moreover have "cinv 0 0 ?c" using cinv_update [OF i2(1) en(1)] by simp
    moreover have "held (mc_entries ?c) = held (mc_entries c)"
      using held_same [of "mc_entries c2", OF en(1)] i2(2) by (simp add: update_entry_def del: held_upd)
    moreover have "view (mc_entries ?c) = view (mc_entries c)" using e en(2,3) i2(2) by (simp add: update_entry_def fun_upd_idem)
    ultimately show ?thesis using inv(2) by (simp add: bounded_def)
  next
    case (Some err)
    obtain c3 where c3: "util_mr_uncache_entry c2 e = Some c3" "cinv 0 0 c3" "shrinks (mc_entries c2) (mc_entries c3)"
      using uncache_entry_ok [OF i2(1)] i2(2) e by metis
    have "subscribe_region env c iov e = Some (Inr e, c3)" using c2 Some c3(1) by (simp add: subscribe_region_def)
    then show ?thesis using c3(2,3) inv(2) i2 bounded_shrinks [OF cinv_finite [OF i2(1)]] by (auto simp: shrinks_def)
  qed
qed

lemma keep_region_ok:
  assumes inv: "cinv e 0 c" and env: "env_ok fresh env" and bnd: "bounded env (mc_entries c)"
    and en: "mc_entries c e = Some en" "storage_context en = None" "use_cnt en = 1" "region_ok (en_iov en)"
    and new: "\<forall>e' n v. view (mc_entries c) e' = Some (n, v) \<longrightarrow> \<not> hits (en_iov en) v"
  shows "\<exists>r c'. keep_region env c (en_iov en) e = Some (r, c') \<and> cinv 0 0 c' \<and> bounded env (mc_entries c') \<and>
    (case r of Inr e' \<Rightarrow> e' = e \<and> held (mc_entries c') = held (mc_entries c) | Inl _ \<Rightarrow> held (mc_entries c') = (held (mc_entries c))(e := None))"
proof -
  let ?h = "mc_entries c"
  have L: "lists_ok c" "counts_ok e 0 c" "linked c" "?h 0 = None" "finite (dom ?h)" using inv by (simp_all add: cinv_def lists_ok_def)
  have v: "view ?h e = None" "(view ?h)(e := None) = view ?h" and ne: "e \<noteq> 0" using en(1,2) cinv_nonzero [OF inv] by (auto simp: view_uncached(2) fun_upd_view_None)
  have vz: "view ?h 0 = None" using L(4) by (rule view_uncached)
  note T = tally_pending [OF inv en(1)]
  show ?thesis
  proof (cases "cache_full env c")
    case True
    let ?c = "count_uncached (iov_len (en_iov en)) c"
    have "cinv 0 0 ?c" by (rule count_pending_ok [OF inv en(1,2)])
    then show ?thesis using True bnd by (simp add: keep_region_def count_uncached_def)
  next
    case False
    from storage_insert_ok [OF L(3) env en(1,2,4) new] obtain st where st: "(storage_insert env c (en_iov en) e = Some (Inl FI_ENOMEM, c\<lparr>mc_storage := st\<rparr>) \<and>
      (\<forall>c'. mc_storage c' = st \<longrightarrow> view (mc_entries c') = view ?h \<longrightarrow> linked c')) \<or>
    (\<exists>n. storage_insert env c (en_iov en) e = Some (Inr (), c\<lparr>mc_entries := ?h(e \<mapsto> en\<lparr>storage_context := Some n\<rparr>), mc_storage := st\<rparr>) \<and>
      (\<forall>c'. mc_storage c' = st \<longrightarrow> view (mc_entries c') = (view ?h)(e \<mapsto> (n, en_iov en)) \<longrightarrow> linked c'))" by blast
    then show ?thesis
    proof (elim disjE exE conjE)
      assume r: "storage_insert env c (en_iov en) e = Some (Inl FI_ENOMEM, c\<lparr>mc_storage := st\<rparr>)"
        "\<forall>c'. mc_storage c' = st \<longrightarrow> view (mc_entries c') = view ?h \<longrightarrow> linked c'"
      let ?c = "c\<lparr>mc_storage := st, mc_entries := ?h(e := None), mc_hist := mc_hist c @ [DeleteRegion e (en_iov en)]\<rparr>"
      have "keep_region env c (en_iov en) e = Some (Inl FI_ENOMEM, ?c)"
        using False r(1) en(1,2) by (simp add: keep_region_def util_mr_free_entry_def entry_free_def)
      moreover have "counts_ok 0 0 ?c"
        using L(2,4) T [of reg_of] by (auto simp: counts_ok_def counted fun_upd_idem)
      moreover have "lists_ok ?c" using L(1) en(1,3) by (auto simp: lists_ok_def idle_def)
      moreover have "linked ?c" using r(2) v(2) by simp
      moreover have "bounded env (mc_entries ?c)" using bnd v(2) by (simp add: bounded_def)
      ultimately show ?thesis using vz by (simp add: cinv_def)
    next
      fix n
      assume r: "storage_insert env c (en_iov en) e = Some (Inr (), c\<lparr>mc_entries := ?h(e \<mapsto> en\<lparr>storage_context := Some n\<rparr>), mc_storage := st\<rparr>)"
        "\<forall>c'. mc_storage c' = st \<longrightarrow> view (mc_entries c') = (view ?h)(e \<mapsto> (n, en_iov en)) \<longrightarrow> linked c'"
      define c1 where "c1 = count_cached (iov_len (en_iov en)) (c\<lparr>mc_entries := ?h(e \<mapsto> en\<lparr>storage_context := Some n\<rparr>), mc_storage := st\<rparr>)"
      note C = cached_region_ok [OF inv room_left [OF inv en(1,2) bnd False] en r(2) c1_def]
      have e1: "view (mc_entries c1) e = Some (n, en_iov en)" by (simp add: c1_def count_cached_def)
      have "keep_region env c (en_iov en) e = subscribe_region env c1 (en_iov en) e"
        using False r(1) by (simp add: keep_region_def subscribe_region_def flip: c1_def)
      then show ?thesis using subscribe_region_ok [OF C(1,2) e1, of "en_iov en"] C(3) by auto
    qed
  qed
qed

end

end
