(* ===== verification/Ofi_Mr_Cache_Laws.thy ===== *)
theory Ofi_Mr_Cache_Laws
  imports Ofi_Mr_Cache_Inv
begin

section \<open>Laws of the registration cache\<close>

text \<open>
  What the operations of the cache do for every lawful storage, the laws of the storage in a red-black map, and
  the properties of the cache over it.
\<close>

definition live_below :: "mr_heap \<Rightarrow> bool" where
  "live_below h \<longleftrightarrow> (\<forall>e en. h e = Some en \<longrightarrow> use_cnt en < 2 ^ 31 - 1)"

lemma within_trans: "ofi_iov_within k v \<Longrightarrow> ofi_iov_within v w \<Longrightarrow> ofi_iov_within k w"
  by (auto simp: ofi_iov_within_def)

text \<open>An entry that covers the region has one more user, and all other entries in use are as before.\<close>

definition granted :: "(nat \<rightharpoonup> int \<times> iovec) \<Rightarrow> iovec \<Rightarrow> nat \<Rightarrow> (nat \<rightharpoonup> int \<times> iovec) \<Rightarrow> bool" where
  "granted H k e H' \<longleftrightarrow> (\<exists>v. ofi_iov_within k v \<and> (case H e of
     None \<Rightarrow> H' = H(e \<mapsto> (1, v))
   | Some (n, w) \<Rightarrow> v = w \<and> H' = H(e \<mapsto> (n + 1, v))))"

text \<open>One user of an entry less.\<close>

definition released :: "(nat \<rightharpoonup> int \<times> iovec) \<Rightarrow> nat \<Rightarrow> (nat \<rightharpoonup> int \<times> iovec) \<Rightarrow> bool" where
  "released H e H' \<longleftrightarrow> (\<exists>n v. H e = Some (n, v) \<and> H' = H(e := if n = 1 then None else Some (n - 1, v)))"

text \<open>
  The states that are reached from a state by calls of the cache: searches for proper regions, lookups and
  registrations, releases of entries in use, flushes and notifications, in any order.  The numbers of users
  stay below the largest \<open>int\<close>.
\<close>

inductive mr_run :: "'s mr_env \<Rightarrow> 's ofi_mr_cache \<Rightarrow> 's ofi_mr_cache \<Rightarrow> bool" for env c0 where
  start: "mr_run env c0 c0"
| search: "mr_run env c0 c \<Longrightarrow> attr_iov attr = Some k \<Longrightarrow> region_ok k \<Longrightarrow> live_below (mc_entries c) \<Longrightarrow>
    ofi_mr_cache_search env c attr = Some (r, c') \<Longrightarrow> mr_run env c0 c'"
| find: "mr_run env c0 c \<Longrightarrow> attr_iov attr = Some k \<Longrightarrow> live_below (mc_entries c) \<Longrightarrow>
    ofi_mr_cache_find c attr = Some (f, c') \<Longrightarrow> mr_run env c0 c'"
| reg: "mr_run env c0 c \<Longrightarrow> attr_iov attr = Some k \<Longrightarrow> ofi_mr_cache_reg env c attr = Some (r, c') \<Longrightarrow> mr_run env c0 c'"
| delete: "mr_run env c0 c \<Longrightarrow> held (mc_entries c) e \<noteq> None \<Longrightarrow> ofi_mr_cache_delete c e = Some c' \<Longrightarrow> mr_run env c0 c'"
| flush: "mr_run env c0 c \<Longrightarrow> ofi_mr_cache_flush c = Some (b, c') \<Longrightarrow> mr_run env c0 c'"
| notify: "mr_run env c0 c \<Longrightarrow> ofi_mr_cache_notify c addr len = Some c' \<Longrightarrow> mr_run env c0 c'"

context mr_storage
begin

lemma cinv_entry: "cinv p q c \<Longrightarrow> mc_entries c e = Some en \<Longrightarrow> entry_ok en"
  by (simp add: cinv_def lists_ok_def)

lemma alloc_ok:
  assumes inv: "cinv 0 0 c" and new: "mc_entries c e = None" "e \<noteq> 0"
    and c1: "c1 = update_entry e \<lparr>en_iov = iov, storage_context = None, subscribed = b, use_cnt = 1\<rparr> c"
  shows "cinv e e c1" "view (mc_entries c1) = view (mc_entries c)"
    "mc_entries c1 e = Some \<lparr>en_iov = iov, storage_context = None, subscribed = b, use_cnt = 1\<rparr>"
    "held (mc_entries c1) = (held (mc_entries c))(e \<mapsto> (1, iov))" "mc_entries c1 = (mc_entries c)(e := mc_entries c1 e)"
proof -
  show e: "mc_entries c1 e = Some \<lparr>en_iov = iov, storage_context = None, subscribed = b, use_cnt = 1\<rparr>"
    "mc_entries c1 = (mc_entries c)(e := mc_entries c1 e)" "held (mc_entries c1) = (held (mc_entries c))(e \<mapsto> (1, iov))"
    by (simp_all add: c1 update_entry_def)
  show v: "view (mc_entries c1) = view (mc_entries c)" using new(1) by (simp add: c1 update_entry_def view_uncached fun_upd_view_None)
  have z: "mc_entries c 0 = None" using inv by (simp add: cinv_def lists_ok_def)
  have "counts_ok e e c1" using inv new z by (simp add: cinv_def counts_ok_def c1 update_entry_def fun_upd_idem)
  moreover have "lists_ok c1" using inv new by (auto simp: cinv_def lists_ok_def c1 update_entry_def entry_ok_def idle_def)
  moreover have "linked c1" using inv v by (simp add: cinv_def linked_def c1 update_entry_def del: view_upd)
  ultimately show "cinv e e c1" using v new(1) by (simp add: cinv_def view_uncached)
qed

lemma free_pending_ok:
  assumes inv: "cinv e e c" and en: "mc_entries c e = Some en" "use_cnt en = 1"
  shows "cinv 0 0 (entry_free e c)"
proof -
  have v: "view (mc_entries c) e = None" "mc_entries c 0 = None" using inv by (simp_all add: cinv_def lists_ok_def)
  then have v': "view ((mc_entries c)(e := None)) = view (mc_entries c)" by (simp add: fun_upd_view_None)
  have "counts_ok 0 0 (entry_free e c)" using inv v(2) by (simp add: cinv_def counts_ok_def entry_free_def fun_upd_idem)
  moreover have "lists_ok (entry_free e c)" using inv en by (auto simp: cinv_def lists_ok_def entry_free_def idle_def)
  moreover have "linked (entry_free e c)" using inv v' by (simp add: cinv_def linked_def entry_free_def del: view_upd)
  ultimately show ?thesis using v by (simp add: cinv_def entry_free_def view_uncached)
qed

lemma create_ok:
  assumes inv: "cinv 0 0 c" and env: "env_ok fresh env" and bnd: "bounded env (mc_entries c)" and k: "region_ok k"
    and new: "\<forall>e n v. view (mc_entries c) e = Some (n, v) \<longrightarrow> \<not> hits k v"
  shows "\<exists>r c'. util_mr_cache_create env c k = Some (r, c') \<and> cinv 0 0 c' \<and> bounded env (mc_entries c') \<and>
    (case r of Inr e \<Rightarrow> held (mc_entries c) e = None \<and> held (mc_entries c') = (held (mc_entries c))(e \<mapsto> (1, k))
     | Inl _ \<Rightarrow> held (mc_entries c') = held (mc_entries c))"
proof (cases "entry_alloc env (mc_entries c)")
  case None
  then show ?thesis using inv bnd by (simp add: util_mr_cache_create_def)
next
  case (Some a)
  obtain e b where a: "a = (e, b)" by (cases a)
  define en where "en = \<lparr>en_iov = k, storage_context = None, subscribed = b, use_cnt = 1\<rparr>"
  define c1 where "c1 = update_entry e en c"
  have ne: "mc_entries c e = None" "e \<noteq> 0" using env Some a by (auto simp: env_ok_def)
  note A = alloc_ok [OF inv ne c1_def [unfolded en_def], folded en_def]
  have en: "storage_context en = None" "en_iov en = k" "use_cnt en = 1" by (simp_all add: en_def)
  obtain ret2 c2 where c2: "call_add_region env c1 e (en_iov en) = (ret2, c2)" by fastforce
  note B = call_add_ok [OF A(1,3) c2]
  obtain ret3 c3 where c3: "retry_loop env e (en_iov en) ret2 c2 = Some (ret3, c3)" "cinv e (if ret3 = None then 0 else e) c3"
    "shrinks (mc_entries c2) (mc_entries c3)" "ret3 \<noteq> None \<longrightarrow> mc_lru c3 = []"
    using retry_loop_ok [OF B(1)] A(3) B(2) en(1) by metis
  have E: "util_mr_cache_create env c k = (case ret3 of
       Some err \<Rightarrow> if mc_lru c3 \<noteq> [] then None else Some (Inl err, entry_free e c3)
     | None \<Rightarrow> keep_region env c3 k e)"
    using Some a c2 c3(1) en(2) by (simp add: util_mr_cache_create_def Let_def flip: en_def c1_def)
  have e3: "mc_entries c3 e = Some en" and h3: "held (mc_entries c3) = (held (mc_entries c))(e \<mapsto> (1, k))" and v3: "view (mc_entries c3) \<subseteq>\<^sub>m view (mc_entries c)"
    using c3(3) A(2,3,4) B(2) en by (auto simp: shrinks_def)
  have n: "held (mc_entries c) e = None" using ne(1) by (rule held_idle)
  have b3: "bounded env (mc_entries c3)"
    using bounded_shrinks [OF cinv_finite [OF B(1)] _ c3(3)] bnd B(2) A(2) by (simp add: bounded_def)
  show ?thesis
  proof (cases ret3)
    case None
    have "\<forall>e' n v. view (mc_entries c3) e' = Some (n, v) \<longrightarrow> \<not> hits (en_iov en) v"
      using new v3 en(2) unfolding map_le_def by (metis domI)
    from keep_region_ok [OF _ env b3 e3 en(1,3) _ this] obtain r c' where r: "keep_region env c3 k e = Some (r, c')" "cinv 0 0 c'"
      "bounded env (mc_entries c')" "case r of Inr e' \<Rightarrow> e' = e \<and> held (mc_entries c') = held (mc_entries c3)
        | Inl _ \<Rightarrow> held (mc_entries c') = (held (mc_entries c3))(e := None)"
      using c3(2) None k en(2) by auto
    then show ?thesis using E None h3 n by (cases r) (simp_all add: fun_upd_idem)
  next
    case (Some err)
    then have i: "cinv e e c3" "mc_lru c3 = []" using c3(2,4) by simp_all
    have "held (mc_entries (entry_free e c3)) = held (mc_entries c)" using h3 n by (simp add: entry_free_def fun_upd_idem)
    moreover have "bounded env (mc_entries (entry_free e c3))"
      using b3 e3 en(1) by (simp add: entry_free_def bounded_def fun_upd_view_None view_uncached(2))
    ultimately show ?thesis using E Some i free_pending_ok [OF i(1) e3 en(3)] by simp
  qed
qed

lemma merge_loop_ok:
  assumes "cinv 0 0 c" and "view (mc_entries c) e = Some (n, v)" and "region_ok k"
  shows "\<exists>k' c'. merge_loop c k e = Some (k', c') \<and> cinv 0 0 c' \<and> shrinks (mc_entries c) (mc_entries c') \<and>
    region_ok k' \<and> ofi_iov_within k k' \<and> (\<forall>e n v. view (mc_entries c') e = Some (n, v) \<longrightarrow> \<not> hits k' v)"
  using assms
proof (induction "card (dom (view (mc_entries c)))" arbitrary: c e n v k rule: less_induct)
  case less
  obtain en where en: "mc_entries c e = Some en" "storage_context en = Some n" "en_iov en = v" using view_SomeD [OF less.prems(2)] by blast
  have "entry_ok en" using less.prems(1) en(1) by (simp add: cinv_def lists_ok_def)
  then have v: "region_ok v" using en(2,3) by (simp add: entry_ok_def)
  let ?k = "merged_iov k v"
  note M = merged_ok [OF less.prems(3) v]
  define c1 where "c1 = update_entry e (en\<lparr>subscribed := False\<rparr>) c"
  have i1: "cinv 0 0 c1" unfolding c1_def using cinv_update [OF less.prems(1) en(1)] by simp
  have s1: "shrinks (mc_entries c) (mc_entries c1)"
    using shrinks_upd [of "mc_entries c", OF en(1,2), of "en\<lparr>subscribed := False\<rparr>"] en(2) by (simp add: c1_def update_entry_def)
  have v1: "view (mc_entries c1) = view (mc_entries c)"
    using less.prems(2) en by (simp add: c1_def update_entry_def fun_upd_idem)
  obtain c2 where c2: "util_mr_uncache_entry c1 e = Some c2" "cinv 0 0 c2" "shrinks (mc_entries c1) (mc_entries c2)"
    "view (mc_entries c2) = (view (mc_entries c))(e := None)" using uncache_entry_ok [OF i1] less.prems(2) v1 by metis
  have s2: "shrinks (mc_entries c) (mc_entries c2)" using shrinks_trans [OF s1 c2(3)] .
  have step: "merge_loop c k e = Option.bind (storage_find c2 ?k) (\<lambda>r. case r of Some e' \<Rightarrow> merge_loop c2 ?k e' | None \<Rightarrow> Some (?k, c2))"
    using en(1,3) c2(1) by (subst merge_loop.simps) (simp add: Let_def flip: c1_def)
  from storage_find_ok [OF cinv_linked [OF c2(2)], of ?k] show ?case
  proof (elim disjE conjE exE)
    assume "storage_find c2 ?k = Some None" "\<forall>e n v. view (mc_entries c2) e = Some (n, v) \<longrightarrow> \<not> hits ?k v"
    then show ?thesis using step c2(2) s2 M by simp
  next
    fix e' n' v'
    assume f: "storage_find c2 ?k = Some (Some e')" "view (mc_entries c2) e' = Some (n', v')" "hits ?k v'"
    have "finite (dom (view (mc_entries c)))" using cinv_finite [OF less.prems(1)] by (rule finite_view)
    then have "card (dom (view (mc_entries c2))) < card (dom (view (mc_entries c)))"
      unfolding c2(4) using less.prems(2) by (intro psubset_card_mono) auto
    from less.hyps [OF this c2(2) f(2) M(1)] obtain k' c' where r: "merge_loop c2 ?k e' = Some (k', c')" "cinv 0 0 c'"
      "shrinks (mc_entries c2) (mc_entries c')" "region_ok k'" "ofi_iov_within ?k k'"
      "\<forall>e n v. view (mc_entries c') e = Some (n, v) \<longrightarrow> \<not> hits k' v" by blast
    then show ?thesis using step f(1) shrinks_trans [OF s2 r(3)] within_trans [OF M(2) r(5)] by simp
  qed
qed

lemma merge_ok:
  assumes inv: "cinv 0 0 c" and env: "env_ok fresh env" and bnd: "bounded env (mc_entries c)" and k: "region_ok k"
    and e: "view (mc_entries c) e = Some (n, v)"
  shows "\<exists>r c'. util_mr_cache_merge env c k e = Some (r, c') \<and> cinv 0 0 c' \<and> bounded env (mc_entries c') \<and>
    (case r of Inr e \<Rightarrow> granted (held (mc_entries c)) k e (held (mc_entries c')) | Inl _ \<Rightarrow> held (mc_entries c') = held (mc_entries c))"
proof -
  obtain k' c2 where c2: "merge_loop c k e = Some (k', c2)" "cinv 0 0 c2" "shrinks (mc_entries c) (mc_entries c2)" "region_ok k'"
    "ofi_iov_within k k'" "\<forall>e n v. view (mc_entries c2) e = Some (n, v) \<longrightarrow> \<not> hits k' v"
    using merge_loop_ok [OF inv e k] by blast
  have b2: "bounded env (mc_entries c2)" using bounded_shrinks [OF cinv_finite [OF inv] bnd c2(3)] .
  have h2: "held (mc_entries c2) = held (mc_entries c)" using c2(3) by (simp add: shrinks_def)
  obtain r c' where r: "util_mr_cache_create env c2 k' = Some (r, c')" "cinv 0 0 c'" "bounded env (mc_entries c')"
    "case r of Inr e \<Rightarrow> held (mc_entries c2) e = None \<and> held (mc_entries c') = (held (mc_entries c2))(e \<mapsto> (1, k'))
     | Inl _ \<Rightarrow> held (mc_entries c') = held (mc_entries c2)" using create_ok [OF c2(2) env b2 c2(4,6)] by blast
  have "util_mr_cache_merge env c k e = Some (r, c')" using c2(1) r(1) by (simp add: util_mr_cache_merge_def)
  then show ?thesis using r(2-4) h2 c2(5) by (cases r) (auto simp: granted_def intro: exI [of _ k'])
qed

lemma set_users_ok:
  assumes inv: "cinv 0 0 c" and en: "mc_entries c e = Some en" and u: "0 \<le> u" "storage_context en = None \<longrightarrow> 0 < u"
    and c': "mc_entries c' = (mc_entries c)(e \<mapsto> en\<lparr>use_cnt := u\<rparr>)" "mc_storage c' = mc_storage c" "mc_hist c' = mc_hist c"
      "cached_cnt c' = cached_cnt c" "cached_size c' = cached_size c" "uncached_cnt c' = uncached_cnt c" "uncached_size c' = uncached_size c"
    and l: "distinct (mc_lru c')" "set (mc_lru c') = idle (mc_entries c')"
  shows "cinv 0 0 c'" and "view (mc_entries c') = view (mc_entries c)"
proof -
  have f: "finite (dom (mc_entries c))" using inv by (rule cinv_finite)
  note S = tally_same [OF f en]
  show v: "view (mc_entries c') = view (mc_entries c)" using en by (auto simp: c'(1) fun_eq_iff view_def)
  have "counts_ok 0 0 c'"
    using inv S [of "cnt_of True"] S [of "cnt_of False"] S [of "size_of True"] S [of "size_of False"] S [of reg_of]
    by (simp add: cinv_def counts_ok_def c' counted)
  moreover have "linked c'" using inv v by (simp add: cinv_def linked_def c'(2))
  moreover have "lists_ok c'"
    using inv en u l cinv_nonzero [OF inv en] by (auto simp: cinv_def lists_ok_def c'(1) entry_ok_def simp del: idle_upd)
  ultimately show "cinv 0 0 c'" using inv v by (simp add: cinv_def)
qed

lemma use_entry_ok:
  assumes inv: "cinv 0 0 c" and en: "mc_entries c e = Some en" "use_cnt en < 2 ^ 31 - 1"
  shows "\<exists>c'. use_entry c e = Some c' \<and> cinv 0 0 c' \<and> mc_hist c' = mc_hist c \<and> view (mc_entries c') = view (mc_entries c) \<and>
    held (mc_entries c') = (held (mc_entries c))(e \<mapsto> (use_cnt en + 1, en_iov en))"
proof -
  have L: "distinct (mc_lru c)" "set (mc_lru c) = idle (mc_entries c)" and u: "0 \<le> use_cnt en"
    using inv en(1) by (auto simp: cinv_def lists_ok_def entry_ok_def)
  define c' where "c' = c\<lparr>hit_cnt := hit_cnt c + 1, mc_entries := (mc_entries c)(e \<mapsto> en\<lparr>use_cnt := use_cnt en + 1\<rparr>),
    mc_lru := (if use_cnt en = 0 then remove1 e (mc_lru c) else mc_lru c)\<rparr>"
  have "e \<in> set (mc_lru c) \<longleftrightarrow> use_cnt en = 0" using L(2) en(1) by (auto simp: idle_def)
  then have "use_entry c e = Some c'" "distinct (mc_lru c')" "set (mc_lru c') = idle (mc_entries c')"
    using en u L by (auto simp: use_entry_def lru_remove_def update_entry_def c'_def)
  moreover have "cinv 0 0 c'" "view (mc_entries c') = view (mc_entries c)"
    using set_users_ok [OF inv en(1), of "use_cnt en + 1" c'] u calculation(2,3) by (simp_all add: c'_def del: idle_upd)
  moreover have "held (mc_entries c') = (held (mc_entries c))(e \<mapsto> (use_cnt en + 1, en_iov en))"
    using u by (simp add: c'_def)
  moreover have "mc_hist c' = mc_hist c" by (simp add: c'_def)
  ultimately show ?thesis by blast
qed

lemma cinv_counter: "cinv p q (c\<lparr>search_cnt := x\<rparr>) = cinv p q c" "cinv p q (c\<lparr>notify_cnt := x\<rparr>) = cinv p q c"
  by (rule cinv_cong; simp)+

lemma use_entry_granted:
  assumes inv: "cinv 0 0 c" and en: "mc_entries c e = Some en" "use_cnt en < 2 ^ 31 - 1" and k: "ofi_iov_within k (en_iov en)"
  shows "\<exists>c'. use_entry c e = Some c' \<and> cinv 0 0 c' \<and> mc_hist c' = mc_hist c \<and> view (mc_entries c') = view (mc_entries c) \<and> granted (held (mc_entries c)) k e (held (mc_entries c'))"
proof -
  have "0 \<le> use_cnt en" using inv en(1) by (auto simp: cinv_def lists_ok_def entry_ok_def)
  then have "held (mc_entries c) e = (if use_cnt en = 0 then None else Some (use_cnt en, en_iov en))" using en(1) by (simp add: held_def)
  then show ?thesis using use_entry_ok [OF inv en] k by (cases "use_cnt en = 0") (auto simp: granted_def)
qed

lemma users_bound:
  assumes "live_below h" "held h' = held h" "h' e = Some en"
  shows "use_cnt en < 2 ^ 31 - 1"
proof (cases "0 < use_cnt en")
  case True
  then have "held h e = Some (use_cnt en, en_iov en)" using assms(2,3) by (simp add: held_def flip: assms(2))
  then show ?thesis using assms(1) by (auto simp: held_def live_below_def bind_eq_Some_conv split: if_splits)
qed simp

lemma search_ok:
  assumes inv: "cinv 0 0 c" and env: "env_ok fresh env" and bnd: "bounded env (mc_entries c)" and lb: "live_below (mc_entries c)"
    and k: "attr_iov attr = Some k" "region_ok k"
  shows "\<exists>r c'. ofi_mr_cache_search env c attr = Some (r, c') \<and> cinv 0 0 c' \<and> bounded env (mc_entries c') \<and>
    (case r of Inr e \<Rightarrow> granted (held (mc_entries c)) k e (held (mc_entries c')) | Inl _ \<Rightarrow> held (mc_entries c') = held (mc_entries c))"
proof -
  have "cinv 0 0 (c\<lparr>search_cnt := search_cnt c + 1\<rparr>)" using inv by (simp add: cinv_counter)
  from flush_loop_ok [OF this, of env] obtain c1 where c1: "flush_loop env (c\<lparr>search_cnt := search_cnt c + 1\<rparr>) = Some c1" "cinv 0 0 c1"
    "shrinks (mc_entries c) (mc_entries c1)" by auto
  have b1: "bounded env (mc_entries c1)" using bounded_shrinks [OF cinv_finite [OF inv] bnd c1(3)] .
  have h1: "held (mc_entries c1) = held (mc_entries c)" using c1(3) by (simp add: shrinks_def)
  from storage_find_ok [OF cinv_linked [OF c1(2)], of k] show ?thesis
  proof (elim disjE conjE exE)
    assume f: "storage_find c1 k = Some None" "\<forall>e n v. view (mc_entries c1) e = Some (n, v) \<longrightarrow> \<not> hits k v"
    obtain r c' where r: "util_mr_cache_create env c1 k = Some (r, c')" "cinv 0 0 c'" "bounded env (mc_entries c')"
      "case r of Inr e \<Rightarrow> held (mc_entries c1) e = None \<and> held (mc_entries c') = (held (mc_entries c1))(e \<mapsto> (1, k))
       | Inl _ \<Rightarrow> held (mc_entries c') = held (mc_entries c1)" using create_ok [OF c1(2) env b1 k(2) f(2)] by blast
    have "ofi_mr_cache_search env c attr = Some (r, c')" using k(1) c1(1) f(1) r(1) by (simp add: ofi_mr_cache_search_def)
    then show ?thesis using r(2-4) h1 by (cases r) (auto simp: granted_def ofi_iov_within_def intro: exI [of _ k])
  next
    fix e n v
    assume f: "storage_find c1 k = Some (Some e)" "view (mc_entries c1) e = Some (n, v)" "hits k v"
    obtain en where en: "mc_entries c1 e = Some en" "en_iov en = v" using view_SomeD [OF f(2)] by blast
    have E: "ofi_mr_cache_search env c attr = (if \<not> ofi_iov_within k v then util_mr_cache_merge env c1 k e
       else Option.bind (use_entry c1 e) (\<lambda>c. Some (Inr e, c)))"
      using k(1) c1(1) f(1) en by (simp add: ofi_mr_cache_search_def)
    show ?thesis
    proof (cases "ofi_iov_within k v")
      case True
      obtain c' where c': "use_entry c1 e = Some c'" "cinv 0 0 c'" "view (mc_entries c') = view (mc_entries c1)" "granted (held (mc_entries c1)) k e (held (mc_entries c'))"
        using use_entry_granted [OF c1(2) en(1) users_bound [OF lb h1 en(1)]] True en(2) by blast
      then show ?thesis using E True b1 h1 by (simp add: bounded_def granted_def)
    next
      case False
      obtain r c' where r: "util_mr_cache_merge env c1 k e = Some (r, c')" "cinv 0 0 c'" "bounded env (mc_entries c')"
        "case r of Inr e \<Rightarrow> granted (held (mc_entries c1)) k e (held (mc_entries c')) | Inl _ \<Rightarrow> held (mc_entries c') = held (mc_entries c1)"
        using merge_ok [OF c1(2) env b1 k(2) f(2)] by blast
      then show ?thesis using E False by (cases r) (simp_all add: h1)
    qed
  qed
qed

lemma find_covering:
  assumes inv: "cinv p q c" and v: "view (mc_entries c) e = Some (n, v)" and k: "region_ok k" "ofi_iov_within k v"
  shows "\<exists>e' n' v'. storage_find c k = Some (Some e') \<and> view (mc_entries c) e' = Some (n', v') \<and> ofi_iov_within k v'"
proof -
  obtain en where "mc_entries c e = Some en" "storage_context en = Some n" "en_iov en = v" using view_SomeD [OF v] by blast
  then have "region_ok v" using inv by (auto simp: cinv_def lists_ok_def entry_ok_def)
  then have h: "hits k v" using covered_hits k by blast
  obtain s where s: "sinv (view (mc_entries c)) s" using cinv_linked [OF inv] by (auto simp: linked_def)
  obtain e' n' v' where f: "storage_find c k = Some (Some e')" "view (mc_entries c) e' = Some (n', v')" "hits k v'"
    using storage_find_ok [OF cinv_linked [OF inv], of k] v h by blast
  have "ofi_iov_within k v'"
  proof (cases "e' = e")
    case False
    then show ?thesis using apart [OF s v f(2)] hits_covered [OF k(2) f(3)] by blast
  qed (use v f(2) k(2) in simp)
  then show ?thesis using f by blast
qed

lemma find_ok:
  assumes inv: "cinv 0 0 c" and lb: "live_below (mc_entries c)" and k: "attr_iov attr = Some k"
  shows "\<exists>r c'. ofi_mr_cache_find c attr = Some (r, c') \<and> cinv 0 0 c' \<and> view (mc_entries c') = view (mc_entries c) \<and> mc_hist c' = mc_hist c \<and>
    (case r of Some e \<Rightarrow> granted (held (mc_entries c)) k e (held (mc_entries c')) \<and> (\<exists>n v. view (mc_entries c) e = Some (n, v) \<and> ofi_iov_within k v)
     | None \<Rightarrow> held (mc_entries c') = held (mc_entries c) \<and> (\<forall>e n v. region_ok k \<longrightarrow> view (mc_entries c) e = Some (n, v) \<longrightarrow> \<not> ofi_iov_within k v))"
proof -
  define c1 where "c1 = c\<lparr>search_cnt := search_cnt c + 1\<rparr>"
  have c1: "cinv 0 0 c1" "mc_entries c1 = mc_entries c" "mc_hist c1 = mc_hist c" using inv by (simp_all add: c1_def cinv_counter)
  have E: "ofi_mr_cache_find c attr = Option.bind (storage_find c1 k) (\<lambda>r. case r of
      None \<Rightarrow> Some (None, c1)
    | Some e \<Rightarrow> Option.bind (mc_entries c1 e) (\<lambda>en. if \<not> ofi_iov_within k (en_iov en) then Some (None, c1)
                  else Option.bind (use_entry c1 e) (\<lambda>c. Some (Some e, c))))"
    unfolding ofi_mr_cache_find_def Let_def c1_def k Option.bind.bind_lunit by (rule refl)
  have none: "\<forall>e n v. region_ok k \<longrightarrow> view (mc_entries c) e = Some (n, v) \<longrightarrow> \<not> ofi_iov_within k v"
    if "\<forall>e' n' v'. storage_find c1 k = Some (Some e') \<longrightarrow> view (mc_entries c) e' = Some (n', v') \<longrightarrow> \<not> ofi_iov_within k v'"
    using that find_covering [OF c1(1), of _ _ _ k] c1(2) by metis
  from storage_find_ok [OF cinv_linked [OF c1(1)], of k] show ?thesis
  proof (elim disjE conjE exE)
    assume "storage_find c1 k = Some None"
    then have "ofi_mr_cache_find c attr = Some (None, c1)" "\<forall>e n v. region_ok k \<longrightarrow> view (mc_entries c) e = Some (n, v) \<longrightarrow> \<not> ofi_iov_within k v"
      using E none by simp_all
    then show ?thesis using c1 by simp
  next
    fix e n v
    assume f: "storage_find c1 k = Some (Some e)" "view (mc_entries c1) e = Some (n, v)" "hits k v"
    obtain en where en: "mc_entries c1 e = Some en" "en_iov en = v" using view_SomeD [OF f(2)] by blast
    show ?thesis
    proof (cases "ofi_iov_within k v")
      case True
      have "use_cnt en < 2 ^ 31 - 1" using lb en(1) c1(2) by (simp add: live_below_def)
      from use_entry_granted [OF c1(1) en(1) this] obtain c' where "use_entry c1 e = Some c'" "cinv 0 0 c'" "mc_hist c' = mc_hist c1"
        "view (mc_entries c') = view (mc_entries c1)" "granted (held (mc_entries c1)) k e (held (mc_entries c'))" using True en(2) by blast
      then show ?thesis using E f(1,2) en True c1 by simp
    next
      case False
      then have "\<forall>e' n' v'. storage_find c1 k = Some (Some e') \<longrightarrow> view (mc_entries c) e' = Some (n', v') \<longrightarrow> \<not> ofi_iov_within k v'"
        using f(1,2) c1(2) by simp
      note n = none [OF this]
      have "ofi_mr_cache_find c attr = Some (None, c1)" using E f(1) en False by simp
      then show ?thesis using n c1 by simp
    qed
  qed
qed

lemma reg_ok:
  assumes inv: "cinv 0 0 c" and env: "env_ok fresh env" and k: "attr_iov attr = Some k"
  shows "\<exists>r c'. ofi_mr_cache_reg env c attr = Some (r, c') \<and> cinv 0 0 c' \<and> view (mc_entries c') = view (mc_entries c) \<and>
    (case r of Inr e \<Rightarrow> held (mc_entries c) e = None \<and> held (mc_entries c') = (held (mc_entries c))(e \<mapsto> (1, k))
     | Inl _ \<Rightarrow> held (mc_entries c') = held (mc_entries c))"
proof (cases "entry_alloc env (mc_entries c)")
  case None
  then show ?thesis using inv k by (simp add: ofi_mr_cache_reg_def)
next
  case (Some a)
  obtain e b where a: "a = (e, b)" by (cases a)
  define en where "en = \<lparr>en_iov = k, storage_context = None, subscribed = b, use_cnt = 1\<rparr>"
  define c1 where "c1 = update_entry e en c"
  have ne: "mc_entries c e = None" "e \<noteq> 0" using env Some a by (auto simp: env_ok_def)
  note A = alloc_ok [OF inv ne c1_def [unfolded en_def], folded en_def]
  have en: "storage_context en = None" "en_iov en = k" "use_cnt en = 1" by (simp_all add: en_def)
  obtain ret c2 where c2: "call_add_region env c1 e (en_iov en) = (ret, c2)" by fastforce
  note B = call_add_ok [OF A(1,3) c2]
  have e2: "mc_entries c2 e = Some en" using A(3) B(2) by simp
  have n: "held (mc_entries c) e = None" "(view (mc_entries c))(e := None) = view (mc_entries c)"
    using ne(1) by (simp_all add: held_idle view_uncached fun_upd_view_None)
  have C: "call_add_region env (update_entry e en (count_uncached (iov_len k) c)) e k = (ret, count_uncached (iov_len k) c2)"
    using c2 by (auto simp: call_add_region_def update_entry_def count_uncached_def c1_def en_def Let_def)
  have E: "ofi_mr_cache_reg env c attr = (case ret of
      None \<Rightarrow> Some (Inr e, count_uncached (iov_len k) c2)
    | Some err \<Rightarrow> Some (Inl err, uncount_uncached (iov_len k) (entry_free e (count_uncached (iov_len k) c2))))"
    using Some a k C by (simp add: ofi_mr_cache_reg_def Let_def flip: en_def)
  show ?thesis
  proof (cases ret)
    case None
    then show ?thesis using E count_pending_ok [of e c2, OF _ e2 en(1)] B(1,2) A(2,4) n(1) en(2) by (simp add: count_uncached_def)
  next
    case (Some err)
    have "cinv 0 0 (entry_free e c2)" using free_pending_ok [OF _ e2 en(3)] B(1) Some by simp
    moreover have "uncount_uncached (iov_len k) (entry_free e (count_uncached (iov_len k) c2)) = entry_free e c2"
      by (simp add: uncount_uncached_def count_uncached_def entry_free_def)
    ultimately show ?thesis using E Some B(2) A(2,4) n by (simp add: entry_free_def fun_upd_idem)
  qed
qed

lemma delete_uncached_ok:
  assumes inv: "cinv 0 0 c" and en: "mc_entries c e = Some en" "storage_context en = None"
    and c': "c' = uncount_uncached (iov_len (en_iov en)) (c\<lparr>delete_cnt := d, mc_entries := (mc_entries c)(e := None),
      mc_hist := mc_hist c @ [DeleteRegion e (en_iov en)]\<rparr>)"
  shows "cinv 0 0 c'" and "view (mc_entries c') = view (mc_entries c)"
proof -
  have f: "finite (dom (mc_entries c))" using inv by (rule cinv_finite)
  have u: "use_cnt en \<noteq> 0" using cinv_entry [OF inv en(1)] en(2) by (simp add: entry_ok_def)
  note T = tally_change(2) [OF f en(1) cinv_nonzero [OF inv en(1)]]
  show v: "view (mc_entries c') = view (mc_entries c)"
    using en by (simp add: c' uncount_uncached_def fun_upd_view_None view_uncached(2))
  have "counts_ok 0 0 c'"
    using inv en(2) T [of "cnt_of True"] T [of "cnt_of False"] T [of "size_of True"] T [of "size_of False"] T [of reg_of]
    by (simp add: cinv_def counts_ok_def c' uncount_uncached_def counted algebra_simps)
  moreover have "linked c'" using inv v by (simp add: cinv_def linked_def c' uncount_uncached_def del: view_upd)
  moreover have "lists_ok c'" using inv en u by (auto simp: cinv_def lists_ok_def c' uncount_uncached_def idle_def)
  ultimately show "cinv 0 0 c'" using inv v by (simp add: cinv_def)
qed

lemma delete_ok:
  assumes inv: "cinv 0 0 c" and e: "held (mc_entries c) e \<noteq> None"
  shows "\<exists>c'. ofi_mr_cache_delete c e = Some c' \<and> cinv 0 0 c' \<and> view (mc_entries c') = view (mc_entries c) \<and>
    released (held (mc_entries c)) e (held (mc_entries c'))"
proof -
  obtain en where en: "mc_entries c e = Some en" "0 < use_cnt en" using e by (auto simp: held_def bind_eq_Some_conv split: if_splits)
  have h: "held (mc_entries c) e = Some (use_cnt en, en_iov en)" using en by (simp add: held_def)
  have L: "distinct (mc_lru c)" "set (mc_lru c) = idle (mc_entries c)" and nl: "e \<notin> idle (mc_entries c)"
    using inv en by (auto simp: cinv_def lists_ok_def idle_def)
  let ?en = "en\<lparr>use_cnt := use_cnt en - 1\<rparr>"
  consider "use_cnt en \<noteq> 1" | n where "use_cnt en = 1" "storage_context en = Some n" | "use_cnt en = 1" "storage_context en = None" by fastforce
  then show ?thesis
  proof cases
    case 1
    define c' where "c' = c\<lparr>delete_cnt := delete_cnt c + 1, mc_entries := (mc_entries c)(e \<mapsto> ?en)\<rparr>"
    have "ofi_mr_cache_delete c e = Some c'" using 1 en by (simp add: ofi_mr_cache_delete_def update_entry_def c'_def)
    moreover have "set (mc_lru c') = idle (mc_entries c')" using 1 L(2) nl by (simp add: c'_def)
    then have "cinv 0 0 c'" "view (mc_entries c') = view (mc_entries c)"
      using set_users_ok [OF inv en(1), of "use_cnt en - 1" c'] 1 en(2) L(1) by (simp_all add: c'_def del: idle_upd)
    ultimately show ?thesis using h 1 en(2) by (simp add: released_def c'_def)
  next
    case 2
    define c' where "c' = c\<lparr>delete_cnt := delete_cnt c + 1, mc_entries := (mc_entries c)(e \<mapsto> ?en), mc_lru := mc_lru c @ [e]\<rparr>"
    have "ofi_mr_cache_delete c e = Some c'" using 2 en by (simp add: ofi_mr_cache_delete_def update_entry_def c'_def)
    moreover have "set (mc_lru c') = idle (mc_entries c')" using 2 L(2) by (simp add: c'_def)
    then have "cinv 0 0 c'" "view (mc_entries c') = view (mc_entries c)"
      using set_users_ok [OF inv en(1), of "use_cnt en - 1" c'] 2 L nl by (simp_all add: c'_def del: idle_upd)
    ultimately show ?thesis using h 2 by (simp add: released_def c'_def)
  next
    case 3
    define c' where "c' = uncount_uncached (iov_len (en_iov en)) (c\<lparr>delete_cnt := delete_cnt c + 1, mc_entries := (mc_entries c)(e := None),
      mc_hist := mc_hist c @ [DeleteRegion e (en_iov en)]\<rparr>)"
    have "ofi_mr_cache_delete c e = Some c'"
      using 3 en by (simp add: ofi_mr_cache_delete_def update_entry_def util_mr_free_entry_def uncount_uncached_def entry_free_def c'_def)
    then show ?thesis using delete_uncached_ok [OF inv en(1) 3(2) c'_def] h 3(1) by (simp add: released_def c'_def uncount_uncached_def)
  qed
qed

lemma notify_ok:
  assumes "cinv 0 0 c"
  shows "\<exists>c'. ofi_mr_cache_notify c addr len = Some c' \<and> cinv 0 0 c' \<and> shrinks (mc_entries c) (mc_entries c') \<and>
    view (mc_entries c') = view (mc_entries c) |` {e. \<forall>n v. view (mc_entries c) e = Some (n, v) \<longrightarrow> \<not> touches \<lparr>iov_base = addr, iov_len = len\<rparr> v}"
  using notify_loop_ok [of 0 0 "c\<lparr>notify_cnt := notify_cnt c + 1\<rparr>"] assms by (simp add: cinv_counter ofi_mr_cache_notify_def)

lemma run_inv:
  assumes "mr_run env c0 c" and "env_ok fresh env" and "cinv 0 0 c0" and "bounded env (mc_entries c0)"
  shows "cinv 0 0 c \<and> bounded env (mc_entries c)"
  using assms(1)
proof (induction rule: mr_run.induct)
  case start
  then show ?case using assms(3,4) by simp
next
  case (search c attr k r c')
  then show ?case using search_ok [of c env attr k] assms(2) by auto
next
  case (find c attr k f c')
  then show ?case using find_ok [of c attr k] by (auto simp: bounded_def)
next
  case (reg c attr k r c')
  then show ?case using reg_ok [of c env attr k] assms(2) by (auto simp: bounded_def)
next
  case (delete c e c')
  then show ?case using delete_ok [of c e] by (auto simp: bounded_def)
next
  case (flush c b c')
  then show ?case using flush_ok [of 0 0 c] bounded_shrinks [OF cinv_finite [of 0 0 c]]
    by (auto simp: ofi_mr_cache_flush_def split: list.splits)
next
  case (notify c addr len c')
  then show ?case using notify_ok [of c addr len] bounded_shrinks [OF cinv_finite [of 0 0 c]] by auto
qed

lemma cleanup_loop_ok:
  assumes "cinv 0 0 c" and "mc_lru c = es"
  shows "\<exists>c'. cleanup_loop c es = Some c' \<and> cinv 0 0 c' \<and> mc_lru c' = [] \<and> held (mc_entries c') = held (mc_entries c)"
  using assms
proof (induction es arbitrary: c)
  case Nil
  then show ?case by simp
next
  case (Cons e es)
  have "e \<in> idle (mc_entries c)" using Cons.prems by (auto simp: cinv_def lists_ok_def)
  then obtain en where en: "mc_entries c e = Some en" "use_cnt en = 0" by (auto simp: idle_def)
  then obtain n where n: "storage_context en = Some n" using cinv_entry [OF Cons.prems(1) en(1)] by (cases "storage_context en") (simp_all add: entry_ok_def)
  obtain c1 where c1: "util_mr_uncache_entry c e = Some c1" "cinv 0 0 c1" "shrinks (mc_entries c) (mc_entries c1)" "mc_lru c1 = es"
    using uncache_entry_ok [OF Cons.prems(1) view_SomeI [of "mc_entries c", OF en(1) n]] Cons.prems(2) by auto
  from Cons.IH [OF c1(2,4)] show ?case using c1(1,3) en by (auto simp: shrinks_def)
qed

lemma cleanup_ok:
  assumes inv: "cinv 0 0 c" and d: "mc_domain c" and free: "held (mc_entries c) = Map.empty"
  shows "\<exists>c'. ofi_mr_cache_cleanup ref monitor self c = Some ([], c', ref - 1, ofi_monitor_del_cache monitor self) \<and>
    mc_entries c' = Map.empty \<and> added (mc_hist c') = deleted (mc_hist c') \<and> st_storage (mc_storage c') = None"
proof -
  obtain c1 where c1: "cleanup_loop c (mc_lru c) = Some c1" "cinv 0 0 c1" "mc_lru c1 = []" "held (mc_entries c1) = held (mc_entries c)"
    using cleanup_loop_ok [OF inv] by blast
  have emp: "mc_entries c1 = Map.empty"
  proof
    fix e
    show "mc_entries c1 e = None"
    proof (cases "mc_entries c1 e")
      case (Some en)
      have "0 \<le> use_cnt en" using cinv_entry [OF c1(2) Some] by (simp add: entry_ok_def)
      moreover have "use_cnt en \<noteq> 0" using c1(2,3) Some by (auto simp: cinv_def lists_ok_def idle_def)
      ultimately have "held (mc_entries c1) e \<noteq> None" using Some by (simp add: held_def)
      then show ?thesis using c1(4) free by simp
    qed
  qed
  have "linked c1" "counts_ok 0 0 c1" using c1(2) by (simp_all add: cinv_def)
  then obtain s where s: "st_storage (mc_storage c1) = Some s" "sinv (view (mc_entries c1)) s" "st_destroy (mc_storage c1) = Some destroy"
    by (auto simp: linked_def)
  have "view (mc_entries c1) = Map.empty" using emp by (simp add: view_def fun_eq_iff)
  then have "destroy s = Some []" using destroy_all [OF s(2)] by auto
  moreover have "cached_cnt c1 = 0" "cached_size c1 = 0" "uncached_cnt c1 = 0" "uncached_size c1 = 0" "added (mc_hist c1) = deleted (mc_hist c1)"
    using \<open>counts_ok 0 0 c1\<close> emp by (simp_all add: counts_ok_def)
  ultimately show ?thesis using d c1(1) s(1,3) by (simp add: ofi_mr_cache_cleanup_def storage_destroy_def)
qed

end

end
