(* ===== verification/Ofi_Mr_Cache_Rbt.thy ===== *)
theory Ofi_Mr_Cache_Rbt
  imports Ofi_Mr_Cache_Laws
begin

section \<open>The registration cache over the red-black map\<close>

text \<open>
  The storage of \<^verbatim>\<open>ofi_mr_cache_init_rbt\<close> keeps the contract of a storage, for both comparisons: with
  \<open>merge_regions\<close> the cached regions are disjoint, without it no cached region contains another.  The
  properties of the cache follow from the interpretation.
\<close>

subsection \<open>Order of the regions\<close>

definition mr_compare :: "bool \<Rightarrow> mr_heap \<Rightarrow> iovec \<Rightarrow> nat \<Rightarrow> int" where
  "mr_compare merge = (if merge then util_mr_find_overlap else util_mr_find_within)"

definition mr_hits :: "bool \<Rightarrow> iovec \<Rightarrow> iovec \<Rightarrow> bool" where
  "mr_hits merge k v \<longleftrightarrow> (if merge then touches k v else \<not> ofi_iov_shifted_left k v \<and> \<not> ofi_iov_shifted_right k v)"

definition below :: "bool \<Rightarrow> iovec \<Rightarrow> iovec \<Rightarrow> bool" where
  "below merge v w \<longleftrightarrow> (if merge then ofi_iov_left v w else ofi_iov_shifted_left v w)"

lemma mr_compare_zero: "mr_compare merge h k e = 0 \<longleftrightarrow> mr_hits merge k (entry_iov h e)"
  "util_mr_find_overlap h k e = 0 \<longleftrightarrow> touches k (entry_iov h e)"
  by (simp_all add: mr_compare_def mr_hits_def touches_def util_mr_find_overlap_def util_mr_find_within_def)

lemma mr_compare_side:
  "mr_compare merge h k e < 0 \<Longrightarrow> below merge k (entry_iov h e)" "mr_compare merge h k e > 0 \<Longrightarrow> below merge (entry_iov h e) k"
  by (auto simp: mr_compare_def below_def util_mr_find_overlap_def util_mr_find_within_def ofi_iov_left_def ofi_iov_right_def
      ofi_iov_shifted_left_def ofi_iov_shifted_right_def split: if_splits)

lemma below_shifted: "region_ok v \<Longrightarrow> region_ok w \<Longrightarrow> below merge v w \<Longrightarrow> ofi_iov_shifted_left v w"
  using region_end(1) [of v] region_end(1) [of w] by (auto simp: below_def ofi_iov_left_def ofi_iov_shifted_left_def split: if_splits)

lemma below_apart: "region_ok v \<Longrightarrow> region_ok w \<Longrightarrow> below merge v w \<or> below merge w v \<Longrightarrow> \<not> mr_hits merge v w"
  by (auto simp: below_def mr_hits_def touches_def ofi_iov_left_def ofi_iov_right_def ofi_iov_shifted_left_def ofi_iov_shifted_right_def
      split: if_splits)

lemma compare_descends:
  assumes "ofi_iov_shifted_left (entry_iov h e) (entry_iov h f)"
  shows "sgn (util_mr_find_overlap h k f) \<le> sgn (util_mr_find_overlap h k e)" "sgn (mr_compare merge h k f) \<le> sgn (mr_compare merge h k e)"
  using assms by (auto simp: mr_compare_def util_mr_find_overlap_def util_mr_find_within_def ofi_iov_left_def ofi_iov_right_def
      ofi_iov_shifted_left_def ofi_iov_shifted_right_def)

lemma hits_covered: "ofi_iov_within k v \<Longrightarrow> mr_hits merge k v' \<Longrightarrow> \<not> mr_hits merge v v' \<Longrightarrow> ofi_iov_within k v'"
  by (auto simp: mr_hits_def touches_def ofi_iov_within_def ofi_iov_left_def ofi_iov_right_def ofi_iov_shifted_left_def
      ofi_iov_shifted_right_def split: if_splits)

lemma covered_hits: "region_ok k \<Longrightarrow> region_ok v \<Longrightarrow> ofi_iov_within k v \<Longrightarrow> mr_hits merge k v"
  using region_end(1) [of v] region_end(1) [of k]
  by (auto simp: mr_hits_def touches_def ofi_iov_within_def ofi_iov_left_def ofi_iov_right_def ofi_iov_shifted_left_def ofi_iov_shifted_right_def)

subsection \<open>The tree of the entries\<close>

definition stores :: "(nat \<rightharpoonup> nat \<times> iovec) \<Rightarrow> nat ofi_rbmap \<Rightarrow> bool" where
  "stores V m \<longleftrightarrow> (\<forall>n e. n \<in> rb_live m \<and> rb_data m n = e \<longleftrightarrow> (\<exists>v. V e = Some (n, v)))"

definition reg_at :: "(nat \<rightharpoonup> nat \<times> iovec) \<Rightarrow> nat ofi_rbmap \<Rightarrow> nat \<Rightarrow> iovec" where
  "reg_at V m x = snd (the (V (rb_data m x)))"

definition rbt_rep :: "bool \<Rightarrow> (nat \<rightharpoonup> nat \<times> iovec) \<Rightarrow> nat ofi_rbmap \<Rightarrow> rbt \<Rightarrow> bool" where
  "rbt_rep merge V m t \<longleftrightarrow> rbmap_inv m t \<and> stores V m \<and> (\<forall>e n v. V e = Some (n, v) \<longrightarrow> region_ok v) \<and>
    sorted_wrt (\<lambda>x y. below merge (reg_at V m x) (reg_at V m y)) (inorder t)"

definition rbt_sinv :: "bool \<Rightarrow> (nat \<rightharpoonup> nat \<times> iovec) \<Rightarrow> nat ofi_rbmap \<Rightarrow> bool" where
  "rbt_sinv merge V m \<longleftrightarrow> (\<exists>t. rbt_rep merge V m t)"

lemma stores_node: "stores V m \<Longrightarrow> n \<in> rb_live m \<Longrightarrow> V (rb_data m n) = Some (n, reg_at V m n)"
  unfolding stores_def reg_at_def by (metis option.sel snd_conv)

lemma stores_view: "stores (view h) m \<Longrightarrow> n \<in> rb_live m \<Longrightarrow> entry_iov h (rb_data m n) = reg_at (view h) m n"
  using stores_node [of "view h" m n] by (auto simp: entry_iov_def dest: view_SomeD)

lemma rep_descending:
  assumes R: "rbt_rep merge (view h) m t"
  shows "descending (mr_compare merge h) k (map (rb_data m) (inorder t))" "descending (util_mr_find_overlap h) k (map (rb_data m) (inorder t))"
proof -
  have live: "rb_live m = set (inorder t)" and S: "stores (view h) m" using R by (simp_all add: rbt_rep_def rbmap_inv_def)
  have ok: "region_ok (entry_iov h (rb_data m x))" if "x \<in> set (inorder t)" for x
    using that stores_node [OF S] stores_view [OF S] live R by (fastforce simp: rbt_rep_def)
  have "sorted_wrt (\<lambda>x y. ofi_iov_shifted_left (entry_iov h (rb_data m x)) (entry_iov h (rb_data m y))) (inorder t)"
  proof (rule sorted_wrt_mono_rel [of _ "\<lambda>x y. below merge (reg_at (view h) m x) (reg_at (view h) m y)"])
    show "ofi_iov_shifted_left (entry_iov h (rb_data m x)) (entry_iov h (rb_data m y))"
      if "x \<in> set (inorder t)" "y \<in> set (inorder t)" "below merge (reg_at (view h) m x) (reg_at (view h) m y)" for x y
      using below_shifted ok that stores_view [OF S] live by metis
  qed (use R in \<open>simp add: rbt_rep_def\<close>)
  then show "descending (mr_compare merge h) k (map (rb_data m) (inorder t))" "descending (util_mr_find_overlap h) k (map (rb_data m) (inorder t))"
    unfolding descending_def sorted_wrt_map by (auto elim!: sorted_wrt_mono_rel [rotated] intro: compare_descends)
qed

lemma rbt_search:
  assumes R: "rbt_rep merge (view h) m t" and c: "compare = mr_compare merge h \<or> compare = util_mr_find_overlap h"
  shows "(\<exists>y \<in> rb_live m. search_loop compare m k (rb_root m) = Some (Some y) \<and> compare k (rb_data m y) = 0) \<or>
    (search_loop compare m k (rb_root m) = Some None \<and> (\<forall>y \<in> rb_live m. compare k (rb_data m y) \<noteq> 0))"
proof -
  have r: "rep m None t" "rb_root m = rid t" "rb_live m = set (inorder t)" using R by (auto simp: rbt_rep_def rbmap_inv_def focus_def)
  obtain q where q: "search_loop compare m k (rid t) = Some q"
    "case q of Some y \<Rightarrow> y \<in> set (inorder t) \<and> compare k (rb_data m y) = 0
     | None \<Rightarrow> descending compare k (map (rb_data m) (inorder t)) \<longrightarrow> (\<forall>y \<in> set (inorder t). compare k (rb_data m y) \<noteq> 0)"
    using search_loop_ok [OF r(1), of compare k] by (elim exE conjE) (rule that)
  have "descending compare k (map (rb_data m) (inorder t))" using rep_descending [OF R] c by blast
  then show ?thesis using q r by (cases q) auto
qed

lemma rbt_insert_new:
  assumes R: "rbt_rep merge (view h) m t" and n: "fresh_node m n" and en: "h e = Some en" "storage_context en = None" "region_ok (en_iov en)"
    and new: "\<forall>e' n' v. view h e' = Some (n', v) \<longrightarrow> \<not> mr_hits merge (en_iov en) v"
  shows "\<exists>m' t'. ofi_rbmap_insert (mr_compare merge h) (Some n) m (en_iov en) e = Some (Inr n, m') \<and>
    rbt_rep merge ((view h)(e \<mapsto> (n, en_iov en))) m' t'"
proof -
  let ?V = "(view h)(e \<mapsto> (n, en_iov en))"
  have inv: "rbmap_inv m t" and S: "stores (view h) m" and live: "rb_live m = set (inorder t)" using R by (simp_all add: rbt_rep_def rbmap_inv_def)
  have f: "n \<noteq> 0" "n \<notin> rb_live m" using n by (simp_all add: fresh_node_def)
  have ve: "view h e = None" using en by (simp add: view_uncached(2))
  have ne: "\<forall>x \<in> rb_live m. rb_data m x \<noteq> e" using stores_node [OF S] ve by fastforce
  have nz: "\<not> (\<exists>y \<in> set (inorder t). mr_compare merge h (en_iov en) (rb_data m y) = 0)"
    using new stores_node [OF S] stores_view [OF S] live by (auto simp: mr_compare_zero)
  obtain m' t' xs ys where m': "ofi_rbmap_insert (mr_compare merge h) (Some n) m (en_iov en) e = Some (Inr n, m')" "rbmap_inv m' t'"
    "inorder t = xs @ ys" "inorder t' = xs @ n # ys" "rb_data m' = (rb_data m)(n := e)"
    "(\<forall>x \<in> set xs. mr_compare merge h (en_iov en) (rb_data m x) > 0) \<and> (\<forall>y \<in> set ys. mr_compare merge h (en_iov en) (rb_data m y) < 0)"
    using rbmap_insert_ok [OF inv f, of "mr_compare merge h" "en_iov en" e] nz rep_descending(1) [OF R] by blast
  have live': "rb_live m' = insert n (rb_live m)" using m'(2-4) live by (simp add: rbmap_inv_def)
  have at: "reg_at ?V m' x = reg_at (view h) m x" "reg_at (view h) m x = entry_iov h (rb_data m x)" if "x \<in> set (inorder t)" for x
    using that ne f(2) live m'(5) stores_view [OF S] by (auto simp: reg_at_def)
  have atn: "reg_at ?V m' n = en_iov en" using m'(5) by (simp add: reg_at_def)
  have "stores ?V m'" unfolding stores_def live' m'(5) using S ne f(2) ve unfolding stores_def by auto
  moreover have "sorted_wrt (\<lambda>x y. below merge (reg_at ?V m' x) (reg_at ?V m' y)) (inorder t')"
  proof -
    have s: "sorted_wrt (\<lambda>x y. below merge (reg_at (view h) m x) (reg_at (view h) m y)) (xs @ ys)" using R m'(3) by (simp add: rbt_rep_def)
    have "sorted_wrt (\<lambda>x y. below merge (reg_at ?V m' x) (reg_at ?V m' y)) (xs @ ys)"
      by (rule sorted_wrt_mono_rel [OF _ s]) (use at m'(3) in auto)
    moreover have "below merge (reg_at ?V m' x) (reg_at ?V m' n)" if "x \<in> set xs" for x
      using that at [of x] m'(3,6) mr_compare_side(2) atn by fastforce
    moreover have "below merge (reg_at ?V m' n) (reg_at ?V m' y)" if "y \<in> set ys" for y
      using that at [of y] m'(3,6) mr_compare_side(1) atn by fastforce
    ultimately show ?thesis by (auto simp: m'(4) sorted_wrt_append)
  qed
  moreover have "\<forall>e' n' v. ?V e' = Some (n', v) \<longrightarrow> region_ok v" using R en(3) by (auto simp: rbt_rep_def)
  ultimately show ?thesis using m'(1,2) unfolding rbt_rep_def by blast
qed

lemma rbt_insert_no_memory:
  assumes R: "rbt_rep merge (view h) m t" and new: "\<forall>e' n' v. view h e' = Some (n', v) \<longrightarrow> \<not> mr_hits merge k v"
  shows "ofi_rbmap_insert (mr_compare merge h) None m k e = Some (Inl FI_ENOMEM, m)"
proof -
  have inv: "rbmap_inv m t" and S: "stores (view h) m" and live: "rb_live m = set (inorder t)" using R by (simp_all add: rbt_rep_def rbmap_inv_def)
  have "\<not> (\<exists>y \<in> set (inorder t). mr_compare merge h k (rb_data m y) = 0)"
    using new stores_node [OF S] stores_view [OF S] live by (auto simp: mr_compare_zero)
  then show ?thesis using insert_walk_root [OF inv, of "mr_compare merge h" k] by (auto simp: ofi_rbmap_insert_def)
qed

lemma rbt_delete_one:
  assumes R: "rbt_rep merge V m t" and n: "V e = Some (n, v)"
  shows "\<exists>m' t'. ofi_rbmap_delete m n = Some m' \<and> rbt_rep merge (V(e := None)) m' t'"
proof -
  let ?V = "V(e := None)"
  have inv: "rbmap_inv m t" and S: "stores V m" and live: "rb_live m = set (inorder t)" and d: "distinct (inorder t)"
    using R by (simp_all add: rbt_rep_def rbmap_inv_def focus_def)
  have l: "n \<in> rb_live m" "rb_data m n = e" using S n by (auto simp: stores_def)
  have un: "rb_data m x \<noteq> e" if "x \<in> rb_live m" "x \<noteq> n" for x using stores_node [OF S that(1)] n that(2) by auto
  obtain m' t' where m': "ofi_rbmap_delete m n = Some m'" "rbmap_inv m' t'" "inorder t' = remove1 n (inorder t)"
    "\<forall>z. z \<noteq> n \<longrightarrow> rb_data m' z = rb_data m z" using rbmap_delete_ok [OF inv] l(1) live by blast
  have live': "rb_live m' = rb_live m - {n}" using m'(2,3) live d by (simp add: rbmap_inv_def set_remove1_eq)
  have at: "reg_at ?V m' x = reg_at V m x" if x: "x \<in> set (inorder t')" for x
  proof -
    have "x \<in> rb_live m" "x \<noteq> n" using x m'(2) live' by (auto simp: rbmap_inv_def)
    then have "rb_data m' x = rb_data m x" "rb_data m x \<noteq> e" using m'(4) un by simp_all
    then show ?thesis by (simp add: reg_at_def)
  qed
  have "stores ?V m'"
    unfolding stores_def
  proof (intro allI)
    fix x e'
    have b: "x \<in> rb_live m \<and> rb_data m x = e' \<longleftrightarrow> (\<exists>v. V e' = Some (x, v))" using S by (simp add: stores_def)
    show "x \<in> rb_live m' \<and> rb_data m' x = e' \<longleftrightarrow> (\<exists>v. ?V e' = Some (x, v))"
      using b l n m'(4) by (cases "x = n") (auto simp: live')
  qed
  moreover have "sorted_wrt (\<lambda>x y. below merge (reg_at ?V m' x) (reg_at ?V m' y)) (inorder t')"
  proof -
    have "sorted_wrt (\<lambda>x y. below merge (reg_at V m x) (reg_at V m y)) (inorder t')"
      using R d unfolding rbt_rep_def m'(3) distinct_remove1_removeAll [OF d] removeAll_filter_not_eq by (simp add: sorted_wrt_filter)
    then show ?thesis by (rule sorted_wrt_mono_rel [rotated]) (use at in auto)
  qed
  moreover have "\<forall>e' n' v. ?V e' = Some (n', v) \<longrightarrow> region_ok v" using R by (auto simp: rbt_rep_def split: if_splits)
  ultimately show ?thesis using m'(1,2) unfolding rbt_rep_def by blast
qed

lemma find_laws:
  assumes S: "rbt_sinv merge (view h) m"
  shows "ofi_mr_rbt_find (mr_compare merge) h m k \<noteq> None"
    and "ofi_mr_rbt_find (mr_compare merge) h m k = Some (Some e) \<Longrightarrow> \<exists>n v. view h e = Some (n, v) \<and> mr_hits merge k v"
    and "ofi_mr_rbt_find (mr_compare merge) h m k = Some None \<Longrightarrow> view h e' = Some (n', v') \<Longrightarrow> \<not> mr_hits merge k v'"
    and "ofi_mr_rbt_overlap h m k \<noteq> None"
    and "ofi_mr_rbt_overlap h m k = Some (Some e) \<Longrightarrow> \<exists>n v. view h e = Some (n, v) \<and> touches k v"
    and "ofi_mr_rbt_overlap h m k = Some None \<Longrightarrow> view h e' = Some (n', v') \<Longrightarrow> \<not> touches k v'"
proof -
  obtain t where R: "rbt_rep merge (view h) m t" using S by (auto simp: rbt_sinv_def)
  have st: "stores (view h) m" using R by (simp add: rbt_rep_def)
  note N = stores_node [OF st] and E = stores_view [OF st]
  have owner: "\<exists>n \<in> rb_live m. rb_data m n = e' \<and> entry_iov h e' = v'" if "view h e' = Some (n', v')" for e' n' v'
    using that st view_SomeD [OF that] by (auto simp: stores_def entry_iov_def)
  note F = rbt_search [OF R, of "mr_compare merge h" k] and G = rbt_search [OF R, of "util_mr_find_overlap h" k]
  show "ofi_mr_rbt_find (mr_compare merge) h m k \<noteq> None" "ofi_mr_rbt_overlap h m k \<noteq> None"
    using F G by (auto simp: ofi_mr_rbt_find_def ofi_rbmap_find_def ofi_mr_rbt_overlap_def ofi_rbmap_search_def)
  show "\<exists>n v. view h e = Some (n, v) \<and> mr_hits merge k v" if "ofi_mr_rbt_find (mr_compare merge) h m k = Some (Some e)"
    using that F N E by (auto simp: ofi_mr_rbt_find_def ofi_rbmap_find_def mr_compare_zero)
  show "\<exists>n v. view h e = Some (n, v) \<and> touches k v" if "ofi_mr_rbt_overlap h m k = Some (Some e)"
    using that G N E by (auto simp: ofi_mr_rbt_overlap_def ofi_rbmap_search_def mr_compare_zero)
  show "\<not> mr_hits merge k v'" if "ofi_mr_rbt_find (mr_compare merge) h m k = Some None" "view h e' = Some (n', v')"
    using that(1) F owner [OF that(2)] by (auto simp: ofi_mr_rbt_find_def ofi_rbmap_find_def mr_compare_zero)
  show "\<not> touches k v'" if "ofi_mr_rbt_overlap h m k = Some None" "view h e' = Some (n', v')"
    using that(1) G owner [OF that(2)] by (auto simp: ofi_mr_rbt_overlap_def ofi_rbmap_search_def mr_compare_zero)
qed

lemma insert_laws:
  assumes S: "rbt_sinv merge (view h) m" and en: "h e = Some en" "storage_context en = None"
    and new: "\<forall>e' n' v. view h e' = Some (n', v) \<longrightarrow> \<not> mr_hits merge (en_iov en) v"
  shows "fresh_node m n \<Longrightarrow> region_ok (en_iov en) \<Longrightarrow> \<exists>m'. ofi_mr_rbt_insert (mr_compare merge) (Some n) h m (en_iov en) e =
      Some (Inr (), h(e \<mapsto> en\<lparr>storage_context := Some n\<rparr>), m') \<and> rbt_sinv merge ((view h)(e \<mapsto> (n, en_iov en))) m'"
    and "ofi_mr_rbt_insert (mr_compare merge) None h m (en_iov en) e = Some (Inl FI_ENOMEM, h, m)"
proof -
  obtain t where R: "rbt_rep merge (view h) m t" using S by (auto simp: rbt_sinv_def)
  show "\<exists>m'. ofi_mr_rbt_insert (mr_compare merge) (Some n) h m (en_iov en) e =
      Some (Inr (), h(e \<mapsto> en\<lparr>storage_context := Some n\<rparr>), m') \<and> rbt_sinv merge ((view h)(e \<mapsto> (n, en_iov en))) m'"
    if "fresh_node m n" "region_ok (en_iov en)"
    using rbt_insert_new [OF R that(1) en that(2) new] en by (auto simp: ofi_mr_rbt_insert_def rbt_sinv_def)
  show "ofi_mr_rbt_insert (mr_compare merge) None h m (en_iov en) e = Some (Inl FI_ENOMEM, h, m)"
    using rbt_insert_no_memory [OF R new] en by (simp add: ofi_mr_rbt_insert_def)
qed

lemma erase_law:
  assumes "rbt_sinv merge (view h) m" and "h e = Some en" "storage_context en = Some n"
  shows "\<exists>m'. ofi_mr_rbt_erase h m e = Some (h(e \<mapsto> en\<lparr>storage_context := None\<rparr>), m') \<and> rbt_sinv merge ((view h)(e := None)) m'"
  using assms rbt_delete_one [of merge "view h" m _ e n "en_iov en"] view_SomeI [of h e en n]
  by (fastforce simp: rbt_sinv_def ofi_mr_rbt_erase_def)

lemma destroy_law:
  assumes "rbt_sinv merge V m"
  shows "\<exists>freed. ofi_mr_rbt_destroy m = Some freed \<and> distinct freed \<and> set freed = fst ` ran V"
proof -
  obtain t where R: "rbmap_inv m t" "stores V m" using assms by (auto simp: rbt_sinv_def rbt_rep_def)
  have r: "rep m None t" "rb_root m = rid t" "distinct (inorder t)" "rb_live m = set (inorder t)" using R(1) by (auto simp: rbmap_inv_def focus_def)
  obtain fs where fs: "ofi_delete_tree m (rid t) = Some fs" "mset fs = mset (inorder t)" using delete_tree_ok [OF r(1)] by blast
  have "set fs = rb_live m" "distinct fs" using mset_eq_setD [OF fs(2)] mset_eq_imp_distinct_iff [OF fs(2)] r(3,4) by simp_all
  moreover have "rb_live m = fst ` ran V" using R(2) unfolding stores_def ran_def by (force simp: image_iff)
  ultimately show ?thesis using fs(1) r(2) by (simp add: ofi_mr_rbt_destroy_def ofi_rbmap_destroy_def ofi_rbmap_cleanup_def)
qed

lemma apart_law:
  assumes "rbt_sinv merge V m" "V e = Some (n, v)" "V e' = Some (n', v')" "e \<noteq> e'"
  shows "\<not> mr_hits merge v v'"
proof -
  obtain t where R: "rbt_rep merge V m t" using assms(1) by (auto simp: rbt_sinv_def)
  then have s: "stores V m" "rb_live m = set (inorder t)" "distinct (inorder t)" by (simp_all add: rbt_rep_def rbmap_inv_def focus_def)
  have n: "n \<in> set (inorder t)" "rb_data m n = e" "n' \<in> set (inorder t)" "rb_data m n' = e'" using s assms(2,3) by (auto simp: stores_def)
  then obtain i j where ij: "i < length (inorder t)" "inorder t ! i = n" "j < length (inorder t)" "inorder t ! j = n'" by (metis in_set_conv_nth)
  have at: "reg_at V m n = v" "reg_at V m n' = v'" using n assms(2,3) by (simp_all add: reg_at_def)
  have "i \<noteq> j" using ij n assms(4) by auto
  moreover have "sorted_wrt (\<lambda>x y. below merge (reg_at V m x) (reg_at V m y)) (inorder t)" using R by (simp add: rbt_rep_def)
  ultimately have "below merge v v' \<or> below merge v' v"
    using ij at by (metis nat_neq_iff sorted_wrt_nth_less)
  moreover have "region_ok v" "region_ok v'" using R assms(2,3) by (auto simp: rbt_rep_def)
  ultimately show ?thesis by (rule below_apart [rotated 2])
qed

interpretation mrt: mr_storage "ofi_mr_rbt_find (mr_compare merge)" ofi_mr_rbt_overlap "ofi_mr_rbt_insert (mr_compare merge)"
    ofi_mr_rbt_erase ofi_mr_rbt_destroy "rbt_sinv merge" "mr_hits merge" fresh_node for merge
  by unfold_locales (rule find_laws insert_laws erase_law destroy_law apart_law hits_covered covered_hits; assumption)+

subsection \<open>A cache from its initialization\<close>

text \<open>The caches that are reached from a successful initialization with the storage of the library.\<close>

definition mr_reachable :: "nat ofi_rbmap mr_env \<Rightarrow> nat ofi_rbmap ofi_mr_cache \<Rightarrow> bool" where
  "mr_reachable env c \<longleftrightarrow> (\<exists>calloc start pool ref monitor self raw c0 ref' monitor'.
    ofi_mr_cache_init (cache_params env) calloc start pool ref monitor self raw = Some (Inr (), c0, ref', monitor') \<and>
    st_type (mc_storage raw) \<in> {OFI_MR_STORAGE_DEFAULT, OFI_MR_STORAGE_RBT} \<and> mr_run env c0 c)"

lemma init_rbt_linked:
  assumes "ofi_mr_cache_init_rbt params calloc st = Inr st'" and "mc_storage c = st'" and "mc_entries c = Map.empty"
  shows "mrt.linked (merge_regions params) c"
proof -
  obtain tree where t: "ofi_rbmap_create (0 :: nat) calloc = Some tree" using assms(1) by (auto simp: ofi_mr_cache_init_rbt_def Let_def split: option.splits)
  then have i: "rbmap_inv tree Lf" by (rule rbmap_create_inv)
  have v: "view (mc_entries c) = Map.empty" using assms(3) by (simp add: view_def fun_eq_iff)
  have "rbt_rep (merge_regions params) (view (mc_entries c)) tree Lf"
    using i unfolding v by (simp add: rbt_rep_def stores_def rbmap_inv_def)
  then show ?thesis unfolding mrt.linked_def using assms(1,2) t
    by (auto simp: ofi_mr_cache_init_rbt_def mr_compare_def rbt_sinv_def Let_def)
qed

lemma init_inv:
  assumes "ofi_mr_cache_init params calloc start pool ref monitor self raw = Some (Inr (), c, ref', monitor')"
    and "st_type (mc_storage raw) \<in> {OFI_MR_STORAGE_DEFAULT, OFI_MR_STORAGE_RBT}"
  shows "mrt.cinv (merge_regions params) 0 0 c" and "mc_entries c = Map.empty" and "mc_domain c"
proof -
  obtain st where st: "ofi_mr_cache_init_storage params calloc (mc_storage raw) = Inr st"
    and c: "mc_storage c = st" "mc_entries c = Map.empty" "mc_domain c" "mc_lru c = []" "mc_hist c = []" "cached_cnt c = 0"
      "cached_size c = 0" "uncached_cnt c = 0" "uncached_size c = 0"
    using assms(1) by (auto simp: ofi_mr_cache_init_def Let_def split: if_splits sum.splits prod.splits option.splits Option.bind_splits)
  have "ofi_mr_cache_init_rbt params calloc (mc_storage raw) = Inr st" using st assms(2) by (auto simp: ofi_mr_cache_init_storage_def)
  from init_rbt_linked [OF this c(1,2)] show "mrt.cinv (merge_regions params) 0 0 c"
    using c by (simp add: mrt.cinv_def lists_ok_def counts_ok_def idle_def view_def)
  show "mc_entries c = Map.empty" "mc_domain c" using c by simp_all
qed

lemma reachable_inv:
  assumes "mr_reachable env c" and "env_ok fresh_node env"
  shows "mrt.cinv (merge_regions (cache_params env)) 0 0 c" and "bounded env (mc_entries c)"
proof -
  obtain calloc start pool ref monitor self raw c0 ref' monitor' where
    r: "ofi_mr_cache_init (cache_params env) calloc start pool ref monitor self raw = Some (Inr (), c0, ref', monitor')"
    "st_type (mc_storage raw) \<in> {OFI_MR_STORAGE_DEFAULT, OFI_MR_STORAGE_RBT}" "mr_run env c0 c"
    using assms(1) unfolding mr_reachable_def by blast
  note I = init_inv [OF r(1,2)]
  have "view (mc_entries c0) = Map.empty" using I(2) by (simp add: view_def fun_eq_iff)
  then have "bounded env (mc_entries c0)" by (simp add: bounded_def)
  from mrt.run_inv [OF r(3) assms(2) I(1) this]
  show "mrt.cinv (merge_regions (cache_params env)) 0 0 c" "bounded env (mc_entries c)" by simp_all
qed

text \<open>Adjacent regions are not merged.\<close>

lemma adjacent_not_merged: "region_ok v \<Longrightarrow> iov_base k = iov_base v + iov_len v \<Longrightarrow> \<not> mr_hits True k v"
  using unat_successor [OF region_end(2), of v]
  by (simp add: mr_hits_def touches_def ofi_iov_right_def word_less_nat_alt) (simp add: ofi_iov_end_def)

subsection \<open>A concrete cache\<close>

definition ex_mr_env :: "nat ofi_rbmap mr_env" where
  "ex_mr_env = \<lparr>cache_params = \<lparr>max_cnt = 4, max_size = 1000000, merge_regions = False\<rparr>,
    entry_alloc = \<lambda>h. if h 1 = None then Some (1, False) else None,
    node_alloc = \<lambda>m. if 1 \<in> rb_live m then None else Some 1,
    add_region = \<lambda>_ _ _. None, mon_subscribe = \<lambda>_ _ _. None\<rparr>"

definition ex_mr_raw :: "nat ofi_rbmap ofi_mr_cache" where
  "ex_mr_raw = \<lparr>mc_domain = False,
    mc_storage = \<lparr>st_type = OFI_MR_STORAGE_DEFAULT, st_storage = None, st_find = None, st_overlap = None, st_insert = None,
      st_erase = None, st_destroy = None\<rparr>,
    mc_entries = Map.empty, mc_lru = [], cached_cnt = 0, cached_size = 0, uncached_cnt = 0, uncached_size = 0,
    search_cnt = 0, delete_cnt = 0, hit_cnt = 0, notify_cnt = 0, mc_hist = []\<rparr>"

definition ex_mr_attr :: fi_mr_attr where
  "ex_mr_attr = \<lparr>mr_iov = [\<lparr>iov_base = 4096, iov_len = 64\<rparr>], mr_access = 0, mr_offset = 0, requested_key = 0, mr_context = 0,
    auth_key_size = 0, auth_key = 0, hmem_iface = 0, hmem_device = 0\<rparr>"

lemma ex_mr_env_ok: "env_ok fresh_node ex_mr_env"
  by (auto simp: env_ok_def ex_mr_env_def fresh_node_def split: if_splits)

lemma ex_reachable_cache: "\<exists>c. mr_reachable ex_mr_env c \<and> mc_domain c \<and> mc_entries c = Map.empty"
proof -
  obtain c ref monitor where c: "ofi_mr_cache_init (cache_params ex_mr_env) True (\<lambda>_. None) None 0
      (Some \<lparr>mon_kind = UffdMonitor, mon_list = [], mon_started = False\<rparr>) 7 ex_mr_raw = Some (Inr (), c, ref, monitor)"
    by (simp add: ofi_mr_cache_init_def ofi_mr_cache_init_storage_def ofi_mr_cache_init_rbt_def ofi_rbmap_create_def
        ofi_monitor_add_cache_def ex_mr_env_def ex_mr_raw_def Let_def)
  have t: "st_type (mc_storage ex_mr_raw) \<in> {OFI_MR_STORAGE_DEFAULT, OFI_MR_STORAGE_RBT}" by (simp add: ex_mr_raw_def)
  have "mr_reachable ex_mr_env c" unfolding mr_reachable_def using c t mr_run.start by blast
  then show ?thesis using init_inv(2,3) [OF c t] by blast
qed

lemma ex_mr_attr_ok: "attr_iov ex_mr_attr = Some \<lparr>iov_base = 4096, iov_len = 64\<rparr>" "region_ok \<lparr>iov_base = 4096, iov_len = 64\<rparr>"
  by (simp_all add: attr_iov_def ex_mr_attr_def region_ok_def)

lemma flush_loop_idle: "\<not> cache_full env c \<Longrightarrow> flush_loop env c = Some c"
  by (subst flush_loop.simps) simp

lemma retry_loop_done: "retry_loop env e iov None c = Some (None, c)"
  by (subst retry_loop.simps) simp

lemma find_empty: "rb_root m = 0 \<Longrightarrow> ofi_mr_rbt_find cmp h m k = Some None"
  by (simp add: ofi_mr_rbt_find_def ofi_rbmap_find_def) (subst search_loop.simps, simp)

lemma insert_empty:
  assumes "rb_root m = 0" and "n \<noteq> 0"
  shows "\<exists>m'. ofi_rbmap_insert cmp (Some n) m k d = Some (Inr n, m')"
proof -
  let ?m = "attach_node cmp m k d None n"
  have r: "rb_root ?m = n" by (simp add: attach_node_def Let_def)
  have w: "insert_walk cmp m k 0 None = Some (Inr None)" by (subst insert_walk.simps) simp
  have "ofi_insert_rebalance ?m n = Some (set_color (rb_root ?m) BLACK ?m)"
    using r by (subst ofi_insert_rebalance.simps) simp
  then show ?thesis using assms w by (simp add: ofi_rbmap_insert_def)
qed

text \<open>A cache after one search, and after the user has released the region again.\<close>

definition ex_region :: iovec where "ex_region = \<lparr>iov_base = 4096, iov_len = 64\<rparr>"

lemma ex_searched: "\<exists>c. mr_reachable ex_mr_env c \<and> mc_domain c \<and>
    mc_entries c = [1 \<mapsto> \<lparr>en_iov = ex_region, storage_context = Some 1, subscribed = True, use_cnt = 1\<rparr>]"
proof -
  obtain c ref monitor where c: "ofi_mr_cache_init (cache_params ex_mr_env) True (\<lambda>_. None) None 0
      (Some \<lparr>mon_kind = UffdMonitor, mon_list = [], mon_started = False\<rparr>) 7 ex_mr_raw = Some (Inr (), c, ref, monitor)"
    by (simp add: ofi_mr_cache_init_def ofi_mr_cache_init_storage_def ofi_mr_cache_init_rbt_def ofi_rbmap_create_def
        ofi_monitor_add_cache_def ex_mr_env_def ex_mr_raw_def Let_def)
  have t: "st_type (mc_storage ex_mr_raw) \<in> {OFI_MR_STORAGE_DEFAULT, OFI_MR_STORAGE_RBT}" by (simp add: ex_mr_raw_def)
  obtain tree where f: "st_storage (mc_storage c) = Some tree" "st_find (mc_storage c) = Some (ofi_mr_rbt_find util_mr_find_within)"
    "st_insert (mc_storage c) = Some (ofi_mr_rbt_insert util_mr_find_within)" "rb_root tree = 0" "rb_live tree = {}"
    "mc_entries c = Map.empty" "mc_domain c" "cached_cnt c = 0" "cached_size c = 0" "mc_lru c = []"
    using c by (auto simp: ofi_mr_cache_init_def ofi_mr_cache_init_storage_def ofi_mr_cache_init_rbt_def ofi_rbmap_create_def
        ofi_monitor_add_cache_def ex_mr_env_def ex_mr_raw_def Let_def ofi_rbmap_init_def
        set_data_def set_color_def set_parent_def set_right_def set_left_def)
  obtain m' where ins: "ofi_rbmap_insert (util_mr_find_within
      [1 \<mapsto> \<lparr>en_iov = \<lparr>iov_base = 4096, iov_len = 64\<rparr>, storage_context = None, subscribed = False, use_cnt = 1\<rparr>])
      (Some 1) tree \<lparr>iov_base = 4096, iov_len = 64\<rparr> 1 = Some (Inr 1, m')"
    using insert_empty [OF f(4)] by (metis one_neq_zero)
  have "\<exists>c'. ofi_mr_cache_search ex_mr_env c ex_mr_attr = Some (Inr 1, c') \<and> mc_domain c' \<and>
      mc_entries c' = [1 \<mapsto> \<lparr>en_iov = ex_region, storage_context = Some 1, subscribed = True, use_cnt = 1\<rparr>]"
    using f ins
    by (simp add: ofi_mr_cache_search_def ex_mr_attr_def attr_iov_def flush_loop_idle cache_full_def ex_mr_env_def
      storage_find_def find_empty util_mr_cache_create_def call_add_region_def retry_loop_done update_entry_def
      keep_region_def storage_insert_def ofi_mr_rbt_insert_def subscribe_region_def count_cached_def ofi_monitor_subscribe_def ex_region_def Let_def)
  moreover have "live_below (mc_entries c)" using f(6) by (simp add: live_below_def)
  moreover have "mr_run ex_mr_env c c'" if "ofi_mr_cache_search ex_mr_env c ex_mr_attr = Some (r, c')" "live_below (mc_entries c)" for r c'
    using mr_run.search [OF mr_run.start ex_mr_attr_ok that(2,1)] .
  ultimately show ?thesis using c t unfolding mr_reachable_def by blast
qed

lemma ex_idle: "\<exists>c. mr_reachable ex_mr_env c \<and> mc_domain c \<and>
    mc_entries c = [1 \<mapsto> \<lparr>en_iov = ex_region, storage_context = Some 1, subscribed = True, use_cnt = 0\<rparr>]"
proof -
  obtain c where c: "mr_reachable ex_mr_env c" "mc_domain c"
    "mc_entries c = [1 \<mapsto> \<lparr>en_iov = ex_region, storage_context = Some 1, subscribed = True, use_cnt = 1\<rparr>]" using ex_searched by blast
  obtain c' where c': "ofi_mr_cache_delete c 1 = Some c'" "mc_domain c'"
    "mc_entries c' = [1 \<mapsto> \<lparr>en_iov = ex_region, storage_context = Some 1, subscribed = True, use_cnt = 0\<rparr>]"
    using c(2,3) by (simp add: ofi_mr_cache_delete_def update_entry_def Let_def)
  have h: "held (mc_entries c) 1 \<noteq> None" using c(3) by (simp add: held_def)
  have "mr_reachable ex_mr_env c'" using c(1) mr_run.delete [OF _ h c'(1)] unfolding mr_reachable_def by blast
  then show ?thesis using c' by blast
qed

section \<open>Properties\<close>

text \<open>C8. In every state of a cache that is reached from its initialization, whatever the provider and the monitor
  answer, the counters are the numbers of cached and uncached entries and the sums of their sizes (modulo
  \<open>2 ^ 64\<close>), the cached ones are at most \<open>max_cnt\<close>, the list of idle entries holds exactly those without a user, which are all cached, and the
  regions that were registered and not deregistered are exactly those of the entries: none is leaked and
  none is deregistered twice.\<close>

theorem mr_cache_accounting:
  assumes "mr_reachable env c" and "env_ok fresh_node env"
  shows "unat (cached_cnt c) = card (dom (view (mc_entries c))) \<and> cached_cnt c \<le> max_cnt (cache_params env) \<and>
    uncached_cnt c = of_nat (card (dom (mc_entries c) - dom (view (mc_entries c)))) \<and>
    cached_size c = (\<Sum>e \<in> dom (view (mc_entries c)). iov_len (en_iov (the (mc_entries c e)))) \<and>
    uncached_size c = (\<Sum>e \<in> dom (mc_entries c) - dom (view (mc_entries c)). iov_len (en_iov (the (mc_entries c e)))) \<and>
    distinct (mc_lru c) \<and> set (mc_lru c) = idle (mc_entries c) \<and> idle (mc_entries c) \<subseteq> dom (view (mc_entries c)) \<and>
    added (mc_hist c) = deleted (mc_hist c) + tally reg_of (mc_entries c)"
proof -
  let ?h = "mc_entries c"
  note I = reachable_inv [OF assms]
  have L: "lists_ok c" "counts_ok 0 0 c" using I(1) by (simp_all add: mrt.cinv_def)
  have z: "?h(0 := None) = ?h" and f: "finite (dom ?h)" using L(1) by (simp_all add: lists_ok_def fun_upd_idem)
  have "cached_cnt c = of_nat (card (dom (view ?h)))" using L(2) tally_cnt(1) [OF f] by (simp add: counts_ok_def z)
  moreover have "unat (max_cnt (cache_params env)) < 2 ^ 64" using unsigned_less [of "max_cnt (cache_params env)"] by simp
  then have "card (dom (view ?h)) < 2 ^ 64" using I(2) by (simp add: bounded_def)
  ultimately have u: "unat (cached_cnt c) = card (dom (view ?h))" by (simp add: unsigned_of_nat take_bit_nat_eq_self)
  then have "cached_cnt c \<le> max_cnt (cache_params env)" using I(2) by (simp add: bounded_def word_le_nat_alt)
  moreover have "uncached_cnt c = of_nat (card (dom ?h - dom (view ?h)))"
    using L(2) tally_cnt(2) [OF f] by (simp add: counts_ok_def z)
  moreover have "idle ?h \<subseteq> dom (view ?h)"
    using L(1) by (fastforce simp: lists_ok_def idle_def entry_ok_def view_def)
  ultimately show ?thesis using u L tally_size [OF f] by (simp add: lists_ok_def counts_ok_def z)
qed

theorem mr_cache_accounting_witness:
  "\<exists>c. mr_reachable ex_mr_env c \<and> unat (cached_cnt c) = 1 \<and> cached_size c = 64 \<and> added (mc_hist c) = deleted (mc_hist c) + {#(1, ex_region)#}"
proof -
  obtain c where c: "mr_reachable ex_mr_env c"
    "mc_entries c = [1 \<mapsto> \<lparr>en_iov = ex_region, storage_context = Some 1, subscribed = True, use_cnt = 1\<rparr>]" using ex_searched by blast
  have "view (mc_entries c) = [1 \<mapsto> (1, ex_region)]" using c(2) by (simp add: view_def fun_eq_iff)
  then show ?thesis using mr_cache_accounting [OF c(1) ex_mr_env_ok] c by (auto simp: tally_def reg_of_def ex_region_def)
qed

text \<open>C1. The cache implements reference-counted registrations.  The abstract state maps the entries in use to the
  number of their users and their region.  In every reachable state a search, a lookup, a registration and a
  release return; a successful search or lookup adds one user to an entry whose region covers the requested
  one, a registration adds a new entry, a release removes one user, a failure and a flush change nothing.
  Entries in use are never lost and their regions never change.\<close>

theorem mr_cache_refines_references:
  assumes "mr_reachable env c" and "env_ok fresh_node env" and "live_below (mc_entries c)" and "attr_iov attr = Some k"
  shows "(region_ok k \<longrightarrow> (\<exists>r c'. ofi_mr_cache_search env c attr = Some (r, c') \<and>
      (case r of Inr e \<Rightarrow> granted (held (mc_entries c)) k e (held (mc_entries c')) | Inl _ \<Rightarrow> held (mc_entries c') = held (mc_entries c)))) \<and>
    (\<exists>r c'. ofi_mr_cache_find c attr = Some (r, c') \<and>
      (case r of Some e \<Rightarrow> granted (held (mc_entries c)) k e (held (mc_entries c')) | None \<Rightarrow> held (mc_entries c') = held (mc_entries c))) \<and>
    (\<exists>r c'. ofi_mr_cache_reg env c attr = Some (r, c') \<and>
      (case r of Inr e \<Rightarrow> held (mc_entries c) e = None \<and> held (mc_entries c') = (held (mc_entries c))(e \<mapsto> (1, k))
       | Inl _ \<Rightarrow> held (mc_entries c') = held (mc_entries c))) \<and>
    (\<forall>e. held (mc_entries c) e \<noteq> None \<longrightarrow>
      (\<exists>c'. ofi_mr_cache_delete c e = Some c' \<and> released (held (mc_entries c)) e (held (mc_entries c')))) \<and>
    (\<exists>b c'. ofi_mr_cache_flush c = Some (b, c') \<and> held (mc_entries c') = held (mc_entries c))"
proof (intro conjI impI allI)
  note I = reachable_inv [OF assms(1,2)]
  show "\<exists>r c'. ofi_mr_cache_search env c attr = Some (r, c') \<and>
      (case r of Inr e \<Rightarrow> granted (held (mc_entries c)) k e (held (mc_entries c')) | Inl _ \<Rightarrow> held (mc_entries c') = held (mc_entries c))"
    if "region_ok k" using mrt.search_ok [OF I(1) assms(2) I(2) assms(3,4) that] by blast
  show "\<exists>r c'. ofi_mr_cache_find c attr = Some (r, c') \<and>
      (case r of Some e \<Rightarrow> granted (held (mc_entries c)) k e (held (mc_entries c')) | None \<Rightarrow> held (mc_entries c') = held (mc_entries c))"
  proof -
    obtain r c' where r: "ofi_mr_cache_find c attr = Some (r, c')" "case r of Some e \<Rightarrow> granted (held (mc_entries c)) k e (held (mc_entries c')) \<and> (\<exists>n v. view (mc_entries c) e = Some (n, v) \<and> ofi_iov_within k v)
      | None \<Rightarrow> held (mc_entries c') = held (mc_entries c) \<and> (\<forall>e n v. region_ok k \<longrightarrow> view (mc_entries c) e = Some (n, v) \<longrightarrow> \<not> ofi_iov_within k v)"
      using mrt.find_ok [OF I(1) assms(3,4)] by blast
    then show ?thesis by (cases r) auto
  qed
  show "\<exists>r c'. ofi_mr_cache_reg env c attr = Some (r, c') \<and>
      (case r of Inr e \<Rightarrow> held (mc_entries c) e = None \<and> held (mc_entries c') = (held (mc_entries c))(e \<mapsto> (1, k))
       | Inl _ \<Rightarrow> held (mc_entries c') = held (mc_entries c))"
    using mrt.reg_ok [OF I(1) assms(2,4)] by blast
  show "\<exists>c'. ofi_mr_cache_delete c e = Some c' \<and> released (held (mc_entries c)) e (held (mc_entries c'))"
    if "held (mc_entries c) e \<noteq> None" for e using mrt.delete_ok [OF I(1) that] by blast
  show "\<exists>b c'. ofi_mr_cache_flush c = Some (b, c') \<and> held (mc_entries c') = held (mc_entries c)"
    using mrt.flush_ok [OF I(1)] by (auto simp: ofi_mr_cache_flush_def shrinks_def split: list.splits)
qed

theorem mr_cache_refines_references_witness:
  "\<exists>c r c'. mr_reachable ex_mr_env c \<and> ofi_mr_cache_search ex_mr_env c ex_mr_attr = Some (r, c') \<and>
    (case r of Inr e \<Rightarrow> granted Map.empty \<lparr>iov_base = 4096, iov_len = 64\<rparr> e (held (mc_entries c')) | Inl _ \<Rightarrow> held (mc_entries c') = Map.empty)"
proof -
  obtain c where c: "mr_reachable ex_mr_env c" "mc_entries c = Map.empty" using ex_reachable_cache by blast
  have h: "held (mc_entries c) = Map.empty" "live_below (mc_entries c)" using c(2) by (simp_all add: held_def live_below_def fun_eq_iff)
  from mr_cache_refines_references [OF c(1) ex_mr_env_ok h(2) ex_mr_attr_ok(1), THEN conjunct1] show ?thesis
    unfolding h(1) using c(1) ex_mr_attr_ok(2) by blast
qed

text \<open>C17. After a notification no cached region has a byte in common with the range: the cached entries that
  touch it have left the storage and the others are still there.  The notification returns, and the entries in
  use stay registered for their users.\<close>

theorem mr_cache_notify_evicts:
  assumes "mr_reachable env c" and "env_ok fresh_node env" and "iov_wf \<lparr>iov_base = addr, iov_len = len\<rparr>"
  shows "\<exists>c'. ofi_mr_cache_notify c addr len = Some c' \<and> held (mc_entries c') = held (mc_entries c) \<and>
    view (mc_entries c') = view (mc_entries c) |`
      {e. \<forall>n v. view (mc_entries c) e = Some (n, v) \<longrightarrow> iov_set \<lparr>iov_base = addr, iov_len = len\<rparr> \<inter> iov_set v = {}}"
proof -
  let ?k = "\<lparr>iov_base = addr, iov_len = len\<rparr>"
  note I = reachable_inv [OF assms(1,2)]
  have t: "\<not> touches ?k v \<longleftrightarrow> iov_set ?k \<inter> iov_set v = {}" if w: "view (mc_entries c) e = Some (n, v)" for e n v
  proof -
    obtain en where "mc_entries c e = Some en" "storage_context en = Some n" "en_iov en = v" using view_SomeD [OF w] by blast
    then have "region_ok v" using mrt.cinv_entry [OF I(1)] by (auto simp: entry_ok_def)
    then have "iov_wf v" by (simp add: region_ok_def iov_wf_def)
    then show ?thesis using iov_disjoint [OF assms(3)] by (auto simp: touches_def)
  qed
  obtain c' where c': "ofi_mr_cache_notify c addr len = Some c'" "shrinks (mc_entries c) (mc_entries c')"
    "view (mc_entries c') = view (mc_entries c) |` {e. \<forall>n v. view (mc_entries c) e = Some (n, v) \<longrightarrow> \<not> touches ?k v}"
    using mrt.notify_ok [OF I(1), of addr len] by blast
  have "{e. \<forall>n v. view (mc_entries c) e = Some (n, v) \<longrightarrow> \<not> touches ?k v} =
      {e. \<forall>n v. view (mc_entries c) e = Some (n, v) \<longrightarrow> iov_set ?k \<inter> iov_set v = {}}" using t by blast
  then show ?thesis using c' by (auto simp: shrinks_def)
qed

theorem mr_cache_notify_evicts_witness:
  "\<exists>c c'. mr_reachable ex_mr_env c \<and> view (mc_entries c) \<noteq> Map.empty \<and>
    ofi_mr_cache_notify c 4100 8 = Some c' \<and> view (mc_entries c') = Map.empty"
proof -
  obtain c where c: "mr_reachable ex_mr_env c"
    "mc_entries c = [1 \<mapsto> \<lparr>en_iov = ex_region, storage_context = Some 1, subscribed = True, use_cnt = 0\<rparr>]" using ex_idle by blast
  have v: "view (mc_entries c) = [1 \<mapsto> (1, ex_region)]" using c(2) by (simp add: view_def fun_eq_iff)
  have w: "iov_wf \<lparr>iov_base = 4100, iov_len = 8\<rparr>" by (simp add: iov_wf_def)
  have "iov_set \<lparr>iov_base = 4100, iov_len = 8\<rparr> \<inter> iov_set ex_region \<noteq> {}"
    using iov_disjoint [OF w, of ex_region]
    by (simp add: iov_wf_def ex_region_def ofi_iov_left_def ofi_iov_right_def ofi_iov_end_def)
  then have s: "{e. \<forall>n v. [1 \<mapsto> (1 :: nat, ex_region)] e = Some (n, v) \<longrightarrow> iov_set \<lparr>iov_base = 4100, iov_len = 8\<rparr> \<inter> iov_set v = {}} = - {1}"
    by auto
  obtain c' where "ofi_mr_cache_notify c 4100 8 = Some c'" "view (mc_entries c') = [1 \<mapsto> (1, ex_region)] |` (- {1})"
    using mr_cache_notify_evicts [OF c(1) ex_mr_env_ok w, unfolded v s] by blast
  moreover have "[1 \<mapsto> (1 :: nat, ex_region)] |` (- {1 :: nat}) = Map.empty" by (simp add: restrict_map_def fun_eq_iff)
  moreover have "view (mc_entries c) \<noteq> Map.empty" unfolding v by simp
  ultimately show ?thesis using c(1) by metis
qed

text \<open>C18. A lookup finds a region exactly when a cached entry covers it, although the tree compares with any
  entry that contains or is contained in the region; neither the storage nor the registrations change.\<close>

theorem mr_cache_find_complete:
  assumes "mr_reachable env c" and "env_ok fresh_node env" and "live_below (mc_entries c)" and "attr_iov attr = Some k" "region_ok k"
  shows "\<exists>r c'. ofi_mr_cache_find c attr = Some (r, c') \<and> view (mc_entries c') = view (mc_entries c) \<and> mc_hist c' = mc_hist c \<and>
    (r = None \<longleftrightarrow> (\<forall>e n v. view (mc_entries c) e = Some (n, v) \<longrightarrow> \<not> ofi_iov_within k v))"
proof -
  obtain r c' where r: "ofi_mr_cache_find c attr = Some (r, c')" "view (mc_entries c') = view (mc_entries c)" "mc_hist c' = mc_hist c"
    "case r of Some e \<Rightarrow> granted (held (mc_entries c)) k e (held (mc_entries c')) \<and> (\<exists>n v. view (mc_entries c) e = Some (n, v) \<and> ofi_iov_within k v)
     | None \<Rightarrow> held (mc_entries c') = held (mc_entries c) \<and> (\<forall>e n v. region_ok k \<longrightarrow> view (mc_entries c) e = Some (n, v) \<longrightarrow> \<not> ofi_iov_within k v)"
    using mrt.find_ok [OF reachable_inv(1) [OF assms(1,2)] assms(3,4)] by blast
  then show ?thesis using assms(5) by (cases r) auto
qed

theorem mr_cache_find_complete_witness:
  "\<exists>c e c'. mr_reachable ex_mr_env c \<and> ofi_mr_cache_find c ex_mr_attr = Some (Some e, c')"
proof -
  obtain c where c: "mr_reachable ex_mr_env c"
    "mc_entries c = [1 \<mapsto> \<lparr>en_iov = ex_region, storage_context = Some 1, subscribed = True, use_cnt = 1\<rparr>]" using ex_searched by blast
  have h: "live_below (mc_entries c)" "view (mc_entries c) = [1 \<mapsto> (1, ex_region)]"
    using c(2) by (auto simp: live_below_def view_def fun_eq_iff)
  have "ofi_iov_within \<lparr>iov_base = 4096, iov_len = 64\<rparr> ex_region" by (simp add: ofi_iov_within_def ofi_iov_end_def ex_region_def)
  moreover obtain r c' where "ofi_mr_cache_find c ex_mr_attr = Some (r, c')"
    "r = None \<longleftrightarrow> (\<forall>e n v. [1 :: nat \<mapsto> (1 :: nat, ex_region)] e = Some (n, v) \<longrightarrow> \<not> ofi_iov_within \<lparr>iov_base = 4096, iov_len = 64\<rparr> v)"
    using mr_cache_find_complete [OF c(1) ex_mr_env_ok h(1) ex_mr_attr_ok, unfolded h(2)] by blast
  ultimately have "r \<noteq> None" by (metis fun_upd_same)
  then show ?thesis using c(1) \<open>ofi_mr_cache_find c ex_mr_attr = Some (r, c')\<close> by auto
qed

text \<open>C40. When all users have released their entries, the cleanup of a reachable cache passes its assertions, empties
  the storage and deregisters every region that was registered, each exactly once.\<close>

theorem mr_cache_cleanup_releases:
  assumes "mr_reachable env c" and "env_ok fresh_node env" and "mc_domain c" and "held (mc_entries c) = Map.empty"
  shows "\<exists>c'. ofi_mr_cache_cleanup ref monitor self c = Some ([], c', ref - 1, ofi_monitor_del_cache monitor self) \<and>
    mc_entries c' = Map.empty \<and> added (mc_hist c') = deleted (mc_hist c')"
  using mrt.cleanup_ok [OF reachable_inv(1) [OF assms(1,2)] assms(3,4)] by blast

theorem mr_cache_cleanup_releases_witness:
  "\<exists>c c'. mr_reachable ex_mr_env c \<and> mc_entries c \<noteq> Map.empty \<and>
    ofi_mr_cache_cleanup 1 \<lparr>mon_kind = UffdMonitor, mon_list = [7], mon_started = True\<rparr> 7 c =
      Some ([], c', 0, \<lparr>mon_kind = UffdMonitor, mon_list = [], mon_started = False\<rparr>) \<and> mc_entries c' = Map.empty"
proof -
  obtain c where c: "mr_reachable ex_mr_env c" "mc_domain c"
    "mc_entries c = [1 \<mapsto> \<lparr>en_iov = ex_region, storage_context = Some 1, subscribed = True, use_cnt = 0\<rparr>]" using ex_idle by blast
  have h: "held (mc_entries c) = Map.empty" using c(3) by (simp add: held_def fun_eq_iff)
  have n: "mc_entries c \<noteq> Map.empty" using c(3) by simp
  from mr_cache_cleanup_releases [OF c(1) ex_mr_env_ok c(2) h, of 1 "\<lparr>mon_kind = UffdMonitor, mon_list = [7], mon_started = True\<rparr>" 7]
  show ?thesis using c(1) n by (auto simp: ofi_monitor_del_cache_def)
qed

end
