(* ===== verification/Spec2Isabelle.thy ===== *)
theory Spec2Isabelle
  imports Ofi_Indexer Ofi_Util Ofi_Rbuf Ofi_Core Ofi_Cq_Laws Ofi_Eq Ofi_Cntr Ofi_Iov Ofi_Mr Ofi_Mr_Cache_Rbt
begin

section \<open>The transport library: overview\<close>

text \<open>
  The repository holds network transports for a simulator.  Its core, under \<^verbatim>\<open>src/libfabric\<close>, is the
  libfabric library: the public interface and the provider registry (\<^verbatim>\<open>src/libfabric/src\<close>), the
  utility code that providers share (\<^verbatim>\<open>prov/util/src\<close>, \<^verbatim>\<open>include/ofi_*.h\<close>), the hooks and the simulator's
  own provider.  This library models the code that carries the logic of the first two.

  \<^item> \<open>Ofi_Prelude\<close>: machine integers, signed increments, error codes, sequencing of fallible steps,
    \<open>memcpy\<close>, lemma collections.
  \<^item> \<open>Ofi_Indexer\<close>: \<^verbatim>\<open>include/ofi_indexer.h\<close> and \<^verbatim>\<open>src/indexer.c\<close>, tables from small integers to
    pointers.  Insert, lookup and remove implement a finite map (locale \<open>handle_table\<close>).
  \<^item> \<open>Ofi_Util\<close>: power-of-two rounding, alignment, serial numbers, key indices and tag formats of
    \<^verbatim>\<open>include/ofi.h\<close> and \<^verbatim>\<open>src/common.c\<close>, on words of the source width.
  \<^item> \<open>Ofi_Rbuf\<close>: \<^verbatim>\<open>include/ofi_rbuf.h\<close> and \<^verbatim>\<open>include/ofi_recvwin.h\<close>.  The circular queue and the byte ring
    are bounded queues (locale \<open>bounded_queue\<close>) whatever their counters have wrapped to; the receive
    window delivers in the order of the message numbers; a wake-up is lost only by a failed socket write.
  \<^item> \<open>Ofi_Fabric\<close>: the data model of \<^verbatim>\<open>include/rdma/fabric.h\<close>, string helpers, error strings, and the
    lifecycle of \<open>struct fi_info\<close>.
  \<^item> \<open>Ofi_Attr\<close>: the checks and alterations of \<^verbatim>\<open>prov/util/src/util_attr.c\<close>.
  \<^item> \<open>Ofi_Core\<close>: provider registry, filters, \<open>fi_getinfo\<close>, \<open>fi_fabric\<close>, and the functions by which a
    utility provider layers over a core provider.
  \<^item> \<open>Ofi_Wait\<close>: deadlines of the blocking calls (\<^verbatim>\<open>include/ofi.h\<close>) and the locales \<open>polling_loop\<close>,
    \<open>event_source\<close> and \<open>ordered_source\<close> that the queues share.
  \<^item> \<open>Ofi_Cq\<close>, \<open>Ofi_Cq_Laws\<close>: the completion queue of \<^verbatim>\<open>prov/util/src/util_cq.c\<close>.  The first theory has the
    operations and the lemmas on slots and read loops, the second the order of delivery, overflow
    and blocking reads, with the interpretations of the locales.
  \<^item> \<open>Ofi_Eq\<close>: the event queue of \<^verbatim>\<open>prov/util/src/util_eq.c\<close>, with the ownership of error data as a step
    relation.
  \<^item> \<open>Ofi_Cntr\<close>: the counters of \<^verbatim>\<open>prov/util/src/util_cntr.c\<close>.
  \<^item> \<open>Ofi_Iov\<close>: I/O vectors (\<^verbatim>\<open>include/ofi_iov.h\<close>, \<^verbatim>\<open>src/iov.c\<close>) on a byte memory, whose list operations are
    \<open>take\<close> and \<open>drop\<close> on the addresses a vector denotes (locale \<open>segment_slice\<close> for the two slicing loops),
    and the bit mask of \<^verbatim>\<open>include/ofi_bitmask.h\<close>.
  \<^item> \<open>Ofi_Tree\<close>, \<open>Ofi_Tree_Del\<close>, \<open>Ofi_Tree_Laws\<close>: the red-black map of \<^verbatim>\<open>src/tree.c\<close> with its pointers.  The
    first theory has the operations, trees and their contexts, rotations and insertion; the second
    deletion; the third reachable states and the contract of a map (locale \<open>keyed_map\<close>), which every
    comparison that orders the keys satisfies (locale \<open>ordered_compare\<close>).
  \<^item> \<open>Ofi_Mr\<close>: the software memory registration of \<^verbatim>\<open>prov/util/src/util_mr_map.c\<close>, an instance of that
    contract.
  \<^item> \<open>Ofi_Mr_Cache\<close>, \<open>Ofi_Mr_Cache_Inv\<close>, \<open>Ofi_Mr_Cache_Laws\<close>, \<open>Ofi_Mr_Cache_Rbt\<close>: the registration cache of
    \<^verbatim>\<open>prov/util/src/util_mr_cache.c\<close> and the list of caches of a monitor (\<^verbatim>\<open>util_mem_monitor.c\<close>).  The first
    theory has the operations; the second the invariant and the contract of a storage (locale
    \<open>mr_storage\<close>, after the function pointers of \<open>struct ofi_mr_storage\<close>) with the steps of the operations;
    the third what every operation does for any such storage; the fourth the interpretation on the
    red-black map and the properties: the cache counts exactly, implements a map of references, evicts
    what a notification names and leaks no registration.

  Conventions.  A C function that returns zero or a negative error returns \<open>Inr\<close> or \<open>Inl\<close>.  \<open>None\<close> as
  the result of an operation is undefined behaviour of the C code, a failed assertion included; a copy
  of no bytes is defined whatever its pointers.  A pointer that the code
  dereferences without a test is read with \<open>the\<close>, and the theorems ask for it to be there.  Arguments
  named \<open>ok\<close> answer the allocations in order.  Code outside the repository, and the entry points of a
  provider, are function arguments.  Log messages and locks are left out; an operation that holds a
  lock is one step.

  How the parts interact.  The completion queue is a circular queue of \<open>Ofi_Rbuf\<close> with an overflow list;
  the blocking reads of both queues and the counter wait use the deadlines of \<open>Ofi_Wait\<close>.  The memory
  registration map stores its regions, which are I/O vectors, in the red-black map; the registration
  cache keeps the addresses of its entries there, under a comparison that reads the entries.  The layering
  functions of \<open>Ofi_Core\<close> use the attribute checks of \<open>Ofi_Attr\<close> on the data of \<open>Ofi_Fabric\<close>.

  Bounds and termination.  Loops over arrays and lists are structural recursions.  The blocking calls
  have a bound on the number of rounds: the theorems show that one round more than the number of the
  first round in which the clock has reached the deadline is enough, whatever the events.  The loops
  of the red-black map and of the registration cache are partial functions into \<open>option\<close>; their
  theorems say that they return \<open>Some\<close>.  The regions given to the cache are not empty and end below the
  last address, so that the length of a merged region does not overflow.  The completion queue theorems ask for a size of at most \<open>2 ^ 62\<close>, far above what can be
  allocated, so that the rounding to a power of two does not overflow.  Eight shifts are enough to
  find the lowest set bit of a byte that is not zero.

  Not modelled.  The remaining utility code of \<^verbatim>\<open>prov/util/src\<close> that drives system services or other
  objects: address vectors and name server (sockets and name resolution), collectives, atomics
  (tables of macro-generated arithmetic), endpoints, wait sets over epoll descriptors, shared memory,
  the buffer pools (aligned memory and huge pages; the cache sees them as an allocator), the userfault
  thread and the memory hooks with their assembly patches.  In \<^verbatim>\<open>src\<close>: the printing of structures, the environment
  variables, the logger, the ABI shims and stubs that only return an error, and the parts of
  \<^verbatim>\<open>common.c\<close> on sockets and polling.  The hook provider forwards every call.  The simulator's provider
  (\<^verbatim>\<open>prov/sstmac\<close>), \<^verbatim>\<open>src/ugni\<close> and \<^verbatim>\<open>src/ibverbs\<close> are C++ glue to a simulator that is not part of the
  repository and vendor headers.  The component list of the manifest names each of them.
\<close>

end
